(* ===== verification/Prelude.thy ===== *)
theory Prelude
  imports Main "HOL-Library.AList" "HOL-Library.Word" "HOL-Library.Char_ord" "HOL-Library.List_Lexorder"
begin

text \<open>
  Shared vocabulary of the development: the Python values that the store's JSON documents
  hold, the error values the modelled code raises, the string operations it calls, and the
  lemmas on lists, association lists and maps that several components use.

  A Python \<open>str\<close> is a \<^typ>\<open>string\<close> whose characters are code points below 256; ids, labels, action
  names, content types and timestamps are ASCII. A \<open>dict\<close> decoded from a JSON document is an
  association list in insertion order; \<open>d.get(k)\<close> is \<open>dget\<close>, which answers \<open>PNone\<close> for an absent key
  as Python answers \<open>None\<close>, and \<open>d[k] = v\<close> is \<open>dset\<close>, which updates in place or appends.
\<close>

named_theorems walk_simps \<open>unfolding rules for the graph walks\<close>
named_theorems mask_simps \<open>the laws of the attenuation mask\<close>
named_theorems grant_simps \<open>reading the fields of a grant\<close>

section \<open>Python values\<close>

datatype pyval =
    PNone
  | PBool bool
  | PInt int
  | PFloat string
  | PStr string
  | PList "pyval list"
  | PDict "(string \<times> pyval) list"

type_synonym doc = "(string \<times> pyval) list"

text \<open>Truthiness: \<open>None\<close>, \<open>False\<close>, zero and the empty containers are falsy. A float is kept as its
  source text and is falsy exactly when it is a number with no non-zero digit before its exponent;
  \<open>nan\<close> and the infinities are truthy.\<close>

definition float_is_zero :: "string \<Rightarrow> bool" where
  "float_is_zero s = (s \<notin> {''nan'', ''inf'', ''-inf''} \<and>
     list_all (\<lambda>c. c \<notin> set ''123456789'') (takeWhile (\<lambda>c. c \<noteq> CHR ''e'' \<and> c \<noteq> CHR ''E'') s))"

fun truthy :: "pyval \<Rightarrow> bool" where
  "truthy PNone = False"
| "truthy (PBool b) = b"
| "truthy (PInt n) = (n \<noteq> 0)"
| "truthy (PFloat s) = (\<not> float_is_zero s)"
| "truthy (PStr s) = (s \<noteq> [])"
| "truthy (PList vs) = (vs \<noteq> [])"
| "truthy (PDict kvs) = (kvs \<noteq> [])"

definition dget :: "doc \<Rightarrow> string \<Rightarrow> pyval" where
  "dget d k = (case map_of d k of None \<Rightarrow> PNone | Some v \<Rightarrow> v)"

definition dset :: "string \<Rightarrow> pyval \<Rightarrow> doc \<Rightarrow> doc" where
  "dset k v d = AList.update k v d"

text \<open>\<open>str(v)\<close> for the values that appear where the code stringifies an id: a string is itself.
  Every other value is read as the empty string, which every caller treats as absent.\<close>

fun as_text :: "pyval \<Rightarrow> string" where
  "as_text (PStr s) = s"
| "as_text _ = []"

definition dtext :: "doc \<Rightarrow> string \<Rightarrow> string" where
  "dtext d k = as_text (dget d k)"

definition opt_val :: "string option \<Rightarrow> pyval" where
  "opt_val x = (case x of None \<Rightarrow> PNone | Some s \<Rightarrow> PStr s)"

fun as_opt_text :: "pyval \<Rightarrow> string option" where
  "as_opt_text (PStr s) = Some s"
| "as_opt_text _ = None"

fun as_opt_bool :: "pyval \<Rightarrow> bool option" where
  "as_opt_bool (PBool b) = Some b"
| "as_opt_bool _ = None"

fun as_opt_int :: "pyval \<Rightarrow> int option" where
  "as_opt_int (PInt n) = Some n"
| "as_opt_int _ = None"

lemma dget_dset [simp]: "dget (dset k v d) k' = (if k' = k then v else dget d k')"
  by (simp add: dget_def dset_def update_conv')

lemma as_opt_text_opt_val [simp]: "as_opt_text (opt_val x) = x"
  by (cases x) (simp_all add: opt_val_def)

lemma truthy_opt_val [simp]: "truthy (opt_val x) = (\<exists>s. x = Some s \<and> s \<noteq> [])"
  by (cases x) (simp_all add: opt_val_def)

section \<open>Errors\<close>

text \<open>The exceptions the modelled code raises or catches, as values. \<open>StoreFault\<close> stands for the
  broad \<open>except Exception\<close> of a failed store read.\<close>

datatype py_error =
    ValueError
  | TypeError
  | KeyError
  | AttributeError
  | StoreFault
  | EdgesTruncated
  | OriginChainUnterminated
  | CellPrincipalUnresolved
  | HTTPException nat
  | InviteNotFound
  | InviteExhausted
  | InviteIdentityMismatch
  | InvalidToken
  | RuntimeError
  | MeshListingError
  | MasterKeyUnavailable

type_synonym 'a result = "py_error + 'a"

definition rbind :: "'a result \<Rightarrow> ('a \<Rightarrow> 'b result) \<Rightarrow> 'b result" where
  "rbind m f = (case m of Inl e \<Rightarrow> Inl e | Inr a \<Rightarrow> f a)"

lemma rbind_simps [simp]:
  "rbind (Inl e) f = Inl e"
  "rbind (Inr a) f = f a"
  by (simp_all add: rbind_def)

lemma rbind_eq_Inr: "rbind m f = Inr b \<longleftrightarrow> (\<exists>a. m = Inr a \<and> f a = Inr b)"
  by (cases m) simp_all

section \<open>String operations\<close>

definition is_space :: "char \<Rightarrow> bool" where
  "is_space c = ((of_char c :: nat) \<in> {9, 10, 11, 12, 13, 28, 29, 30, 31, 32, 133, 160})"

definition py_strip :: "string \<Rightarrow> string" where
  "py_strip s = rev (dropWhile is_space (rev (dropWhile is_space s)))"

text \<open>\<open>str.lower()\<close> on the code points below 256: the ASCII and the Latin-1 capitals.\<close>

definition lower_char :: "char \<Rightarrow> char" where
  "lower_char c =
     (let n = of_char c :: nat in if 65 \<le> n \<and> n \<le> 90 \<or> 192 \<le> n \<and> n \<le> 222 \<and> n \<noteq> 215
      then char_of (n + 32) else c)"

definition py_lower :: "string \<Rightarrow> string" where
  "py_lower s = map lower_char s"

text \<open>Normalising by \<open>strip().lower()\<close> is idempotent: lowering never makes or removes a space.\<close>

lemma is_space_lower [simp]: "is_space (lower_char c) = is_space c"
  by (auto simp: is_space_def lower_char_def Let_def of_char_of)

lemma lower_char_idem [simp]: "lower_char (lower_char c) = lower_char c"
  by (auto simp: lower_char_def Let_def of_char_of)

lemma py_strip_lower: "py_strip (py_lower s) = py_lower (py_strip s)"
proof -
  have dw: "dropWhile is_space (map lower_char t) = map lower_char (dropWhile is_space t)" for t
    by (induction t) simp_all
  show ?thesis by (simp add: py_strip_def py_lower_def dw rev_map)
qed

lemma py_lower_idem [simp]: "py_lower (py_lower s) = py_lower s"
  by (simp add: py_lower_def)

lemma py_strip_idem [simp]: "py_strip (py_strip s) = py_strip s"
proof -
  define t where "t = dropWhile is_space s"
  define u where "u = rev (dropWhile is_space (rev t))"
  have hd_t: "t = [] \<or> \<not> is_space (hd t)" unfolding t_def by (metis hd_dropWhile)
  obtain v where v: "t = u @ v" unfolding u_def
    by (metis rev_append rev_rev_ident takeWhile_dropWhile_id)
  then have "u = [] \<or> \<not> is_space (hd u)" using hd_t by (cases u) auto
  then have "dropWhile is_space u = u" by (cases u) auto
  moreover have "dropWhile is_space (rev u) = rev u" by (simp add: u_def)
  ultimately have "py_strip u = u" by (simp add: py_strip_def)
  moreover have "py_strip s = u" by (simp add: py_strip_def u_def t_def)
  ultimately show ?thesis by simp
qed

fun starts_with :: "string \<Rightarrow> string \<Rightarrow> bool" where
  "starts_with [] s = True"
| "starts_with (p # ps) [] = False"
| "starts_with (p # ps) (c # cs) = (p = c \<and> starts_with ps cs)"

definition ends_with :: "string \<Rightarrow> string \<Rightarrow> bool" where
  "ends_with suf s = starts_with (rev suf) (rev s)"

text \<open>\<open>a in s\<close> for strings: substring containment.\<close>

fun substring :: "string \<Rightarrow> string \<Rightarrow> bool" where
  "substring p [] = (p = [])"
| "substring p (c # cs) = (starts_with p (c # cs) \<or> substring p cs)"

lemma starts_with_append [simp]: "starts_with p (p @ s)"
  by (induction p) simp_all

lemma starts_with_iff: "starts_with p s \<longleftrightarrow> (\<exists>t. s = p @ t)"
  by (induction p s rule: starts_with.induct) auto

lemma substring_iff: "substring p s \<longleftrightarrow> (\<exists>u v. s = u @ p @ v)"
proof (induction p s rule: substring.induct)
  case (1 p)
  show ?case by simp
next
  case (2 p c cs)
  show ?case
  proof
    assume "substring p (c # cs)"
    then consider "starts_with p (c # cs)" | "substring p cs" by auto
    then show "\<exists>u v. c # cs = u @ p @ v"
    proof cases
      case 1
      then obtain t where "c # cs = p @ t" by (auto simp: starts_with_iff)
      then have "c # cs = [] @ p @ t" by simp
      then show ?thesis by blast
    next
      case 2
      with "2.IH" obtain u v where "cs = u @ p @ v" by auto
      then have "c # cs = (c # u) @ p @ v" by simp
      then show ?thesis by blast
    qed
  next
    assume "\<exists>u v. c # cs = u @ p @ v"
    then obtain u v where *: "c # cs = u @ p @ v" by blast
    show "substring p (c # cs)"
    proof (cases u)
      case Nil
      with * have "\<exists>t. c # cs = p @ t" by auto
      then have "starts_with p (c # cs)" by (simp only: starts_with_iff)
      then show ?thesis by simp
    next
      case (Cons a u')
      with * have "cs = u' @ p @ v" by simp
      with "2.IH" show ?thesis by auto
    qed
  qed
qed

section \<open>Lists and association lists\<close>

text \<open>\<open>dict.fromkeys(xs)\<close>: the first occurrence of every element, in order.\<close>

definition dedup :: "'a list \<Rightarrow> 'a list" where
  "dedup xs = rev (remdups (rev xs))"

lemma set_dedup [simp]: "set (dedup xs) = set xs"
  by (simp add: dedup_def)

lemma distinct_dedup [simp]: "distinct (dedup xs)"
  by (simp add: dedup_def)

text \<open>\<open>enumerate(xs)\<close>.\<close>

lemma set_zip_upt: "(j, a) \<in> set (zip [0..<length xs] xs) \<longleftrightarrow> j < length xs \<and> a = xs ! j"
  by (auto simp: set_zip intro!: exI [of _ j])

text \<open>\<open>next((x for x in xs if p(x)), None)\<close>.\<close>

fun find_first :: "('a \<Rightarrow> bool) \<Rightarrow> 'a list \<Rightarrow> 'a option" where
  "find_first p [] = None"
| "find_first p (x # xs) = (if p x then Some x else find_first p xs)"

lemma find_first_Some: "find_first p xs = Some x \<Longrightarrow> x \<in> set xs \<and> p x"
  by (induction xs) (auto split: if_splits)

lemma find_first_None: "find_first p xs = None \<longleftrightarrow> (\<forall>x\<in>set xs. \<not> p x)"
  by (induction xs) auto

lemma map_of_update [simp]: "map_of (AList.update k v al) = (map_of al)(k \<mapsto> v)"
  by (simp add: update_conv')

lemma map_of_delete [simp]: "map_of (AList.delete k al) = (map_of al)(k := None)"
  by (simp add: delete_conv')

lemma distinct_keys_update [simp]:
  "distinct (map fst al) \<Longrightarrow> distinct (map fst (AList.update k v al))"
  by (simp add: distinct_update)

lemma distinct_keys_delete [simp]:
  "distinct (map fst al) \<Longrightarrow> distinct (map fst (AList.delete k al))"
  by (simp add: distinct_delete)

end
