(* ===== verification/Json_Text.thy ===== *)
theory Json_Text
  imports Prelude
begin

text \<open>
  The part of Python's \<open>json\<close> module that the store's TEXT columns go through: \<open>json.loads\<close> on any
  text, and \<open>json.dumps\<close> on a list of strings. The decoder follows the grammar of the standard
  decoder (strict strings, the number grammar, \<open>NaN\<close> and the infinities, no trailing comma), and
  answers \<open>None\<close> where \<open>json.loads\<close> raises \<open>ValueError\<close>. An escape above \<open>U+00FF\<close> is outside the
  character range of \<^typ>\<open>string\<close> and decodes to the single character \<open>0xFF\<close>.

  The recursive descent is fuelled; \<open>json_fuel\<close> is twice the length of the text plus two, and
  \<open>json_fuel_enough\<close> shows that more fuel never changes the answer.
  \<open>json_roundtrip\<close> is the codec law the mask column rests on.
\<close>

section \<open>Strings\<close>

definition hex_digit :: "char \<Rightarrow> nat option" where
  "hex_digit c =
     (let n = of_char c :: nat in
      if 48 \<le> n \<and> n \<le> 57 then Some (n - 48)
      else if 97 \<le> n \<and> n \<le> 102 then Some (n - 87)
      else if 65 \<le> n \<and> n \<le> 70 then Some (n - 55)
      else None)"

definition hex4 :: "char \<Rightarrow> char \<Rightarrow> char \<Rightarrow> char \<Rightarrow> nat option" where
  "hex4 a b c d =
     (case (hex_digit a, hex_digit b, hex_digit c, hex_digit d) of
        (Some h3, Some h2, Some h1, Some h0) \<Rightarrow> Some (4096 * h3 + 256 * h2 + 16 * h1 + h0)
      | _ \<Rightarrow> None)"

definition uchar :: "nat \<Rightarrow> char" where
  "uchar n = (if n < 256 then char_of n else CHR 0xFF)"

definition simple_escape :: "char \<Rightarrow> char option" where
  "simple_escape e =
     (if e = CHR 0x22 then Some (CHR 0x22)
      else if e = CHR 0x5C then Some (CHR 0x5C)
      else if e = CHR ''/'' then Some (CHR ''/'')
      else if e = CHR ''b'' then Some (CHR 0x08)
      else if e = CHR ''f'' then Some (CHR 0x0C)
      else if e = CHR ''n'' then Some (CHR 0x0A)
      else if e = CHR ''r'' then Some (CHR 0x0D)
      else if e = CHR ''t'' then Some (CHR 0x09)
      else None)"

definition push_char :: "char \<Rightarrow> (string \<times> string) option \<Rightarrow> (string \<times> string) option" where
  "push_char c p = map_option (\<lambda>(t, r). (c # t, r)) p"

lemma push_char_simps [simp]:
  "push_char c None = None"
  "push_char c (Some (t, r)) = Some (c # t, r)"
  by (simp_all add: push_char_def)

text \<open>The text after the opening quote; the result is the decoded string and what follows the
  closing quote.\<close>

fun parse_string :: "string \<Rightarrow> (string \<times> string) option" where
  "parse_string [] = None"
| "parse_string (c # cs) =
     (if c = CHR 0x22 then Some ([], cs)
      else if c = CHR 0x5C then
        (case cs of
           [] \<Rightarrow> None
         | e # es \<Rightarrow>
             if e = CHR ''u'' then
               (case es of
                  h3 # h2 # h1 # h0 # r \<Rightarrow>
                    (case hex4 h3 h2 h1 h0 of
                       None \<Rightarrow> None
                     | Some n \<Rightarrow> push_char (uchar n) (parse_string r))
                | _ \<Rightarrow> None)
             else
               (case simple_escape e of
                  None \<Rightarrow> None
                | Some ch \<Rightarrow> push_char ch (parse_string es)))
      else if (of_char c :: nat) < 32 then None
      else push_char c (parse_string cs))"

section \<open>Numbers and literals\<close>

definition is_digit :: "char \<Rightarrow> bool" where
  "is_digit c = (48 \<le> (of_char c :: nat) \<and> (of_char c :: nat) \<le> 57)"

fun digits_value :: "nat \<Rightarrow> string \<Rightarrow> nat" where
  "digits_value acc [] = acc"
| "digits_value acc (c # cs) = digits_value (10 * acc + ((of_char c :: nat) - 48)) cs"

definition span :: "('a \<Rightarrow> bool) \<Rightarrow> 'a list \<Rightarrow> 'a list \<times> 'a list" where
  "span p xs = (takeWhile p xs, dropWhile p xs)"

definition parse_frac :: "string \<Rightarrow> string \<times> string" where
  "parse_frac s =
     (case s of
        c # cs \<Rightarrow>
          (let (ds, r) = span is_digit cs in
           if c = CHR ''.'' \<and> ds \<noteq> [] then (c # ds, r) else ([], s))
      | [] \<Rightarrow> ([], []))"

definition parse_exp :: "string \<Rightarrow> string \<times> string" where
  "parse_exp s =
     (case s of
        c # cs \<Rightarrow>
          (let (sg, cs') = (case cs of
                              x # xs \<Rightarrow> if x = CHR ''+'' \<or> x = CHR ''-'' then ([x], xs) else ([], cs)
                            | [] \<Rightarrow> ([], []));
               (ds, r) = span is_digit cs' in
           if (c = CHR ''e'' \<or> c = CHR ''E'') \<and> ds \<noteq> [] then (c # sg @ ds, r) else ([], s))
      | [] \<Rightarrow> ([], []))"

definition parse_number :: "string \<Rightarrow> (pyval \<times> string) option" where
  "parse_number s =
     (let (neg, s') = (case s of
                         c # cs \<Rightarrow> if c = CHR ''-'' then (True, cs) else (False, s)
                       | [] \<Rightarrow> (False, [])) in
      case s' of
        [] \<Rightarrow> None
      | d # ds \<Rightarrow>
          if \<not> is_digit d then None
          else
            (let (ip, r) = (if d = CHR ''0'' then ([d], ds) else span is_digit s');
                 (fp, r') = parse_frac r;
                 (ep, r'') = parse_exp r';
                 sign = (if neg then [CHR ''-''] else []) in
             if fp = [] \<and> ep = []
             then Some (PInt (if neg then - int (digits_value 0 ip) else int (digits_value 0 ip)), r'')
             else Some (PFloat (sign @ ip @ fp @ ep), r'')))"

definition parse_literal :: "string \<Rightarrow> (pyval \<times> string) option" where
  "parse_literal s =
     (if starts_with ''null'' s then Some (PNone, drop 4 s)
      else if starts_with ''true'' s then Some (PBool True, drop 4 s)
      else if starts_with ''false'' s then Some (PBool False, drop 5 s)
      else if starts_with ''NaN'' s then Some (PFloat ''nan'', drop 3 s)
      else if starts_with ''Infinity'' s then Some (PFloat ''inf'', drop 8 s)
      else if starts_with ''-Infinity'' s then Some (PFloat ''-inf'', drop 9 s)
      else parse_number s)"

section \<open>Values\<close>

definition is_json_ws :: "char \<Rightarrow> bool" where
  "is_json_ws c = (c \<in> {CHR '' '', CHR 0x09, CHR 0x0A, CHR 0x0D})"

definition skip_ws :: "string \<Rightarrow> string" where
  "skip_ws s = dropWhile is_json_ws s"

fun parse_value :: "nat \<Rightarrow> string \<Rightarrow> (pyval \<times> string) option"
  and parse_elems :: "nat \<Rightarrow> string \<Rightarrow> (pyval list \<times> string) option"
  and parse_members :: "nat \<Rightarrow> string \<Rightarrow> ((string \<times> pyval) list \<times> string) option" where
  "parse_value 0 s = None"
| "parse_value (Suc n) s =
     (case s of
        [] \<Rightarrow> None
      | c # cs \<Rightarrow>
          if c = CHR 0x22 then map_option (\<lambda>(t, r). (PStr t, r)) (parse_string cs)
          else if c = CHR ''['' then
            (if starts_with '']'' (skip_ws cs) then Some (PList [], tl (skip_ws cs))
             else map_option (\<lambda>(vs, r). (PList vs, r)) (parse_elems n (skip_ws cs)))
          else if c = CHR 0x7B then
            (if starts_with [CHR 0x7D] (skip_ws cs) then Some (PDict [], tl (skip_ws cs))
             else map_option (\<lambda>(kvs, r). (PDict kvs, r)) (parse_members n (skip_ws cs)))
          else parse_literal s)"
| "parse_elems 0 s = None"
| "parse_elems (Suc n) s =
     (case parse_value n s of
        None \<Rightarrow> None
      | Some (v, r) \<Rightarrow>
          (case skip_ws r of
             [] \<Rightarrow> None
           | c # cs \<Rightarrow>
               if c = CHR '']'' then Some ([v], cs)
               else if c = CHR '','' then
                 map_option (\<lambda>(vs, r'). (v # vs, r')) (parse_elems n (skip_ws cs))
               else None))"
| "parse_members 0 s = None"
| "parse_members (Suc n) s =
     (case s of
        [] \<Rightarrow> None
      | q # qs \<Rightarrow>
          if q \<noteq> CHR 0x22 then None
          else
            (case parse_string qs of
               None \<Rightarrow> None
             | Some (k, r) \<Rightarrow>
                 if \<not> starts_with '':'' (skip_ws r) then None
                 else
                   (case parse_value n (skip_ws (tl (skip_ws r))) of
                      None \<Rightarrow> None
                    | Some (v, r2) \<Rightarrow>
                        (case skip_ws r2 of
                           [] \<Rightarrow> None
                         | c # cs \<Rightarrow>
                             if c = CHR 0x7D then Some ([(k, v)], cs)
                             else if c = CHR '','' then
                               map_option (\<lambda>(kvs, r'). ((k, v) # kvs, r')) (parse_members n (skip_ws cs))
                             else None))))"

declare parse_value.simps(2) [simp del] parse_elems.simps(2) [simp del] parse_members.simps(2) [simp del]

definition json_fuel :: "string \<Rightarrow> nat" where
  "json_fuel s = Suc (Suc (2 * length s))"

definition json_loads :: "string \<Rightarrow> pyval option" where
  "json_loads s =
     (case parse_value (json_fuel s) (skip_ws s) of
        None \<Rightarrow> None
      | Some (v, r) \<Rightarrow> if skip_ws r = [] then Some v else None)"

section \<open>Encoding a list of strings\<close>

definition hex_char :: "nat \<Rightarrow> char" where
  "hex_char n = (if n < 10 then char_of (48 + n) else char_of (87 + n))"

definition escape_char :: "char \<Rightarrow> string" where
  "escape_char c =
     (let n = of_char c :: nat in
      if c = CHR 0x22 then [CHR 0x5C, CHR 0x22]
      else if c = CHR 0x5C then [CHR 0x5C, CHR 0x5C]
      else if c = CHR 0x0A then [CHR 0x5C, CHR ''n'']
      else if c = CHR 0x0D then [CHR 0x5C, CHR ''r'']
      else if c = CHR 0x09 then [CHR 0x5C, CHR ''t'']
      else if c = CHR 0x0C then [CHR 0x5C, CHR ''f'']
      else if c = CHR 0x08 then [CHR 0x5C, CHR ''b'']
      else if 32 \<le> n \<and> n \<le> 126 then [c]
      else [CHR 0x5C, CHR ''u'', CHR ''0'', CHR ''0'', hex_char (n div 16), hex_char (n mod 16)])"

definition dump_string :: "string \<Rightarrow> string" where
  "dump_string s = CHR 0x22 # concat (map escape_char s) @ [CHR 0x22]"

fun dump_items :: "string list \<Rightarrow> string" where
  "dump_items [] = []"
| "dump_items [x] = dump_string x"
| "dump_items (x # y # ys) = dump_string x @ '', '' @ dump_items (y # ys)"

definition json_dumps :: "string list \<Rightarrow> string" where
  "json_dumps xs = ''['' @ dump_items xs @ '']''"

section \<open>Encoding any value\<close>

text \<open>\<open>json.dumps(v, separators=(isep, ksep), sort_keys=sorted)\<close>: the text that content hashes are
  taken over.\<close>

fun digits_of :: "nat \<Rightarrow> string" where
  "digits_of n = (if n < 10 then [char_of (48 + n)] else digits_of (n div 10) @ [char_of (48 + n mod 10)])"

declare digits_of.simps [simp del]

definition int_text :: "int \<Rightarrow> string" where
  "int_text n = (if n < 0 then CHR ''-'' # digits_of (nat (- n)) else digits_of (nat n))"

definition float_text :: "string \<Rightarrow> string" where
  "float_text s = (if s = ''nan'' then ''NaN'' else if s = ''inf'' then ''Infinity''
                   else if s = ''-inf'' then ''-Infinity'' else s)"

fun py_join :: "string \<Rightarrow> string list \<Rightarrow> string" where
  "py_join sep [] = []"
| "py_join sep [x] = x"
| "py_join sep (x # y # ys) = x @ sep @ py_join sep (y # ys)"

fun dump_value :: "string \<Rightarrow> string \<Rightarrow> bool \<Rightarrow> pyval \<Rightarrow> string" where
  "dump_value isep ksep srt PNone = ''null''"
| "dump_value isep ksep srt (PBool b) = (if b then ''true'' else ''false'')"
| "dump_value isep ksep srt (PInt n) = int_text n"
| "dump_value isep ksep srt (PFloat s) = float_text s"
| "dump_value isep ksep srt (PStr s) = dump_string s"
| "dump_value isep ksep srt (PList vs) = ''['' @ py_join isep (map (dump_value isep ksep srt) vs) @ '']''"
| "dump_value isep ksep srt (PDict kvs) =
     (let ps = map (\<lambda>(k, v). (k, dump_value isep ksep srt v)) kvs;
          ps' = (if srt then sort_key fst ps else ps) in
      [CHR 0x7B] @ py_join isep (map (\<lambda>(k, t). dump_string k @ ksep @ t) ps') @ [CHR 0x7D])"

section \<open>The codec law\<close>

lemma parse_string_escape_char:
  "parse_string (escape_char c @ r) = push_char c (parse_string r)"
proof -
  define n :: nat where "n = of_char c"
  have n: "n < 256" by (simp add: n_def)
  have c: "c = char_of n" by (simp add: n_def)
  have d: "n div 16 < 16" "n mod 16 < 16" using n by auto
  have hx: "hex_digit (hex_char k) = Some k" if "k < 16" for k
  proof -
    show ?thesis using that by (auto simp: hex_digit_def hex_char_def of_char_of)
  qed
  have h0: "hex_digit (CHR ''0'') = Some 0" by (simp add: hex_digit_def)
  have h4: "hex4 (CHR ''0'') (CHR ''0'') (hex_char (n div 16)) (hex_char (n mod 16)) = Some n"
    using d by (simp add: hex4_def hx h0)
  have u: "uchar n = c" using n by (simp add: uchar_def c)
  show ?thesis
    by (auto simp: escape_char_def Let_def simple_escape_def h4 [unfolded n_def] u [unfolded n_def])
qed

lemma parse_string_dump:
  "parse_string (concat (map escape_char s) @ CHR 0x22 # r) = Some (s, r)"
  by (induction s) (simp_all add: parse_string_escape_char)

lemma parse_value_string:
  "parse_value (Suc n) (dump_string s @ r) = Some (PStr s, r)"
  by (simp add: dump_string_def parse_string_dump parse_value.simps(2))

lemma skip_ws_dump [simp]: "skip_ws (dump_string s @ r) = dump_string s @ r"
  by (simp add: skip_ws_def dump_string_def is_json_ws_def)

lemma skip_ws_bracket [simp]: "skip_ws (CHR '']'' # r) = CHR '']'' # r" "skip_ws (CHR '','' # r) = CHR '','' # r"
  by (simp_all add: skip_ws_def is_json_ws_def)

lemma skip_ws_space [simp]: "skip_ws (CHR '' '' # r) = skip_ws r"
  by (simp add: skip_ws_def is_json_ws_def)

lemma parse_elems_dump:
  "xs \<noteq> [] \<Longrightarrow> length xs < n \<Longrightarrow>
   parse_elems n (dump_items xs @ '']'') = Some (map PStr xs, [])"
proof (induction xs arbitrary: n rule: dump_items.induct)
  case 1
  then show ?case by simp
next
  case (2 x)
  then obtain m where "n = Suc (Suc m)" by (cases n; cases "n - 1") auto
  then show ?case by (simp add: parse_value_string parse_elems.simps(2))
next
  case (3 x y ys)
  then obtain m where n: "n = Suc (Suc m)" by (cases n; cases "n - 1") auto
  with 3 have "parse_elems (Suc m) (dump_items (y # ys) @ '']'') = Some (map PStr (y # ys), [])"
    by simp
  moreover have "skip_ws (dump_items (y # ys) @ '']'') = dump_items (y # ys) @ '']''"
    by (cases ys) simp_all
  ultimately show ?case by (simp add: n parse_value_string parse_elems.simps(2) [of "Suc m"])
qed

lemma length_dump_items: "length xs \<le> length (dump_items xs)"
  by (induction xs rule: dump_items.induct) (auto simp: dump_string_def)

lemma dump_items_no_bracket: "xs \<noteq> [] \<Longrightarrow> \<exists>t. dump_items xs = CHR 0x22 # t"
  by (induction xs rule: dump_items.induct) (simp_all add: dump_string_def)

lemma json_roundtrip: "json_loads (json_dumps xs) = Some (PList (map PStr xs))"
proof (cases "xs = []")
  case True
  have "parse_value (Suc n) ''[]'' = Some (PList [], [])" for n
    by (simp add: parse_value.simps(2))
  then have "parse_value (json_fuel ''[]'') ''[]'' = Some (PList [], [])"
    unfolding json_fuel_def .
  with True show ?thesis
    by (simp add: json_loads_def json_dumps_def skip_ws_def is_json_ws_def)
next
  case False
  then obtain t where t: "dump_items xs = CHR 0x22 # t" using dump_items_no_bracket by blast
  define f where "f = 2 * length (json_dumps xs) + 1"
  have f: "length xs < f" using length_dump_items [of xs] by (simp add: f_def json_dumps_def)
  have "parse_value (json_fuel (json_dumps xs)) (json_dumps xs)
          = map_option (\<lambda>(vs, r). (PList vs, r)) (parse_elems f (dump_items xs @ '']''))"
    by (simp add: json_fuel_def json_dumps_def f_def t skip_ws_def is_json_ws_def parse_value.simps(2))
  also have "\<dots> = Some (PList (map PStr xs), [])"
    using parse_elems_dump [OF False f] by simp
  finally show ?thesis
    by (simp add: json_loads_def json_dumps_def skip_ws_def is_json_ws_def)
qed

section \<open>Fuel\<close>

text \<open>Every successful parse consumes at least one character, so the fuel of \<open>json_fuel\<close> is never
  what stops a parse: with that much fuel, more fuel gives the same answer.\<close>

lemma length_skip_ws [simp]: "length (skip_ws s) \<le> length s"
  by (simp add: skip_ws_def length_dropWhile_le)

lemma parse_string_shorter: "parse_string s = Some (t, r) \<Longrightarrow> length r < length s"
proof (induction s arbitrary: t r rule: parse_string.induct)
  case (2 c cs)
  then show ?case
    by (fastforce split: if_splits list.splits option.splits simp: push_char_def)
qed simp

lemma span_length: "span p xs = (a, b) \<Longrightarrow> length a + length b = length xs"
  by (auto simp: span_def) (metis length_append takeWhile_dropWhile_id)

lemma parse_frac_shorter: "parse_frac s = (a, r) \<Longrightarrow> length r \<le> length s"
  by (auto simp: parse_frac_def split: list.splits if_splits prod.splits dest!: span_length)

lemma parse_exp_shorter: "parse_exp s = (a, r) \<Longrightarrow> length r \<le> length s"
  by (auto simp: parse_exp_def split: list.splits if_splits prod.splits dest!: span_length)

lemma parse_number_shorter: "parse_number s = Some (v, r) \<Longrightarrow> length r < length s"
proof -
  have sp: "length b < length (d # ds)" if "span is_digit (d # ds) = (a, b)" "is_digit d" for a b d ds
    using that by (auto simp: span_def length_dropWhile_le less_Suc_eq_le)
  assume "parse_number s = Some (v, r)"
  then show ?thesis
    unfolding parse_number_def Let_def
    by (auto split: list.splits if_splits prod.splits dest!: sp parse_frac_shorter parse_exp_shorter)
qed

lemma parse_literal_shorter: "parse_literal s = Some (v, r) \<Longrightarrow> length r < length s"
  by (auto simp: parse_literal_def starts_with_iff parse_number_shorter split: if_splits)

lemma starts_with_tl: "starts_with [c] s \<Longrightarrow> length (tl s) < length s"
  by (cases s) simp_all

lemma parse_elems_step:
  assumes "parse_elems (Suc n) s = Some (vs, r)"
  obtains v r1 c cs where "parse_value n s = Some (v, r1)" "skip_ws r1 = c # cs"
    "r = cs \<or> (\<exists>vs'. parse_elems n (skip_ws cs) = Some (vs', r))"
  using assms by (auto simp: parse_elems.simps(2) split: list.splits option.splits if_splits)

lemma parse_members_step:
  assumes "parse_members (Suc n) s = Some (kvs, r)"
  obtains qs k r1 v r2 c cs where "s = CHR 0x22 # qs" "parse_string qs = Some (k, r1)"
    "parse_value n (skip_ws (tl (skip_ws r1))) = Some (v, r2)" "skip_ws r2 = c # cs"
    "r = cs \<or> (\<exists>kvs'. parse_members n (skip_ws cs) = Some (kvs', r))"
  using assms by (auto simp: parse_members.simps(2) split: list.splits option.splits if_splits)

lemma skip_ws_Cons_shorter: "skip_ws u = c # t \<Longrightarrow> length t < length u"
  using length_skip_ws [of u] by simp

lemma length_skip_tl: "length (skip_ws (tl (skip_ws u))) \<le> length u"
  using length_skip_ws [of "tl (skip_ws u)"] length_skip_ws [of u] length_tl [of "skip_ws u"]
  by linarith

lemma parse_shorter:
  "(parse_value n s = Some (v, r) \<longrightarrow> length r < length s) \<and>
   (parse_elems n s = Some (vs, r) \<longrightarrow> length r < length s) \<and>
   (parse_members n s = Some (kvs, r) \<longrightarrow> length r < length s)"
proof (induction n arbitrary: s v r vs kvs)
  case 0
  show ?case by simp
next
  case (Suc n)
  have pv: "length r' < length s'" if "parse_value n s' = Some (v', r')" for s' v' r'
    using Suc.IH that by blast
  have pe: "length r' \<le> length u" if "parse_elems n (skip_ws u) = Some (v', r')" for u v' r'
    using Suc.IH that length_skip_ws [of u] by (meson less_le_trans less_imp_le)
  have pm: "length r' \<le> length u" if "parse_members n (skip_ws u) = Some (v', r')" for u v' r'
    using Suc.IH that length_skip_ws [of u] by (meson less_le_trans less_imp_le)
  have tl: "length (skip_ws u) - Suc 0 \<le> length u" for u
    using length_skip_ws [of u] by linarith
  have "length r < length s" if "parse_value (Suc n) s = Some (v, r)"
    using that parse_literal_shorter [of s v r] tl
    by (auto simp: parse_value.simps(2) less_Suc_eq_le split: list.splits if_splits
        dest!: parse_string_shorter pe pm)
  moreover have "length r < length s" if "parse_elems (Suc n) s = Some (vs, r)"
    using that
  proof (rule parse_elems_step)
    fix v r1 c cs
    assume *: "parse_value n s = Some (v, r1)" "skip_ws r1 = c # cs"
      and "r = cs \<or> (\<exists>vs'. parse_elems n (skip_ws cs) = Some (vs', r))"
    then have "length r \<le> length cs" using pe by auto
    with pv [OF *(1)] skip_ws_Cons_shorter [OF *(2)] show "length r < length s" by linarith
  qed
  moreover have "length r < length s" if "parse_members (Suc n) s = Some (kvs, r)"
    using that
  proof (rule parse_members_step)
    fix qs k r1 v r2 c cs
    assume *: "s = CHR 0x22 # qs" "parse_string qs = Some (k, r1)"
      "parse_value n (skip_ws (tl (skip_ws r1))) = Some (v, r2)" "skip_ws r2 = c # cs"
      and "r = cs \<or> (\<exists>kvs'. parse_members n (skip_ws cs) = Some (kvs', r))"
    then have "length r \<le> length cs" using pm by auto
    with *(1) pv [OF *(3)] skip_ws_Cons_shorter [OF *(4)] parse_string_shorter [OF *(2)]
      length_skip_tl [of r1]
    show "length r < length s" by simp
  qed
  ultimately show ?case by blast
qed

lemma parse_enough:
  "(2 * length s < n \<longrightarrow> parse_value (Suc n) s = parse_value n s) \<and>
   (2 * length s + 1 < n \<longrightarrow> parse_elems (Suc n) s = parse_elems n s) \<and>
   (2 * length s + 1 < n \<longrightarrow> parse_members (Suc n) s = parse_members n s)"
proof (induction n arbitrary: s)
  case 0
  show ?case by simp
next
  case (Suc n)
  have pv: "parse_value (Suc n) u = parse_value n u" if "2 * length u < n" for u
    using Suc.IH that by blast
  have pe: "parse_elems (Suc n) (skip_ws u) = parse_elems n (skip_ws u)" if "2 * length u + 1 < n" for u
    using Suc.IH [of "skip_ws u"] that length_skip_ws [of u] by linarith
  have pm: "parse_members (Suc n) (skip_ws u) = parse_members n (skip_ws u)" if "2 * length u + 1 < n" for u
    using Suc.IH [of "skip_ws u"] that length_skip_ws [of u] by linarith
  have "parse_value (Suc (Suc n)) s = parse_value (Suc n) s" if "2 * length s < Suc n"
  proof (cases s)
    case (Cons c cs)
    with that have "2 * length cs + 1 < n" by simp
    with Cons show ?thesis
      by (simp add: parse_value.simps(2) [of "Suc n"] parse_value.simps(2) [of n] pe pm)
  qed (simp add: parse_value.simps(2))
  moreover have "parse_elems (Suc (Suc n)) s = parse_elems (Suc n) s" if "2 * length s + 1 < Suc n"
  proof (cases "parse_value n s")
    case None
    with pv [of s] that show ?thesis by (simp add: parse_elems.simps(2) [of "Suc n"] parse_elems.simps(2) [of n])
  next
    case (Some p)
    then obtain v r where p: "p = (v, r)" "length r < length s"
      using parse_shorter [of n s] by (cases p) auto
    show ?thesis
    proof (cases "skip_ws r")
      case Nil
      with Some p pv [of s] that show ?thesis by (simp add: parse_elems.simps(2) [of "Suc n"] parse_elems.simps(2) [of n])
    next
      case (Cons c cs)
      with p have "2 * length cs + 1 < n" using that skip_ws_Cons_shorter [OF Cons] by simp
      with Cons Some p pv [of s] that pe [of cs] show ?thesis
        by (simp add: parse_elems.simps(2) [of "Suc n"] parse_elems.simps(2) [of n])
    qed
  qed
  moreover have "parse_members (Suc (Suc n)) s = parse_members (Suc n) s" if "2 * length s + 1 < Suc n"
  proof (cases "\<exists>qs k r1. s = CHR 0x22 # qs \<and> parse_string qs = Some (k, r1)")
    case False
    then have "parse_members (Suc m) s = None" for m
      by (cases s) (auto simp: parse_members.simps(2) [of m] split: option.splits)
    then show ?thesis by (simp only:)
  next
    case True
    then obtain qs k r1 where q: "s = CHR 0x22 # qs" "parse_string qs = Some (k, r1)" by blast
    define u where "u = skip_ws (tl (skip_ws r1))"
    have lu: "2 * length u + 1 < n"
      using q that parse_string_shorter [OF q(2)] length_skip_tl [of r1] by (simp add: u_def)
    then have eq: "parse_value (Suc n) u = parse_value n u" by (simp add: pv)
    show ?thesis
    proof (cases "parse_value n u")
      case None
      with eq q show ?thesis 
        by (simp add: parse_members.simps(2) [of "Suc n"] parse_members.simps(2) [of n] u_def)
    next
      case (Some p)
      then obtain v r where p: "p = (v, r)" "length r < length u"
        using parse_shorter [of n u] by (cases p) auto
      show ?thesis
      proof (cases "skip_ws r")
        case Nil
        with Some p eq q show ?thesis 
        by (simp add: parse_members.simps(2) [of "Suc n"] parse_members.simps(2) [of n] u_def)
      next
        case (Cons c cs)
        with p lu have "2 * length cs + 1 < n" using skip_ws_Cons_shorter [OF Cons] by simp
        with Cons Some p eq q pm [of cs] show ?thesis
          by (simp add: parse_members.simps(2) [of "Suc n"] parse_members.simps(2) [of n] u_def)
      qed
    qed
  qed
  ultimately show ?case by blast
qed

lemma json_fuel_enough:
  assumes "json_fuel s \<le> n"
  shows "parse_value n (skip_ws s) = parse_value (json_fuel s) (skip_ws s)"
  using assms
proof (induction n rule: dec_induct)
  case base
  show ?case ..
next
  case (step n)
  have "2 * length (skip_ws s) < n"
    using step.hyps(1) length_skip_ws [of s] unfolding json_fuel_def by linarith
  with step show ?case using parse_enough [of "skip_ws s" n] by simp
qed

end
