(* ===== verification/Seq.thy ===== *)
theory Seq
  imports Prelude
begin

text \<open>
  \<open>db/seq.py\<close>: proper time. \<open>SeqAllocator\<close> hands out the \<open>_seq\<close> of one origin inside a write
  transaction: it reads the durable counter once, counts in a cache, and writes the high-water mark
  back at commit. A batch runs every document under a savepoint: \<open>mark\<close> before, \<open>restore\<close> when it
  fails. \<open>run_chunk\<close> is that loop (\<open>_put_chunk\<close>, \<open>_add_chunk\<close>) over the allocations each document
  makes, and \<open>write_txn\<close> the transaction around it (\<open>LatticeConn.write\<close>).

  The lemmas show that allocation refines a plain counter, that what a committed transaction handed
  out is exactly the interval above the old mark, and when the transaction's own flush raises.
\<close>

section \<open>The allocator\<close>

record alloc =
  cache :: "int option"
  dirty :: bool

type_synonym seq_rows = "string \<Rightarrow> (int \<times> bool) option"

definition alloc_begin :: alloc where
  "alloc_begin = \<lparr> cache = None, dirty = False \<rparr>"

text \<open>\<open>_load\<close>: the durable counter, or the largest \<open>_seq\<close> of the origin's rows (\<open>_recover\<close>).\<close>

definition seq_recover :: "int list \<Rightarrow> int list \<Rightarrow> int" where
  "seq_recover vertex_seqs edge_seqs = fold max edge_seqs (fold max vertex_seqs 0)"

definition seq_load :: "seq_rows \<Rightarrow> string \<Rightarrow> int \<Rightarrow> int" where
  "seq_load sc origin recovered = (case sc origin of Some (n, _) \<Rightarrow> n | None \<Rightarrow> recovered)"

definition allocate :: "int \<Rightarrow> alloc \<Rightarrow> int \<times> alloc" where
  "allocate loaded a =
     (let c = (case cache a of None \<Rightarrow> loaded | Some c \<Rightarrow> c) + 1 in
      (c, a\<lparr> cache := Some c, dirty := True \<rparr>))"

definition mark :: "alloc \<Rightarrow> int option" where
  "mark a = cache a"

definition restore :: "int option \<Rightarrow> alloc \<Rightarrow> alloc" where
  "restore snapshot a = a\<lparr> cache := snapshot \<rparr>"

definition put_high :: "string \<Rightarrow> int \<Rightarrow> bool \<Rightarrow> seq_rows \<Rightarrow> seq_rows" where
  "put_high origin n loc sc =
     sc(origin \<mapsto> (case sc origin of None \<Rightarrow> (n, loc) | Some (m, l) \<Rightarrow> (max m n, l \<or> loc)))"

definition alloc_flush :: "string \<Rightarrow> alloc \<Rightarrow> seq_rows \<Rightarrow> (alloc \<times> seq_rows) result" where
  "alloc_flush origin a sc =
     (if \<not> dirty a then Inr (a, sc)
      else (case cache a of
              None \<Rightarrow> Inl TypeError
            | Some c \<Rightarrow> Inr (a\<lparr> dirty := False \<rparr>, put_high origin c True sc)))"

definition observe_seq :: "string \<Rightarrow> pyval \<Rightarrow> seq_rows \<Rightarrow> seq_rows" where
  "observe_seq origin sq sc = (case sq of PInt n \<Rightarrow> put_high origin n False sc | _ \<Rightarrow> sc)"

definition high_water :: "seq_rows \<Rightarrow> string \<Rightarrow> int" where
  "high_water sc origin = (case sc origin of None \<Rightarrow> 0 | Some (n, _) \<Rightarrow> n)"

section \<open>A batch under savepoints\<close>

text \<open>One document of a batch: how many seqs it allocates, and whether its write then succeeds.\<close>

type_synonym work = "nat \<times> bool"

fun allocate_n :: "int \<Rightarrow> nat \<Rightarrow> alloc \<Rightarrow> int list \<times> alloc" where
  "allocate_n loaded 0 a = ([], a)"
| "allocate_n loaded (Suc n) a =
     (let (c, a') = allocate loaded a; (cs, a'') = allocate_n loaded n a' in (c # cs, a''))"

fun run_chunk :: "int \<Rightarrow> work list \<Rightarrow> alloc \<Rightarrow> int list list \<times> alloc" where
  "run_chunk loaded [] a = ([], a)"
| "run_chunk loaded ((n, ok) # ws) a =
     (let snapshot = mark a;
          (cs, a1) = allocate_n loaded n a;
          a2 = (if ok then a1 else restore snapshot a1);
          (rest, a3) = run_chunk loaded ws a2 in
      (if ok then cs # rest else rest, a3))"

text \<open>The transaction: begin, the batch, flush and commit; an exception rolls back and travels.\<close>

definition write_txn :: "string \<Rightarrow> int \<Rightarrow> work list \<Rightarrow> seq_rows \<Rightarrow> (int list list \<times> seq_rows) result" where
  "write_txn origin recovered ws sc =
     (let (out, a) = run_chunk (seq_load sc origin recovered) ws alloc_begin in
      rbind (alloc_flush origin a sc) (\<lambda>(_, sc'). Inr (out, sc')))"

section \<open>The registry\<close>

text \<open>\<open>allocator_for\<close>: at most one allocator per connection and origin. An allocator is named by the
  number of the object and the origin it was built for; \<open>fresh\<close> is the object a construction makes.\<close>

type_synonym alloc_ref = "nat \<times> string"

definition allocator_for ::
  "(string \<Rightarrow> alloc_ref option) \<Rightarrow> nat \<Rightarrow> string \<Rightarrow> alloc_ref option
     \<Rightarrow> (alloc_ref \<times> (string \<Rightarrow> alloc_ref option)) result" where
  "allocator_for reg fresh origin override =
     (case override of
        Some ov \<Rightarrow>
          if snd ov \<noteq> origin then Inl ValueError
          else (case reg origin of
                  Some ex \<Rightarrow> if ex \<noteq> ov then Inl ValueError else Inr (ov, reg(origin \<mapsto> ov))
                | None \<Rightarrow> Inr (ov, reg(origin \<mapsto> ov)))
      | None \<Rightarrow>
          (case reg origin of
             Some ex \<Rightarrow> Inr (ex, reg)
           | None \<Rightarrow> Inr ((fresh, origin), reg(origin \<mapsto> (fresh, origin)))))"

section \<open>Allocation refines a counter\<close>

text \<open>The value the allocator stands at: its cache, or the durable counter it would load.\<close>

definition alloc_abs :: "int \<Rightarrow> alloc \<Rightarrow> int" where
  "alloc_abs loaded a = (case cache a of None \<Rightarrow> loaded | Some c \<Rightarrow> c)"

lemma allocate_refines:
  "fst (allocate loaded a) = alloc_abs loaded a + 1"
  "alloc_abs loaded (snd (allocate loaded a)) = alloc_abs loaded a + 1"
  by (simp_all add: allocate_def alloc_abs_def Let_def)

lemma restore_mark: "alloc_abs loaded (restore (mark a) b) = alloc_abs loaded a"
  by (simp add: restore_def mark_def alloc_abs_def)

lemma allocate_n_spec:
  "allocate_n loaded n a = (cs, a') \<Longrightarrow>
     cs = map (\<lambda>i. alloc_abs loaded a + 1 + int i) [0..<n] \<and> alloc_abs loaded a' = alloc_abs loaded a + int n
     \<and> (cache a' = None \<longleftrightarrow> cache a = None \<and> n = 0) \<and> dirty a' = (dirty a \<or> 0 < n)"
proof (induction n arbitrary: a cs a')
  case 0
  then show ?case by simp
next
  case (Suc n)
  obtain c b where cb: "allocate loaded a = (c, b)" by fastforce
  obtain ds b' where ds: "allocate_n loaded n b = (ds, b')" by fastforce
  from Suc.prems cb ds have eq: "cs = c # ds" "a' = b'" by simp_all
  have c: "c = alloc_abs loaded a + 1" "alloc_abs loaded b = alloc_abs loaded a + 1"
    using allocate_refines [of loaded a] cb by simp_all
  have b: "cache b \<noteq> None" "dirty b" using cb by (auto simp: allocate_def Let_def)
  have "map (\<lambda>i. alloc_abs loaded a + 1 + int i) [0..<Suc n]
      = (alloc_abs loaded a + 1) # map (\<lambda>i. alloc_abs loaded b + 1 + int i) [0..<n]"
    by (simp add: map_upt_Suc c del: upt_Suc)
  with Suc.IH [OF ds] eq c b show ?case by simp
qed

lemma put_high_mono: "high_water sc o' \<le> high_water (put_high origin n loc sc) o'" if "0 \<le> n"
  using that by (auto simp: high_water_def put_high_def split: option.splits)

definition kept :: "work list \<Rightarrow> nat" where
  "kept ws = sum_list (map (\<lambda>(n, ok). if ok then n else 0) ws)"

lemma kept_simps [simp]: "kept [] = 0" "kept ((n, ok) # ws) = (if ok then n else 0) + kept ws"
  by (simp_all add: kept_def)

lemma kept_pos: "0 < kept ws \<Longrightarrow> \<exists>w\<in>set ws. 0 < fst w"
  by (induction ws) (auto split: if_splits)

lemma alloc_begin_simps [simp]: "cache alloc_begin = None" "\<not> dirty alloc_begin"
  by (simp_all add: alloc_begin_def)

lemma run_chunk_spec:
  "run_chunk loaded ws a = (out, a') \<Longrightarrow>
     concat out = map (\<lambda>i. alloc_abs loaded a + 1 + int i) [0..<kept ws]
     \<and> alloc_abs loaded a' = alloc_abs loaded a + int (kept ws)
     \<and> (cache a' = None \<longleftrightarrow> cache a = None \<and> kept ws = 0)
     \<and> dirty a' = (dirty a \<or> (\<exists>w\<in>set ws. 0 < fst w))"
proof (induction ws arbitrary: a out a')
  case Nil
  then show ?case by simp
next
  case (Cons w ws)
  obtain n ok where w: "w = (n, ok)" by (cases w)
  obtain cs a1 where a1: "allocate_n loaded n a = (cs, a1)" by fastforce
  define a2 where "a2 = (if ok then a1 else restore (mark a) a1)"
  obtain rest a3 where r: "run_chunk loaded ws a2 = (rest, a3)" by fastforce
  from Cons.prems w a1 r have out: "out = (if ok then cs # rest else rest)" "a' = a3"
    by (simp_all add: a2_def)
  note s1 = allocate_n_spec [OF a1] and s2 = Cons.IH [OF r]
  show ?case
  proof (cases ok)
    case True
    have up: "[0..<n + kept ws] = [0..<n] @ map (\<lambda>i. i + n) [0..<kept ws]"
      using upt_add_eq_append [of 0 n "kept ws"] by (simp add: map_add_upt add.commute)
    have "map (\<lambda>i. alloc_abs loaded a + 1 + int i) [0..<n + kept ws]
        = cs @ map (\<lambda>i. alloc_abs loaded a1 + 1 + int i) [0..<kept ws]"
      unfolding up using s1 by (simp add: algebra_simps)
    with True s1 s2 out w show ?thesis by (auto simp: a2_def)
  next
    case False
    have "alloc_abs loaded a2 = alloc_abs loaded a" "cache a2 = cache a" "dirty a2 = dirty a1"
      using False by (simp_all add: a2_def restore_mark) (simp_all add: restore_def mark_def)
    with False s1 s2 out w show ?thesis by auto
  qed
qed

lemma write_txn_cases:
  assumes r: "run_chunk (seq_load sc origin recovered) ws alloc_begin = (out, a)"
  shows "write_txn origin recovered ws sc =
    (if \<not> dirty a then Inr (out, sc)
     else case cache a of None \<Rightarrow> Inl TypeError | Some c \<Rightarrow> Inr (out, put_high origin c True sc))"
  by (simp add: write_txn_def r alloc_flush_def split: option.splits)

section \<open>Correctness\<close>

text \<open>(C27) Proper time is gap-free and injective across a batch: when the transaction commits, the seqs
  held by the documents that were written are, in order, exactly the integers above the old mark, as
  many as those documents allocated, and the mark stands at the last of them (unmoved if there were
  none). A document that failed under its savepoint consumed none. No other origin's mark moves.\<close>

theorem batch_is_gap_free:
  assumes "write_txn origin recovered ws sc = Inr (out, sc')"
  shows "concat out = map (\<lambda>i. seq_load sc origin recovered + 1 + int i) [0..<kept ws]
    \<and> seq_load sc' origin recovered = seq_load sc origin recovered + int (kept ws)
    \<and> (o' = origin \<or> sc' o' = sc o')"
proof -
  let ?base = "seq_load sc origin recovered"
  obtain out' a where r: "run_chunk ?base ws alloc_begin = (out', a)" by fastforce
  have abs: "alloc_abs ?base alloc_begin = ?base" by (simp add: alloc_abs_def)
  note spec = run_chunk_spec [OF r, unfolded abs, simplified]
  note cs = write_txn_cases [OF r, unfolded assms]
  show ?thesis
  proof (cases "cache a")
    case None
    with cs have "\<not> dirty a" "out = out'" "sc' = sc" by (auto split: if_splits)
    with spec None show ?thesis by auto
  next
    case (Some c)
    with spec have c: "c = ?base + int (kept ws)" "kept ws \<noteq> 0" by (auto simp: alloc_abs_def)
    with spec kept_pos [of ws] have "dirty a" by auto
    with cs Some have "out = out'" "sc' = put_high origin c True sc" by auto
    with spec c show ?thesis
      by (auto simp: put_high_def seq_load_def split: option.splits)
  qed
qed

theorem batch_is_gap_free_witness:
  "concat [[8, 9], [10]] = map (\<lambda>i. seq_load [''o'' \<mapsto> (7, True)] ''o'' 0 + 1 + int i) [0..<kept [(2, True), (3, False), (1, True)]]"
proof -
  have "write_txn ''o'' 0 [(2, True), (3, False), (1, True)] [''o'' \<mapsto> (7, True)]
      = Inr ([[8, 9], [10]], put_high ''o'' 10 True [''o'' \<mapsto> (7, True)])"
    by (simp add: write_txn_def seq_load_def allocate_def alloc_begin_def restore_def mark_def
        alloc_flush_def numeral_eq_Suc)
  from batch_is_gap_free [OF this] show ?thesis by blast
qed

text \<open>The one way a batch raises from the allocator: the transaction fails, with \<open>TypeError\<close>, exactly
  when some document allocated a seq and every document that allocated one failed. \<open>restore\<close> puts
  the cache back to \<open>None\<close> but leaves \<open>dirty\<close> set, so \<open>flush\<close> evaluates \<open>int(None)\<close> and the whole
  transaction is rolled back, although the batch contract is that a document that errored is merely
  not counted.\<close>

theorem failed_batch_raises:
  "write_txn origin recovered ws sc = Inl TypeError
     \<longleftrightarrow> list_ex (\<lambda>w. 0 < fst w) ws \<and> list_all (\<lambda>(n, ok). ok \<longrightarrow> n = 0) ws"
proof -
  let ?base = "seq_load sc origin recovered"
  obtain out a where r: "run_chunk ?base ws alloc_begin = (out, a)" by fastforce
  have "kept ws = 0 \<longleftrightarrow> list_all (\<lambda>(n, ok). ok \<longrightarrow> n = 0) ws"
    by (induction ws) auto
  with run_chunk_spec [OF r] show ?thesis
    by (auto simp: write_txn_cases [OF r] list_ex_iff split: option.splits)
qed

theorem failed_batch_raises_witness:
  "write_txn ''o'' 0 [(1, False)] (\<lambda>_. None) = Inl TypeError"
  by (simp add: failed_batch_raises)

end
