(* ===== verification/Store_State.thy ===== *)
theory Store_State
  imports Json_Text Seq
begin

text \<open>
  The lattice store's tables and its reads: \<open>db/constants.py\<close> (states, hashes, version order), the
  read half of \<open>db/vertex.py\<close> and \<open>db/edge.py\<close>, and the counter and digest primitives of \<open>db/seq.py\<close>.

  A table is an association list keyed by its primary key. The \<open>doc\<close> and \<open>props\<close> columns hold the
  decoded document; \<open>ORDER BY\<close> is a stable sort by the column, text comparing by code point as the
  BINARY collation does. \<open>blake2b\<close> is the record \<open>hashlib\<close>, a parameter. A read that the database
  refuses (a corrupt row, a lost disk) is named by the two fault predicates, so that the
  \<open>except Exception\<close> branches of the readers are branches of the model.
\<close>

section \<open>Hashing\<close>

record hashlib =
  blake8 :: "string \<Rightarrow> 64 word"
  blake16 :: "string \<Rightarrow> string"

definition utf8_char :: "char \<Rightarrow> string" where
  "utf8_char c = (let n = of_char c :: nat in
     if n < 128 then [c] else [char_of (192 + n div 64), char_of (128 + n mod 64)])"

definition utf8 :: "string \<Rightarrow> string" where
  "utf8 s = concat (map utf8_char s)"

definition NUL :: char where "NUL = CHR 0x00"

definition hex_text :: "string \<Rightarrow> string" where
  "hex_text bs = concat (map (\<lambda>c. let n = of_char c :: nat in [hex_char (n div 16), hex_char (n mod 16)]) bs)"

definition word_bytes :: "64 word \<Rightarrow> string" where
  "word_bytes w = map (\<lambda>i. char_of (unat (drop_bit (56 - 8 * i) w) mod 256)) [0..<8]"

definition DEFAULT_LEAVES :: nat where "DEFAULT_LEAVES = 4096"

definition leaf_of :: "hashlib \<Rightarrow> string \<Rightarrow> nat \<Rightarrow> nat" where
  "leaf_of H artifact_id leaves = unat (blake8 H (utf8 artifact_id)) mod leaves"

definition row_hash :: "hashlib \<Rightarrow> string \<Rightarrow> int \<Rightarrow> 64 word" where
  "row_hash H artifact_id sq = blake8 H (utf8 artifact_id @ [NUL] @ int_text sq)"

definition edge_key :: "hashlib \<Rightarrow> string \<Rightarrow> string \<Rightarrow> string \<Rightarrow> string" where
  "edge_key H src dst label = blake16 H (utf8 src @ [NUL] @ utf8 dst @ [NUL] @ utf8 label)"

definition edge_hash :: "hashlib \<Rightarrow> string \<Rightarrow> doc \<Rightarrow> 64 word" where
  "edge_hash H key content =
     (let clean = filter (\<lambda>(k, v). v \<noteq> PNone \<and> k \<notin> {''_origin'', ''_seq'', ''src'', ''dst'', ''label''}) content;
          canon = dump_value '','' '':'' True (PDict clean) in
      blake8 H (key @ [NUL] @ utf8 canon))"

section \<open>Lineage state\<close>

abbreviation STATE_LIVE :: string where "STATE_LIVE \<equiv> ''live''"
abbreviation STATE_ARCHIVED :: string where "STATE_ARCHIVED \<equiv> ''archived''"

definition LEGACY_LIVE_STATES :: "string list" where
  "LEGACY_LIVE_STATES = [''committed'', ''draft'']"

definition state_of :: "doc \<Rightarrow> string" where
  "state_of d =
     (let v = dget d ''state''; s = (if truthy v then as_text v else STATE_LIVE) in
      if s \<in> set LEGACY_LIVE_STATES then STATE_LIVE else s)"

definition live_states :: "string option \<Rightarrow> string list option" where
  "live_states st =
     (case st of
        None \<Rightarrow> None
      | Some s \<Rightarrow> if s \<in> {STATE_LIVE, ''committed''} then Some (STATE_LIVE # LEGACY_LIVE_STATES) else Some [s])"

section \<open>Version order\<close>

datatype version_order = NEWER | OLDER | SAME | UNORDERED

text \<open>\<open>compare_version\<close> on rows that carry an integer \<open>_seq\<close>, and on unversioned ones.\<close>

definition compare_version :: "pyval \<Rightarrow> pyval \<Rightarrow> pyval \<Rightarrow> pyval \<Rightarrow> version_order" where
  "compare_version a_origin a_seq b_origin b_seq =
     (case (a_seq, b_seq) of
        (PInt m, PInt n) \<Rightarrow>
          if a_origin \<noteq> b_origin then UNORDERED
          else if n < m then NEWER
          else if m < n then OLDER
          else SAME
      | _ \<Rightarrow> if a_origin = b_origin \<and> a_seq = b_seq then SAME else UNORDERED)"

section \<open>The tables\<close>

record vrow =
  v_ct :: "string option"
  v_offer :: "string option"
  v_content_ref :: "string option"
  v_created_by :: "string option"
  v_created_time :: "string option"
  v_origin_root :: "string option"
  v_root_id :: string
  v_origin :: string
  v_seq :: int
  v_leaf :: nat
  v_doc :: doc

record erow =
  e_src :: string
  e_dst :: string
  e_label :: string
  e_force :: pyval
  e_propagate :: pyval
  e_is_origin :: pyval
  e_order_key :: pyval
  e_origin :: string
  e_seq :: int
  e_leaf :: nat
  e_props :: doc

record task_row =
  t_ct :: string
  t_status :: string
  t_priority :: int
  t_operator :: pyval
  t_task_key :: pyval
  t_claimed_by :: pyval
  t_claimed_at :: pyval
  t_next_retry_at :: pyval
  t_completed_at :: pyval

record lattice =
  st_origin :: string
  st_leaves :: nat
  vertices :: "(string \<times> vrow) list"
  edges :: "(string \<times> erow) list"
  seq_counter :: seq_rows
  counter :: "string \<Rightarrow> int"
  leaf_digest :: "nat \<Rightarrow> 64 word"
  tasks :: "(string \<times> task_row) list"
  listkey :: "(string \<times> string \<times> string \<times> string option) list"
  demand :: "(string \<times> pyval \<times> pyval) list"
  unplaced :: nat
  edge_fault :: "string \<Rightarrow> bool"
  doc_fault :: "string \<Rightarrow> bool"

definition empty_lattice :: "string \<Rightarrow> nat \<Rightarrow> lattice" where
  "empty_lattice origin leaves = \<lparr> st_origin = origin, st_leaves = leaves, vertices = [], edges = [],
     seq_counter = (\<lambda>_. None), counter = (\<lambda>_. 0), leaf_digest = (\<lambda>_. 0), tasks = [], listkey = [],
     demand = [], unplaced = 0, edge_fault = (\<lambda>_. False), doc_fault = (\<lambda>_. False) \<rparr>"

section \<open>Counters and digests\<close>

definition c_vertex_total :: string where "c_vertex_total = ''vertex''"
definition c_edge_total :: string where "c_edge_total = ''edge''"
definition c_edge_label :: "string \<Rightarrow> string" where "c_edge_label label = ''edge:label:'' @ label"
definition c_ct :: "string \<Rightarrow> string" where "c_ct ct = ''ct:'' @ ct"
definition c_collection :: "string \<Rightarrow> bool \<Rightarrow> string" where
  "c_collection cid committed_only = ''col:'' @ cid @ (if committed_only then '':committed'' else [])"
definition c_task_status :: "string \<Rightarrow> string \<Rightarrow> string" where
  "c_task_status ct status = ''task:'' @ ct @ '':'' @ status"
definition c_rows :: "string \<Rightarrow> string" where "c_rows origin = ''rows:'' @ origin"
definition c_vacated :: "string \<Rightarrow> string" where "c_vacated origin = ''vacated:'' @ origin"
definition c_missing :: "string \<Rightarrow> bool \<Rightarrow> string" where
  "c_missing field committed_only = ''missing:'' @ field @ (if committed_only then '':committed'' else [])"
definition c_state :: "string \<Rightarrow> string" where "c_state s = ''state:'' @ s"

definition bump :: "string \<Rightarrow> int \<Rightarrow> lattice \<Rightarrow> lattice" where
  "bump name delta st =
     (if delta = 0 then st else st\<lparr> counter := (counter st)(name := counter st name + delta) \<rparr>)"

definition vacate :: "string \<Rightarrow> lattice \<Rightarrow> lattice" where
  "vacate origin st = (if origin = [] then st else bump (c_vacated origin) 1 (bump (c_rows origin) (- 1) st))"

definition counter_of :: "lattice \<Rightarrow> string \<Rightarrow> int" where
  "counter_of st name = counter st name"

unbundle bit_operations_syntax

definition xor_leaf :: "nat \<Rightarrow> 64 word \<Rightarrow> lattice \<Rightarrow> lattice" where
  "xor_leaf leaf v st =
     (if v = 0 then st else st\<lparr> leaf_digest := (leaf_digest st)(leaf := leaf_digest st leaf XOR v) \<rparr>)"

text \<open>\<open>seq_accounting\<close>, in the counter mode and in the scan mode.\<close>

record accounting =
  ac_last_seq :: int
  ac_live_rows :: int
  ac_vacated :: int
  ac_unaccounted :: int
  ac_balanced :: bool
  ac_insert_only :: bool
  ac_local_only :: bool

definition origin_seqs :: "lattice \<Rightarrow> string \<Rightarrow> int list" where
  "origin_seqs st origin =
     map (v_seq \<circ> snd) (filter (\<lambda>(_, r). v_origin r = origin) (vertices st))
     @ map (e_seq \<circ> snd) (filter (\<lambda>(_, r). e_origin r = origin) (edges st))"

definition is_local_origin :: "lattice \<Rightarrow> string \<Rightarrow> bool" where
  "is_local_origin st origin = (case seq_counter st origin of None \<Rightarrow> False | Some (_, l) \<Rightarrow> l)"

definition seq_accounting :: "lattice \<Rightarrow> string \<Rightarrow> bool \<Rightarrow> accounting" where
  "seq_accounting st origin scan =
     (let hw = high_water (seq_counter st) origin;
          vac = counter_of st (c_vacated origin);
          live = (if scan then int (card (set (origin_seqs st origin))) else counter_of st (c_rows origin));
          unacc = hw - (live + vac);
          loc = is_local_origin st origin in
      \<lparr> ac_last_seq = hw, ac_live_rows = live, ac_vacated = vac, ac_unaccounted = unacc,
        ac_balanced = (if loc then unacc = 0 else 0 \<le> unacc), ac_insert_only = (vac = 0),
        ac_local_only = loc \<rparr>)"

definition max_observed :: "lattice \<Rightarrow> string \<Rightarrow> int" where
  "max_observed st origin = fold max (origin_seqs st origin) 0"

datatype tail_verdict = Intact | TailIntact | LossDetected int | Undecidable

definition check_tail :: "lattice \<Rightarrow> string \<Rightarrow> bool \<Rightarrow> tail_verdict" where
  "check_tail st origin scan =
     (let acc = seq_accounting st origin scan; obs = max_observed st origin in
      if \<not> ac_local_only acc then Undecidable
      else if scan then
        (let lost = max 0 (ac_unaccounted acc) in if lost \<noteq> 0 then LossDetected lost else Intact)
      else if ac_vacated acc = 0 then
        (let lost = max 0 (ac_last_seq acc - obs) in if lost \<noteq> 0 then LossDetected lost else TailIntact)
      else Undecidable)"

section \<open>Vertex reads\<close>

definition doc_of :: "lattice \<Rightarrow> string \<Rightarrow> doc option" where
  "doc_of st aid = map_option v_doc (map_of (vertices st) aid)"

definition get_artifact :: "lattice \<Rightarrow> string \<Rightarrow> doc option result" where
  "get_artifact st aid = (if doc_fault st aid then Inl StoreFault else Inr (doc_of st aid))"

text \<open>\<open>SELECT ... WHERE p ORDER BY id\<close> and \<open>... ORDER BY _origin, _seq\<close>.\<close>

definition rows_by_id :: "lattice \<Rightarrow> (vrow \<Rightarrow> bool) \<Rightarrow> (string \<times> vrow) list" where
  "rows_by_id st p = sort_key fst (filter (\<lambda>(_, r). p r) (vertices st))"

definition rows_by_version :: "lattice \<Rightarrow> (vrow \<Rightarrow> bool) \<Rightarrow> vrow list" where
  "rows_by_version st p =
     sort_key v_origin (sort_key v_seq (filter p (map snd (vertices st))))"

definition IN_CHUNK :: nat where "IN_CHUNK = 900"

function chunks :: "nat \<Rightarrow> 'a list \<Rightarrow> 'a list list" where
  "chunks n xs = (if xs = [] then [] else take (Suc n) xs # chunks n (drop (Suc n) xs))"
  by auto
termination
  by (relation "measure (\<lambda>(n, xs). length xs)") auto

declare chunks.simps [simp del]

text \<open>\<open>list(dict.fromkeys(str(a) for a in ids if a))\<close>.\<close>

definition clean_ids :: "string list \<Rightarrow> string list" where
  "clean_ids ids = dedup (filter (\<lambda>a. a \<noteq> []) ids)"

definition get_many :: "lattice \<Rightarrow> string list \<Rightarrow> (string \<times> doc) list" where
  "get_many st artifact_ids =
     (let ids = clean_ids artifact_ids;
          found = fold (\<lambda>chunk acc.
                    fold (\<lambda>(i, r) acc. if i \<in> set chunk then AList.update i (v_doc r) acc else acc) (vertices st) acc)
                  (chunks (IN_CHUNK - 1) ids) [] in
      List.map_filter (\<lambda>aid. map_option (Pair aid) (map_of found aid)) ids)"

definition versions_of :: "lattice \<Rightarrow> string \<Rightarrow> doc list" where
  "versions_of st root_id = map v_doc (rows_by_version st (\<lambda>r. v_root_id r = root_id))"

text \<open>\<open>by_root.setdefault(root, []).append(doc)\<close> over the rows of every chunk.\<close>

definition group_row :: "vrow \<Rightarrow> (string \<Rightarrow> doc list) \<Rightarrow> (string \<Rightarrow> doc list)" where
  "group_row r acc = acc(v_root_id r := acc (v_root_id r) @ [v_doc r])"

definition versions_of_many :: "lattice \<Rightarrow> string list \<Rightarrow> (string \<times> doc list) list" where
  "versions_of_many st root_ids =
     (let roots = clean_ids root_ids;
          by_root = fold (\<lambda>chunk acc. fold group_row (rows_by_version st (\<lambda>r. v_root_id r \<in> set chunk)) acc)
                      (chunks (IN_CHUNK - 1) roots) (\<lambda>_. []) in
      filter (\<lambda>(_, ds). ds \<noteq> []) (map (\<lambda>rid. (rid, by_root rid)) roots))"

definition head_of :: "lattice \<Rightarrow> string \<Rightarrow> doc option" where
  "head_of st root_id =
     (let live = filter (\<lambda>d. state_of d \<noteq> STATE_ARCHIVED) (versions_of st root_id) in
      if live = [] then None else Some (last live))"

definition version_of :: "lattice \<Rightarrow> string \<Rightarrow> (string \<times> int) option" where
  "version_of st aid = map_option (\<lambda>r. (v_origin r, v_seq r)) (map_of (vertices st) aid)"

definition sql_limit :: "int option \<Rightarrow> 'a list \<Rightarrow> 'a list" where
  "sql_limit limit xs = (case limit of Some n \<Rightarrow> if 0 \<le> n then take (nat n) xs else xs | None \<Rightarrow> xs)"

definition list_artifacts ::
  "lattice \<Rightarrow> string option \<Rightarrow> string option \<Rightarrow> string option \<Rightarrow> string option \<Rightarrow> int option \<Rightarrow> int \<Rightarrow> bool
     \<Rightarrow> doc list result" where
  "list_artifacts st lstate content_type collection_id created_by limit skip include_archived =
     (if skip \<noteq> 0 then Inl ValueError
      else
        (let p = (\<lambda>r.
               (case content_type of None \<Rightarrow> True | Some c \<Rightarrow> v_ct r = Some c)
             \<and> (case created_by of None \<Rightarrow> True | Some c \<Rightarrow> v_created_by r = Some c)
             \<and> (case collection_id of None \<Rightarrow> True | Some c \<Rightarrow> dget (v_doc r) ''collection_id'' = PStr c)
             \<and> (case live_states lstate of
                  None \<Rightarrow> True
                | Some ss \<Rightarrow> dget (v_doc r) ''state'' \<in> PStr ` set ss)
             \<and> (lstate \<noteq> None \<or> include_archived \<or> dget (v_doc r) ''state'' \<noteq> PStr STATE_ARCHIVED)) in
         Inr (sql_limit limit (map (v_doc \<circ> snd) (rows_by_id st p)))))"

definition is_alnum :: "char \<Rightarrow> bool" where
  "is_alnum c = (let n = of_char c :: nat in
     48 \<le> n \<and> n \<le> 57 \<or> 65 \<le> n \<and> n \<le> 90 \<or> 97 \<le> n \<and> n \<le> 122)"

text \<open>\<open>field\<close> is an ASCII identifier in every call; the value is text.\<close>

definition list_by_doc_field :: "lattice \<Rightarrow> string \<Rightarrow> string \<Rightarrow> string \<Rightarrow> int \<Rightarrow> doc list result" where
  "list_by_doc_field st content_type field v limit =
     (let bare = filter (\<lambda>c. c \<noteq> CHR ''_'') field in
      if bare = [] \<or> \<not> list_all is_alnum bare then Inl ValueError
      else Inr (sql_limit (Some limit) (map (v_doc \<circ> snd)
             (rows_by_id st (\<lambda>r. v_ct r = Some content_type \<and> dget (v_doc r) field = PStr v)))))"

definition count_recorded :: "lattice \<Rightarrow> string \<Rightarrow> int" where
  "count_recorded st s = counter_of st (c_state s)"

definition count_vertices :: "lattice \<Rightarrow> string option \<Rightarrow> int" where
  "count_vertices st s =
     (case s of
        None \<Rightarrow> counter_of st c_vertex_total
      | Some s \<Rightarrow>
          if s = [] then counter_of st c_vertex_total
          else (case live_states (Some s) of None \<Rightarrow> 0 | Some ss \<Rightarrow> sum_list (map (count_recorded st) ss)))"

section \<open>Edge reads\<close>

datatype direction = Out | In

definition EDGES_OF_LIMIT :: int where "EDGES_OF_LIMIT = 1000000"

definition edge_match :: "string \<Rightarrow> string option \<Rightarrow> direction \<Rightarrow> erow \<Rightarrow> bool" where
  "edge_match node label dir r =
     ((case dir of Out \<Rightarrow> e_src r | In \<Rightarrow> e_dst r) = node
      \<and> (case label of None \<Rightarrow> True | Some l \<Rightarrow> l = [] \<or> e_label r = l))"

definition edges_of_full :: "lattice \<Rightarrow> string \<Rightarrow> string option \<Rightarrow> direction \<Rightarrow> int \<Rightarrow> bool \<Rightarrow> erow list result" where
  "edges_of_full st node label dir limit partial_ok =
     (if edge_fault st node then Inl StoreFault
      else
        (let capped = nat (max 0 limit);
             rows = take (capped + 1)
                      (map snd (sort_key fst (filter (\<lambda>(_, r). edge_match node label dir r) (edges st)))) in
         if capped < length rows
         then if partial_ok then Inr (take capped rows) else Inl EdgesTruncated
         else Inr rows))"

definition edges_of :: "lattice \<Rightarrow> string \<Rightarrow> string option \<Rightarrow> direction \<Rightarrow> erow list result" where
  "edges_of st node label dir = edges_of_full st node label dir EDGES_OF_LIMIT False"

definition edge_mark :: "lattice \<Rightarrow> string \<Rightarrow> direction \<Rightarrow> int \<Rightarrow> int \<times> int \<times> bool" where
  "edge_mark st node dir cap =
     (let capped = nat (max 0 cap);
          rows = take (capped + 1) (filter (edge_match node None dir) (map snd (edges st))) in
      (int (min (length rows) capped), fold max (map e_seq rows) 0, length rows \<le> capped))"

text \<open>\<open>_eprop\<close>: the promoted column first, then the props blob.\<close>

definition e_col :: "erow \<Rightarrow> string \<Rightarrow> pyval" where
  "e_col e key =
     (if key = ''propagate'' then e_propagate e
      else if key = ''is_origin'' then e_is_origin e
      else if key = ''order_key'' then e_order_key e
      else if key = ''force'' then e_force e
      else if key = ''src'' then PStr (e_src e)
      else if key = ''dst'' then PStr (e_dst e)
      else if key = ''label'' then PStr (e_label e)
      else PNone)"

definition eprop :: "erow \<Rightarrow> string \<Rightarrow> pyval" where
  "eprop e key = (if e_col e key = PNone then dget (e_props e) key else e_col e key)"

definition prop_mask :: "erow \<Rightarrow> pyval" where
  "prop_mask e =
     (case eprop e ''propagate'' of
        PStr v \<Rightarrow>
          if starts_with ''['' v then (case json_loads v of None \<Rightarrow> PStr v | Some d \<Rightarrow> d) else PStr v
      | v \<Rightarrow> v)"

section \<open>Lemmas on the reads\<close>

lemma concat_chunks [simp]: "concat (chunks n xs) = xs"
proof (induction n xs rule: chunks.induct)
  case (1 n xs)
  then show ?case by (subst chunks.simps) (auto simp del: take_Suc_Cons)
qed

lemma set_clean_ids [simp]: "set (clean_ids ids) = {a \<in> set ids. a \<noteq> []}"
  by (auto simp: clean_ids_def)

lemma distinct_clean_ids [simp]: "distinct (clean_ids ids)"
  by (simp add: clean_ids_def)

lemma filter_rows_by_version:
  "filter q (rows_by_version st p) = rows_by_version st (\<lambda>r. p r \<and> q r)"
  by (simp add: rows_by_version_def filter_sort conj_commute)

lemma fold_group:
  "fold group_row rows acc rid = acc rid @ map v_doc (filter (\<lambda>r. v_root_id r = rid) rows)"
  by (induction rows arbitrary: acc) (simp_all add: group_row_def)

lemma fold_group_chunk:
  "fold group_row (rows_by_version st (\<lambda>r. v_root_id r \<in> set chunk)) acc rid
     = acc rid @ (if rid \<in> set chunk then versions_of st rid else [])"
proof -
  have p: "(\<lambda>r. v_root_id r \<in> set chunk \<and> v_root_id r = rid)
      = (if rid \<in> set chunk then (\<lambda>r. v_root_id r = rid) else (\<lambda>_. False))" by auto
  show ?thesis
    unfolding fold_group filter_rows_by_version versions_of_def p by (simp add: rows_by_version_def)
qed

lemma fold_group_chunks:
  "distinct (concat cs) \<Longrightarrow>
   fold (\<lambda>chunk acc. fold group_row (rows_by_version st (\<lambda>r. v_root_id r \<in> set chunk)) acc) cs acc rid
     = acc rid @ (if rid \<in> set (concat cs) then versions_of st rid else [])"
proof (induction cs arbitrary: acc)
  case (Cons c cs)
  then have "rid \<in> set c \<Longrightarrow> rid \<notin> set (concat cs)" by auto
  with Cons show ?case by (auto simp: fold_group_chunk)
qed simp

lemma versions_of_many_eq:
  "versions_of_many st root_ids =
     filter (\<lambda>(_, ds). ds \<noteq> []) (map (\<lambda>rid. (rid, versions_of st rid)) (clean_ids root_ids))"
  unfolding versions_of_many_def Let_def
  by (intro arg_cong [where f = "filter _"] map_cong) (auto simp: fold_group_chunks)

definition vertices_keyed :: "lattice \<Rightarrow> bool" where
  "vertices_keyed st = distinct (map fst (vertices st))"

lemma fold_found:
  "distinct (map fst rows) \<Longrightarrow>
   map_of (fold (\<lambda>(i, r) acc. if i \<in> C then AList.update i (v_doc r) acc else acc) rows acc) aid
     = (case map_of rows aid of Some r \<Rightarrow> if aid \<in> C then Some (v_doc r) else map_of acc aid | None \<Rightarrow> map_of acc aid)"
proof (induction rows arbitrary: acc)
  case (Cons p rows)
  obtain i r where p: "p = (i, r)" by (cases p)
  with Cons.prems have "map_of rows i = None" by (simp add: map_of_eq_None_iff)
  with Cons p show ?case by (auto split: option.splits)
qed simp

lemma fold_found_chunks:
  assumes "vertices_keyed st"
  shows "map_of (fold (\<lambda>chunk acc.
      fold (\<lambda>(i, r) acc. if i \<in> set chunk then AList.update i (v_doc r) acc else acc) (vertices st) acc) cs acc) aid
    = (if aid \<in> set (concat cs) then (case doc_of st aid of None \<Rightarrow> map_of acc aid | Some d \<Rightarrow> Some d)
       else map_of acc aid)"
  using assms
  by (induction cs arbitrary: acc)
    (auto simp: vertices_keyed_def fold_found doc_of_def split: option.splits)

lemma map_filter_cong: "(\<And>x. x \<in> set xs \<Longrightarrow> f x = g x) \<Longrightarrow> List.map_filter f xs = List.map_filter g xs"
  by (induction xs) (auto simp: List.map_filter_simps split: option.splits)

lemma get_many_eq:
  "vertices_keyed st \<Longrightarrow>
   get_many st ids = List.map_filter (\<lambda>aid. map_option (Pair aid) (doc_of st aid)) (clean_ids ids)"
  unfolding get_many_def Let_def
  by (rule map_filter_cong) (auto simp: fold_found_chunks split: option.splits)

definition matching_edges :: "lattice \<Rightarrow> string \<Rightarrow> string option \<Rightarrow> direction \<Rightarrow> erow list" where
  "matching_edges st node label dir =
     map snd (sort_key fst (filter (\<lambda>(_, r). edge_match node label dir r) (edges st)))"

lemma set_matching_edges:
  "set (matching_edges st node label dir) = {r \<in> snd ` set (edges st). edge_match node label dir r}"
  by (force simp: matching_edges_def)

lemma edges_of_cases:
  "edges_of st node label dir =
     (if edge_fault st node then Inl StoreFault
      else if 1000000 < length (matching_edges st node label dir) then Inl EdgesTruncated
      else Inr (matching_edges st node label dir))"
  unfolding edges_of_def edges_of_full_def matching_edges_def [symmetric] Let_def EDGES_OF_LIMIT_def
  by simp

lemma edges_of_InrD:
  "edges_of st node label dir = Inr es \<Longrightarrow>
   es = matching_edges st node label dir \<and> \<not> edge_fault st node"
  by (auto simp: edges_of_cases split: if_splits)

lemma sql_limit_exact: "int (length (sql_limit (Some n) xs)) < n \<Longrightarrow> sql_limit (Some n) xs = xs"
  by (auto simp: sql_limit_def split: if_splits)

section \<open>Correctness of the reads\<close>

text \<open>An edge read is complete or it raises: whenever \<open>edges_of\<close> answers, the answer holds exactly the
  edges on that side of the node with that label, ordered by edge key; it raises \<open>EdgesTruncated\<close>
  exactly when there are more than its cap, and never returns a clipped list.\<close>

theorem edges_of_complete_or_raises:
  "case edges_of st node label dir of
     Inr es \<Rightarrow> set es = {r \<in> snd ` set (edges st). edge_match node label dir r}
        \<and> length es = length (filter (edge_match node label dir) (map snd (edges st)))
   | Inl e \<Rightarrow> (e = EdgesTruncated \<and> 1000000 < length (filter (edge_match node label dir) (map snd (edges st))))
        \<or> (e = StoreFault \<and> edge_fault st node)"
proof -
  have "length (matching_edges st node label dir) = length (filter (edge_match node label dir) (map snd (edges st)))"
    by (simp add: matching_edges_def filter_map comp_def case_prod_beta')
  then show ?thesis by (simp add: edges_of_cases set_matching_edges)
qed

text \<open>The plural reads are the singular reads: the chunked \<open>versions_of_many\<close> maps every distinct
  non-empty root to exactly what \<open>versions_of\<close> returns for it, in the caller's order, with the roots
  that have no version absent; and the chunked \<open>get_many\<close> does the same for documents.\<close>

theorem plural_reads_agree:
  assumes "vertices_keyed st"
  shows "versions_of_many st ids =
      filter (\<lambda>(_, ds). ds \<noteq> []) (map (\<lambda>rid. (rid, versions_of st rid)) (clean_ids ids))
    \<and> get_many st ids = List.map_filter (\<lambda>aid. map_option (Pair aid) (doc_of st aid)) (clean_ids ids)"
  using versions_of_many_eq get_many_eq [OF assms] by blast

definition sample_row :: "string \<Rightarrow> int \<Rightarrow> vrow" where
  "sample_row root n = \<lparr> v_ct = None, v_offer = None, v_content_ref = None, v_created_by = None,
     v_created_time = None, v_origin_root = None, v_root_id = root, v_origin = ''o'', v_seq = n, v_leaf = 0,
     v_doc = [(''n'', PInt n)] \<rparr>"

theorem plural_reads_agree_witness:
  "get_many (empty_lattice ''o'' 1\<lparr> vertices := [(''a'', sample_row ''r'' 2), (''b'', sample_row ''r'' 1)] \<rparr>)
     [''b'', ''x'', ''b''] = [(''b'', [(''n'', PInt 1)])]"
proof -
  let ?st = "empty_lattice ''o'' 1\<lparr> vertices := [(''a'', sample_row ''r'' 2), (''b'', sample_row ''r'' 1)] \<rparr>"
  have "vertices_keyed ?st" by (simp add: vertices_keyed_def)
  from plural_reads_agree [OF this, of "[''b'', ''x'', ''b'']"] show ?thesis
    by (simp add: clean_ids_def dedup_def List.map_filter_simps doc_of_def sample_row_def)
qed

end
