(* ===== verification/Store_Write.thy ===== *)
theory Store_Write
  imports Store_State
begin

text \<open>
  The single write path of the lattice store: \<open>db/edge.py\<close> (\<open>_add_one\<close>, \<open>add_edges\<close>,
  \<open>delete_edge\<close>, the retirement of edges) and \<open>db/vertex.py\<close> (\<open>_write_row\<close> and everything it
  maintains in the same transaction, \<open>put_artifact\<close>, \<open>put_many\<close>, \<open>delete_artifact\<close>). Every operation
  is a function of the whole state; a raised exception is an \<open>Inl\<close> and leaves the caller with the
  state it had, as the transaction or the savepoint rolls back.

  Allocation steps the durable counter directly; \<open>Seq\<close> shows that the in-transaction cache refines
  that. The flag beside an error says whether a seq had been allocated when it was raised, which
  decides how the enclosing batch ends (\<open>Seq.failed_batch_raises\<close>).
\<close>

section \<open>Binding values\<close>

text \<open>A value bound to a TEXT column: scalars are stored in their text form, a container is refused by
  the driver.\<close>

fun bind_text :: "pyval \<Rightarrow> pyval result" where
  "bind_text PNone = Inr PNone"
| "bind_text (PStr s) = Inr (PStr s)"
| "bind_text (PInt n) = Inr (PStr (int_text n))"
| "bind_text (PBool b) = Inr (PStr (if b then ''1'' else ''0''))"
| "bind_text (PFloat s) = Inr (PStr s)"
| "bind_text _ = Inl StoreFault"

definition bind_col :: "pyval \<Rightarrow> string option result" where
  "bind_col v = rbind (bind_text v) (\<lambda>t. Inr (as_opt_text t))"

definition py_or :: "pyval \<Rightarrow> pyval \<Rightarrow> pyval" where
  "py_or a b = (if truthy a then a else b)"

text \<open>\<open>int(v)\<close> for the priority of a task: a decimal text, an integer, a boolean, or the integer part of
  a plain decimal fraction.\<close>

definition signed_digits :: "string \<Rightarrow> int option" where
  "signed_digits s =
     (let (neg, ds) = (case s of
                         c # cs \<Rightarrow> if c = CHR ''-'' then (True, cs) else if c = CHR ''+'' then (False, cs) else (False, s)
                       | [] \<Rightarrow> (False, [])) in
      if ds = [] \<or> \<not> list_all is_digit ds then None
      else Some (if neg then - int (digits_value 0 ds) else int (digits_value 0 ds)))"

fun py_int :: "pyval \<Rightarrow> int result" where
  "py_int (PInt n) = Inr n"
| "py_int (PBool b) = Inr (if b then 1 else 0)"
| "py_int (PStr s) = (case signed_digits (py_strip s) of None \<Rightarrow> Inl ValueError | Some n \<Rightarrow> Inr n)"
| "py_int (PFloat s) =
     (case signed_digits (takeWhile (\<lambda>c. c \<noteq> CHR ''.'') s) of None \<Rightarrow> Inl ValueError | Some n \<Rightarrow> Inr n)"
| "py_int _ = Inl TypeError"

section \<open>Proper time\<close>

definition st_allocate :: "lattice \<Rightarrow> int \<times> lattice" where
  "st_allocate st =
     (let n = seq_load (seq_counter st) (st_origin st) (max_observed st (st_origin st)) + 1 in
      (n, st\<lparr> seq_counter := put_high (st_origin st) n True (seq_counter st) \<rparr>))"

definition st_observe :: "string \<Rightarrow> int \<Rightarrow> lattice \<Rightarrow> lattice" where
  "st_observe origin n st = st\<lparr> seq_counter := observe_seq origin (PInt n) (seq_counter st) \<rparr>"

section \<open>Edges\<close>

definition PROMOTED :: "string list" where
  "PROMOTED = [''force'', ''propagate'', ''is_origin'', ''order_key'']"

definition edge_blob :: "doc \<Rightarrow> doc" where
  "edge_blob props = filter (\<lambda>(k, _). k \<notin> set PROMOTED \<and> \<not> starts_with ''_'' k) props"

definition norm_is_origin :: "pyval \<Rightarrow> pyval" where
  "norm_is_origin v = (if v = PNone then PNone else PInt (if truthy v then 1 else 0))"

definition edge_content :: "pyval \<Rightarrow> pyval \<Rightarrow> pyval \<Rightarrow> pyval \<Rightarrow> doc \<Rightarrow> doc" where
  "edge_content force propagate is_origin order_key blob =
     [(''force'', force), (''propagate'', propagate), (''is_origin'', is_origin), (''order_key'', order_key)] @ blob"

definition edge_row_content :: "erow \<Rightarrow> doc" where
  "edge_row_content r = edge_content (e_force r) (e_propagate r) (e_is_origin r) (e_order_key r) (e_props r)"

type_synonym edge_in = "string \<times> string \<times> string \<times> doc"

text \<open>The row write of \<open>_add_one\<close>, after the version is decided: the upsert, the digest, the counters.\<close>

definition write_edge ::
  "hashlib \<Rightarrow> string \<Rightarrow> string \<Rightarrow> string \<Rightarrow> doc \<Rightarrow> string \<Rightarrow> int \<Rightarrow> lattice \<Rightarrow> lattice result" where
  "write_edge H src dst label props origin sq st =
     (let key = edge_key H src dst label;
          leaf = leaf_of H (hex_text key) (st_leaves st);
          old = map_of (edges st) key;
          blob = edge_blob props;
          norm_io = norm_is_origin (dget props ''is_origin'');
          st = (case old of None \<Rightarrow> st | Some r \<Rightarrow> xor_leaf leaf (edge_hash H key (edge_row_content r)) st);
          st = xor_leaf leaf (edge_hash H key (edge_content (dget props ''force'') (dget props ''propagate'')
                 norm_io (dget props ''order_key'') blob)) st;
          st = (case old of
                  None \<Rightarrow> bump (c_edge_label label) 1 (bump c_edge_total 1 st)
                | Some r \<Rightarrow> vacate (e_origin r) st);
          st = bump (c_rows origin) 1 st in
      rbind (bind_text (dget props ''force'')) (\<lambda>force.
      rbind (bind_text (dget props ''propagate'')) (\<lambda>propagate.
      rbind (bind_text (dget props ''order_key'')) (\<lambda>order_key.
        Inr (st\<lparr> edges := AList.update key
               \<lparr> e_src = (case old of None \<Rightarrow> src | Some r \<Rightarrow> e_src r),
                 e_dst = (case old of None \<Rightarrow> dst | Some r \<Rightarrow> e_dst r),
                 e_label = (case old of None \<Rightarrow> label | Some r \<Rightarrow> e_label r),
                 e_force = force, e_propagate = propagate, e_is_origin = norm_io, e_order_key = order_key,
                 e_origin = origin, e_seq = sq, e_leaf = leaf, e_props = blob \<rparr> (edges st) \<rparr>)))))"

definition add_one :: "hashlib \<Rightarrow> edge_in \<Rightarrow> bool \<Rightarrow> lattice \<Rightarrow> (py_error \<times> bool) + lattice" where
  "add_one H e stamp_rev st =
     (case e of (src, dst, label, props) \<Rightarrow>
      if src = [] \<or> dst = [] \<or> label = [] then Inl (ValueError, False)
      else if stamp_rev then
        (let (n, st1) = st_allocate st in
         case write_edge H src dst label props (st_origin st) n st1 of
           Inl err \<Rightarrow> Inl (err, True) | Inr st2 \<Rightarrow> Inr st2)
      else
        (case (dget props ''_origin'', dget props ''_seq'') of
           (PStr origin, PInt n) \<Rightarrow>
             if origin = [] then Inl (ValueError, False)
             else
               (let st1 = st_observe origin n st;
                    verdict = (case map_of (edges st) (edge_key H src dst label) of
                                 None \<Rightarrow> NEWER
                               | Some r \<Rightarrow> compare_version (PStr origin) (PInt n) (PStr (e_origin r)) (PInt (e_seq r))) in
                case verdict of
                  OLDER \<Rightarrow> Inr st1
                | SAME \<Rightarrow> Inr st1
                | UNORDERED \<Rightarrow> Inr (bump ''conflict:unordered_edge'' 1 st1)
                | NEWER \<Rightarrow>
                    (case write_edge H src dst label props origin n st1 of
                       Inl err \<Rightarrow> Inl (err, False) | Inr st2 \<Rightarrow> Inr st2))
         | _ \<Rightarrow> Inl (ValueError, False)))"

text \<open>\<open>_add_chunk\<close>: every edge under a savepoint. The last component records whether a seq was taken by a
  failed write and none by a kept one, in which case the transaction's flush raises.\<close>

fun add_chunk_loop ::
  "hashlib \<Rightarrow> bool \<Rightarrow> edge_in list \<Rightarrow> nat \<Rightarrow> bool \<Rightarrow> bool \<Rightarrow> lattice \<Rightarrow> nat \<times> bool \<times> bool \<times> lattice" where
  "add_chunk_loop H stamp_rev [] handled kept_seq lost_seq st = (handled, kept_seq, lost_seq, st)"
| "add_chunk_loop H stamp_rev (e # es) handled kept_seq lost_seq st =
     (case add_one H e stamp_rev st of
        Inr st' \<Rightarrow> add_chunk_loop H stamp_rev es (Suc handled) (kept_seq \<or> stamp_rev) lost_seq st'
      | Inl (err, allocated) \<Rightarrow> add_chunk_loop H stamp_rev es handled kept_seq (lost_seq \<or> allocated) st)"

definition add_chunk :: "hashlib \<Rightarrow> bool \<Rightarrow> edge_in list \<Rightarrow> lattice \<Rightarrow> (nat \<times> lattice) result" where
  "add_chunk H stamp_rev es st =
     (case add_chunk_loop H stamp_rev es 0 False False st of
        (handled, kept_seq, lost_seq, st') \<Rightarrow>
          if lost_seq \<and> \<not> kept_seq then Inl TypeError else Inr (handled, st'))"

text \<open>\<open>add_edges\<close>: one transaction per chunk. An exception leaves the chunks already committed.\<close>

fun add_chunks :: "hashlib \<Rightarrow> bool \<Rightarrow> edge_in list list \<Rightarrow> lattice \<Rightarrow> (py_error + nat) \<times> lattice" where
  "add_chunks H stamp_rev [] st = (Inr 0, st)"
| "add_chunks H stamp_rev (c # cs) st =
     (case add_chunk H stamp_rev c st of
        Inl e \<Rightarrow> (Inl e, st)
      | Inr (h, st1) \<Rightarrow>
          (case add_chunks H stamp_rev cs st1 of
             (Inl e, st2) \<Rightarrow> (Inl e, st2)
           | (Inr h2, st2) \<Rightarrow> (Inr (h + h2), st2)))"

definition add_edges :: "hashlib \<Rightarrow> nat \<Rightarrow> bool \<Rightarrow> edge_in list \<Rightarrow> lattice \<Rightarrow> (py_error + nat) \<times> lattice" where
  "add_edges H batch stamp_rev es st = add_chunks H stamp_rev (chunks (batch - 1) es) st"

definition add_edge :: "hashlib \<Rightarrow> string \<Rightarrow> string \<Rightarrow> string \<Rightarrow> doc \<Rightarrow> bool \<Rightarrow> lattice \<Rightarrow> (py_error + unit) \<times> lattice" where
  "add_edge H src dst label props stamp_rev st =
     (case add_edges H 500 stamp_rev [(src, dst, label, props)] st of
        (Inl e, st') \<Rightarrow> (Inl e, st') | (Inr _, st') \<Rightarrow> (Inr (), st'))"

definition retire_edge_row :: "hashlib \<Rightarrow> string \<Rightarrow> string \<Rightarrow> erow \<Rightarrow> lattice \<Rightarrow> bool \<times> lattice" where
  "retire_edge_row H key label prev st =
     (if map_of (edges st) key = None then (False, st)
      else
        (let st = st\<lparr> edges := AList.delete key (edges st) \<rparr>;
             st = xor_leaf (leaf_of H (hex_text key) (st_leaves st)) (edge_hash H key (edge_row_content prev)) st;
             st = bump c_edge_total (- 1) st;
             st = bump (c_edge_label label) (- 1) st in
         (True, vacate (e_origin prev) st)))"

definition delete_edge :: "hashlib \<Rightarrow> string \<Rightarrow> string \<Rightarrow> string \<Rightarrow> lattice \<Rightarrow> bool \<times> lattice" where
  "delete_edge H src dst label st =
     (let key = edge_key H src dst label in
      case map_of (edges st) key of
        None \<Rightarrow> (False, st)
      | Some prev \<Rightarrow> retire_edge_row H key label prev st)"

definition retire_edges_touching :: "hashlib \<Rightarrow> string \<Rightarrow> lattice \<Rightarrow> nat \<times> lattice" where
  "retire_edges_touching H node st =
     fold (\<lambda>(key, r) (gone, st).
            case retire_edge_row H key (e_label r) r st of (done, st') \<Rightarrow> (if done then Suc gone else gone, st'))
       (filter (\<lambda>(_, r). e_src r = node \<or> e_dst r = node) (edges st)) (0, st)"

section \<open>Vertices\<close>

definition TIME_CLAIM_KEY :: string where "TIME_CLAIM_KEY = ''created_time_origin''"

definition attribute_time :: "string \<Rightarrow> doc \<Rightarrow> doc" where
  "attribute_time origin d =
     (if dget d ''created_time'' = PNone then d
      else if \<not> truthy (dget d TIME_CLAIM_KEY) then dset TIME_CLAIM_KEY (PStr origin) d
      else d)"

text \<open>\<open>created_time\<close> is first-write-wins: the prior row's value and its claimant carry forward.\<close>

definition carry_time :: "doc option \<Rightarrow> doc \<Rightarrow> doc" where
  "carry_time prev d =
     (case prev of
        None \<Rightarrow> d
      | Some pdoc \<Rightarrow>
          if dget pdoc ''created_time'' = PNone then d
          else
            (let d = dset ''created_time'' (dget pdoc ''created_time'') d in
             if dget pdoc TIME_CLAIM_KEY = PNone then d else dset TIME_CLAIM_KEY (dget pdoc TIME_CLAIM_KEY) d))"

definition origin_root_of :: "doc \<Rightarrow> string option" where
  "origin_root_of d =
     (if truthy (dget d ''origin_root'') then Some (dtext d ''origin_root'')
      else if truthy (dget d ''collection_id'') then Some (dtext d ''collection_id'')
      else if truthy (dget d ''id'') then Some (dtext d ''id'')
      else None)"

text \<open>The document's own root: \<open>doc.get("root_id") or doc.get("id")\<close>.\<close>

definition doc_root :: "doc \<Rightarrow> string" where
  "doc_root d = as_text (py_or (dget d ''root_id'') (dget d ''id''))"

definition NULL_AUDIT_FIELDS :: "string list" where
  "NULL_AUDIT_FIELDS = [''cited_from'', ''provenance'']"

definition counter_adds :: "doc \<Rightarrow> string option \<Rightarrow> int \<Rightarrow> (string \<times> int) list" where
  "counter_adds d ct sign =
     (let live = dget d ''state'' \<in> {PStr STATE_LIVE, PStr ''committed''};
          cid = dtext d ''collection_id'' in
      (case ct of None \<Rightarrow> [] | Some c \<Rightarrow> if c = [] then [] else [(c_ct c, sign)])
      @ (if truthy (dget d ''state'') then [(c_state (dtext d ''state''), sign)] else [])
      @ (if truthy (dget d ''collection_id'')
         then (c_collection cid False, sign) # (if live then [(c_collection cid True, sign)] else []) else [])
      @ concat (map (\<lambda>f. if truthy (dget d f) then []
                         else (c_missing f False, sign) # (if live then [(c_missing f True, sign)] else []))
                  NULL_AUDIT_FIELDS))"

definition counter_deltas ::
  "doc option \<Rightarrow> doc option \<Rightarrow> string option \<Rightarrow> string option \<Rightarrow> (string \<times> int) list" where
  "counter_deltas old new old_ct new_ct =
     (let adds = (case old of None \<Rightarrow> [] | Some d \<Rightarrow> counter_adds d old_ct (- 1))
               @ (case new of None \<Rightarrow> [] | Some d \<Rightarrow> counter_adds d new_ct 1);
          summed = fold (\<lambda>(n, x) acc. AList.update n ((case map_of acc n of None \<Rightarrow> 0 | Some y \<Rightarrow> y) + x) acc) adds [] in
      filter (\<lambda>(_, x). x \<noteq> 0) summed)"

definition bump_all :: "(string \<times> int) list \<Rightarrow> lattice \<Rightarrow> lattice" where
  "bump_all ds st = fold (\<lambda>(n, x) st. bump n x st) ds st"

definition recount :: "doc option \<Rightarrow> doc \<Rightarrow> string option \<Rightarrow> string option \<Rightarrow> lattice \<Rightarrow> lattice" where
  "recount old new old_ct new_ct st =
     bump_all (counter_deltas old (Some new) old_ct new_ct)
       (if old = None then bump c_vertex_total 1 st else st)"

definition doc_status :: "doc option \<Rightarrow> string" where
  "doc_status d = (case d of None \<Rightarrow> [] | Some d \<Rightarrow> dtext d ''status'')"

definition sync_task :: "string \<Rightarrow> doc option \<Rightarrow> doc option \<Rightarrow> string option \<Rightarrow> lattice \<Rightarrow> lattice result" where
  "sync_task aid old new ct st =
     (let old_ct = (case old of None \<Rightarrow> [] | Some d \<Rightarrow> dtext d ''content_type'');
          st = (if doc_status old \<noteq> [] \<and> old_ct \<noteq> []
                then bump (c_task_status old_ct (doc_status old)) (- 1) st else st) in
      case (new, ct) of
        (Some d, Some c) \<Rightarrow>
          if doc_status new = [] \<or> c = [] then Inr (st\<lparr> tasks := AList.delete aid (tasks st) \<rparr>)
          else
            rbind (py_int (py_or (dget d ''priority'') (PInt 0))) (\<lambda>prio.
            rbind (bind_text (dget d ''operator'')) (\<lambda>operator.
            rbind (bind_text (dget d ''task_key'')) (\<lambda>task_key.
            rbind (bind_text (dget d ''claimed_by'')) (\<lambda>claimed_by.
            rbind (bind_text (dget d ''claimed_at'')) (\<lambda>claimed_at.
            rbind (bind_text (dget d ''next_retry_at'')) (\<lambda>next_retry_at.
            rbind (bind_text (dget d ''completed_at'')) (\<lambda>completed_at.
              (let st = bump (c_task_status c (doc_status new)) 1 st in
               Inr (st\<lparr> tasks := AList.update aid
                 \<lparr> t_ct = c, t_status = doc_status new, t_priority = prio, t_operator = operator,
                   t_task_key = task_key, t_claimed_by = claimed_by, t_claimed_at = claimed_at,
                   t_next_retry_at = next_retry_at, t_completed_at = completed_at \<rparr> (tasks st) \<rparr>)))))))))
      | _ \<Rightarrow> Inr (st\<lparr> tasks := AList.delete aid (tasks st) \<rparr>))"

definition LIST_INDEX_FIELDS :: "string list" where
  "LIST_INDEX_FIELDS = [''lemmas'', ''calls'', ''trashed_by'']"

definition SCALAR_INDEX_FIELDS :: "string list" where
  "SCALAR_INDEX_FIELDS = [''trashed_by'']"

text \<open>\<open>str(v).lower()\<close> of an indexed value: text, numbers and booleans; a nested container is posted in its
  JSON form.\<close>

fun posting_text :: "pyval \<Rightarrow> string" where
  "posting_text (PStr s) = py_lower s"
| "posting_text (PInt n) = int_text n"
| "posting_text (PBool b) = (if b then ''true'' else ''false'')"
| "posting_text (PFloat s) = py_lower s"
| "posting_text v = py_lower (dump_value '', '' '': '' False v)"

definition postings :: "string \<Rightarrow> doc \<Rightarrow> string option \<Rightarrow> (string \<times> string \<times> string \<times> string option) list" where
  "postings aid d ct =
     concat (map (\<lambda>field.
       (let vals = (case dget d field of
                      PStr s \<Rightarrow> if field \<in> set SCALAR_INDEX_FIELDS then [PStr s] else []
                    | PList vs \<Rightarrow> vs
                    | _ \<Rightarrow> []) in
        map (\<lambda>v. (aid, field, posting_text v, ct)) (filter (\<lambda>v. v \<noteq> PNone) vals))) LIST_INDEX_FIELDS)"

definition index_lists :: "string \<Rightarrow> doc option \<Rightarrow> string option \<Rightarrow> bool \<Rightarrow> lattice \<Rightarrow> lattice" where
  "index_lists aid d ct had_prev st =
     (let base = (if had_prev then filter (\<lambda>(a, _). a \<noteq> aid) (listkey st) else listkey st) in
      st\<lparr> listkey := base @ (case d of None \<Rightarrow> [] | Some d \<Rightarrow> postings aid d ct) \<rparr>)"

text \<open>\<open>_place\<close>: the origin containment edge of \<open>collection_id\<close>, written on every row write.\<close>

definition place :: "hashlib \<Rightarrow> doc \<Rightarrow> lattice \<Rightarrow> lattice result" where
  "place H d st =
     (let cid = dtext d ''collection_id''; aid = doc_root d in
      if cid = [] \<or> aid = [] \<or> cid = aid then Inr st
      else if map_of (vertices st) cid = None then Inr (st\<lparr> unplaced := Suc (unplaced st) \<rparr>)
      else (case add_one H (cid, aid, ''contains'', [(''root_id'', PStr aid), (''is_origin'', PInt 1)]) True st of
              Inl (e, _) \<Rightarrow> Inl e | Inr st' \<Rightarrow> Inr st'))"

text \<open>The upsert itself, the digest and the allocation accounting of \<open>_write_row\<close>.\<close>

definition upsert_vertex :: "hashlib \<Rightarrow> string \<Rightarrow> vrow \<Rightarrow> lattice \<Rightarrow> lattice" where
  "upsert_vertex H aid row st =
     (let prev = map_of (vertices st) aid;
          st = st\<lparr> vertices := AList.update aid row (vertices st) \<rparr>;
          st = (case prev of None \<Rightarrow> st | Some r \<Rightarrow> xor_leaf (v_leaf row) (row_hash H aid (v_seq r)) st);
          st = xor_leaf (v_leaf row) (row_hash H aid (v_seq row)) st;
          st = (case prev of None \<Rightarrow> st | Some r \<Rightarrow> vacate (v_origin r) st) in
      bump (c_rows (v_origin row)) 1 st)"

text \<open>The stored document: the version stamps, and the time claim of the first write.\<close>

definition stored_doc :: "doc option \<Rightarrow> doc \<Rightarrow> string \<Rightarrow> int \<Rightarrow> doc" where
  "stored_doc pdoc doc origin sq =
     carry_time pdoc (attribute_time origin (dset ''_seq'' (PInt sq) (dset ''_origin'' (PStr origin) doc)))"

text \<open>The row bound by the upsert: the columns of \<open>_columns\<close>, the version and the leaf. The conflict clause
  does not move \<open>root_id\<close>, so an existing row keeps its own.\<close>

definition vertex_row :: "vrow option \<Rightarrow> doc \<Rightarrow> string \<Rightarrow> int \<Rightarrow> nat \<Rightarrow> vrow result" where
  "vertex_row prev d origin sq leaf =
     rbind (bind_col (dget d ''content_type'')) (\<lambda>ct.
     rbind (bind_col (dget d ''content_ref'')) (\<lambda>content_ref.
     rbind (bind_col (dget d ''created_by'')) (\<lambda>created_by.
       Inr \<lparr> v_ct = ct,
         v_offer = (case dget d ''offer'' of PStr s \<Rightarrow> Some s | _ \<Rightarrow> None),
         v_content_ref = content_ref, v_created_by = created_by,
         v_created_time = (case bind_text (dget d ''created_time'') of Inr t \<Rightarrow> as_opt_text t | Inl _ \<Rightarrow> None),
         v_origin_root = origin_root_of d,
         v_root_id = (case prev of None \<Rightarrow> doc_root d | Some r \<Rightarrow> v_root_id r),
         v_origin = origin, v_seq = sq, v_leaf = leaf, v_doc = d \<rparr>)))"

definition write_row :: "hashlib \<Rightarrow> doc \<Rightarrow> string \<Rightarrow> int \<Rightarrow> lattice \<Rightarrow> (doc \<times> lattice) result" where
  "write_row H doc origin sq st =
     (let aid = dtext doc ''id'';
          prev = map_of (vertices st) aid;
          pdoc = map_option v_doc prev;
          d = stored_doc pdoc doc origin sq in
      rbind (vertex_row prev d origin sq (leaf_of H aid (st_leaves st))) (\<lambda>row.
      rbind (sync_task aid pdoc (Some d) (v_ct row)
               (recount pdoc d (case prev of None \<Rightarrow> None | Some r \<Rightarrow> v_ct r) (v_ct row)
                 (upsert_vertex H aid row st))) (\<lambda>st.
      rbind (place H d (index_lists aid (Some d) (v_ct row) (prev \<noteq> None) st)) (\<lambda>st.
        Inr (d, st)))))"

definition version_for :: "doc \<Rightarrow> bool \<Rightarrow> lattice \<Rightarrow> ((string \<times> int) \<times> lattice) result" where
  "version_for doc stamp_rev st =
     (if stamp_rev then (let (n, st') = st_allocate st in Inr ((st_origin st, n), st'))
      else (case (dget doc ''_origin'', dget doc ''_seq'') of
              (PStr origin, PInt n) \<Rightarrow> if origin = [] then Inl ValueError else Inr ((origin, n), st)
            | _ \<Rightarrow> Inl ValueError))"

definition snapshot_id :: "hashlib \<Rightarrow> string \<Rightarrow> doc \<Rightarrow> string" where
  "snapshot_id H aid pdoc =
     aid @ ''@'' @ hex_text (word_bytes (blake8 H (utf8 (dump_value '', '' '': '' False (PDict pdoc)))))"

definition snapshot_prior :: "hashlib \<Rightarrow> string \<Rightarrow> vrow \<Rightarrow> lattice \<Rightarrow> (string option \<times> lattice) result" where
  "snapshot_prior H aid prev st =
     (let pdoc = v_doc prev;
          root = (if v_root_id prev = [] then aid else v_root_id prev);
          snap_id = snapshot_id H aid pdoc in
      if pdoc = [] then Inr (None, st)
      else if map_of (vertices st) snap_id \<noteq> None then Inr (Some snap_id, st)
      else
        (let snap = dset ''state'' (PStr STATE_ARCHIVED) (dset ''root_id'' (PStr root) (dset ''id'' (PStr snap_id) pdoc)) in
         rbind (version_for snap True st) (\<lambda>((origin, n), st).
         rbind (write_row H snap origin n st) (\<lambda>(_, st). Inr (Some snap_id, st)))))"

text \<open>Content decides whether a put is a new version: when it is, the prior row is snapshotted and the
  live version names the snapshot as its parent.\<close>

definition cut_version :: "hashlib \<Rightarrow> doc \<Rightarrow> bool \<Rightarrow> bool \<Rightarrow> lattice \<Rightarrow> (doc \<times> lattice) result" where
  "cut_version H doc stamp_rev new_version st =
     (if stamp_rev \<and> (truthy (dget doc ''content_ref'') \<or> new_version) then
        (case map_of (vertices st) (dtext doc ''id'') of
           None \<Rightarrow> Inr (doc, st)
         | Some prev \<Rightarrow>
             if new_version
                \<or> (case v_content_ref prev of
                      None \<Rightarrow> False
                    | Some c \<Rightarrow> c \<noteq> [] \<and> PStr c \<noteq> dget doc ''content_ref'')
             then rbind (snapshot_prior H (dtext doc ''id'') prev st) (\<lambda>(sid, st).
                    Inr (dset ''parent_id'' (case sid of Some s \<Rightarrow> PStr s | None \<Rightarrow> dget doc ''parent_id'') doc, st))
             else Inr (doc, st))
      else Inr (doc, st))"

definition put_artifact :: "hashlib \<Rightarrow> doc \<Rightarrow> bool \<Rightarrow> bool \<Rightarrow> lattice \<Rightarrow> (doc \<times> lattice) result" where
  "put_artifact H doc stamp_rev new_version st =
     (if dtext doc ''id'' = [] then Inl ValueError
      else
        rbind (cut_version H doc stamp_rev new_version st) (\<lambda>(doc, st).
        rbind (version_for doc stamp_rev st) (\<lambda>((origin, n), st).
          write_row H doc origin n (if stamp_rev then st else st_observe origin n st))))"

section \<open>Bulk writes\<close>

datatype unordered_policy = KeepLocal | TakeRemote | RaiseError

definition lww :: "lattice \<Rightarrow> string \<Rightarrow> string \<Rightarrow> int \<Rightarrow> version_order" where
  "lww st aid origin n =
     (case map_of (vertices st) aid of
        None \<Rightarrow> NEWER
      | Some r \<Rightarrow> compare_version (PStr origin) (PInt n) (PStr (v_origin r)) (PInt (v_seq r)))"

definition put_one ::
  "hashlib \<Rightarrow> doc \<Rightarrow> bool \<Rightarrow> unordered_policy \<Rightarrow> lattice \<Rightarrow> (py_error \<times> bool) + lattice" where
  "put_one H doc stamp_rev on_unordered st =
     (let aid = dtext doc ''id'' in
      if aid = [] then Inl (ValueError, False)
      else
        (case version_for doc stamp_rev st of
           Inl e \<Rightarrow> Inl (e, False)
         | Inr ((origin, n), st1) \<Rightarrow>
             (let st1 = (if stamp_rev then st1 else st_observe origin n st1);
                  verdict = (if stamp_rev then NEWER else lww st aid origin n);
                  commit = (case write_row H doc origin n st1 of
                              Inl e \<Rightarrow> Inl (e, stamp_rev) | Inr (_, st2) \<Rightarrow> Inr st2) in
              case verdict of
                OLDER \<Rightarrow> Inr st1
              | SAME \<Rightarrow> Inr st1
              | UNORDERED \<Rightarrow>
                  (case on_unordered of
                     KeepLocal \<Rightarrow> Inr (bump ''conflict:unordered'' 1 st1)
                   | RaiseError \<Rightarrow> Inl (ValueError, False)
                   | TakeRemote \<Rightarrow> commit)
              | NEWER \<Rightarrow> commit)))"

fun put_chunk_loop ::
  "hashlib \<Rightarrow> bool \<Rightarrow> unordered_policy \<Rightarrow> doc list \<Rightarrow> nat \<Rightarrow> bool \<Rightarrow> bool \<Rightarrow> lattice \<Rightarrow> nat \<times> bool \<times> bool \<times> lattice"
where
  "put_chunk_loop H stamp_rev pol [] handled kept_seq lost_seq st = (handled, kept_seq, lost_seq, st)"
| "put_chunk_loop H stamp_rev pol (d # ds) handled kept_seq lost_seq st =
     (case put_one H d stamp_rev pol st of
        Inr st' \<Rightarrow> put_chunk_loop H stamp_rev pol ds (Suc handled) (kept_seq \<or> stamp_rev) lost_seq st'
      | Inl (err, allocated) \<Rightarrow> put_chunk_loop H stamp_rev pol ds handled kept_seq (lost_seq \<or> allocated) st)"

definition put_chunk :: "hashlib \<Rightarrow> bool \<Rightarrow> unordered_policy \<Rightarrow> doc list \<Rightarrow> lattice \<Rightarrow> (nat \<times> lattice) result" where
  "put_chunk H stamp_rev pol ds st =
     (case put_chunk_loop H stamp_rev pol ds 0 False False st of
        (handled, kept_seq, lost_seq, st') \<Rightarrow>
          if lost_seq \<and> \<not> kept_seq then Inl TypeError else Inr (handled, st'))"

fun put_chunks :: "hashlib \<Rightarrow> bool \<Rightarrow> unordered_policy \<Rightarrow> doc list list \<Rightarrow> lattice \<Rightarrow> (py_error + nat) \<times> lattice" where
  "put_chunks H stamp_rev pol [] st = (Inr 0, st)"
| "put_chunks H stamp_rev pol (c # cs) st =
     (case put_chunk H stamp_rev pol c st of
        Inl e \<Rightarrow> (Inl e, st)
      | Inr (h, st1) \<Rightarrow>
          (case put_chunks H stamp_rev pol cs st1 of
             (Inl e, st2) \<Rightarrow> (Inl e, st2)
           | (Inr h2, st2) \<Rightarrow> (Inr (h + h2), st2)))"

definition put_many ::
  "hashlib \<Rightarrow> doc list \<Rightarrow> nat \<Rightarrow> bool \<Rightarrow> unordered_policy \<Rightarrow> lattice \<Rightarrow> (py_error + nat) \<times> lattice" where
  "put_many H docs batch stamp_rev pol st = put_chunks H stamp_rev pol (chunks (batch - 1) docs) st"

section \<open>Deletes\<close>

definition delete_artifact_full :: "hashlib \<Rightarrow> string \<Rightarrow> bool \<Rightarrow> lattice \<Rightarrow> lattice result" where
  "delete_artifact_full H aid accounted st =
     (case map_of (vertices st) aid of
        None \<Rightarrow> Inr (st\<lparr> demand := filter (\<lambda>(i, _). i \<noteq> aid) (demand st) \<rparr>)
      | Some r \<Rightarrow>
          (let old = v_doc r;
               st = st\<lparr> vertices := AList.delete aid (vertices st) \<rparr>;
               st = (if accounted then snd (retire_edges_touching H aid st) else st);
               st = xor_leaf (v_leaf r) (row_hash H aid (v_seq r)) st;
               st = bump c_vertex_total (- 1) st;
               st = (if accounted then vacate (v_origin r) st else st);
               st = bump_all (counter_deltas (Some old) None (v_ct r) None) st in
           rbind (sync_task aid (Some old) None (v_ct r) st) (\<lambda>st.
             (let st = index_lists aid None (v_ct r) True st in
              Inr (st\<lparr> demand := filter (\<lambda>(i, _). i \<noteq> aid) (demand st) \<rparr>)))))"

definition delete_artifact :: "hashlib \<Rightarrow> string \<Rightarrow> lattice \<Rightarrow> lattice result" where
  "delete_artifact H aid st = delete_artifact_full H aid True st"

definition evict_artifact :: "hashlib \<Rightarrow> string \<Rightarrow> lattice \<Rightarrow> lattice result" where
  "evict_artifact H aid st = delete_artifact_full H aid False st"

end
