(* ===== verification/Store_Inv.thy ===== *)
theory Store_Inv
  imports Store_Write
begin

text \<open>
  The invariants of the lattice store and their preservation by every write: the counters agree with
  the rows, the allocation accounting balances (\<open>live_rows + vacated = last_seq\<close> for the local
  origin), \<open>(_origin, _seq)\<close> identifies a local row, and every merkle leaf digest is the XOR of the
  hashes of the rows on it. \<open>store_inv H p st\<close> carries the number \<open>p\<close> of seqs that have been
  allocated and not yet written, so that the invariant can be followed through a transaction.

  The sums over a table are one locale, \<open>table_fold\<close>, interpreted for integer counts and for XOR.
\<close>

section \<open>Sums over a table\<close>

locale table_fold =
  fixes add :: "'m \<Rightarrow> 'm \<Rightarrow> 'm"
    and zero :: 'm
    and neg :: "'m \<Rightarrow> 'm"
  assumes add_assoc: "add (add a b) c = add a (add b c)"
    and add_commute: "add a b = add b a"
    and add_zero: "add zero a = a"
    and add_neg: "add (neg a) a = zero"
begin

fun total :: "('k \<Rightarrow> 'r \<Rightarrow> 'm) \<Rightarrow> ('k \<times> 'r) list \<Rightarrow> 'm" where
  "total f [] = zero"
| "total f ((k, r) # al) = add (f k r) (total f al)"

lemma add_left_commute: "add a (add b c) = add b (add a c)"
  using add_assoc add_commute by metis

lemma cancel: "add (neg a) (add a b) = b"
  using add_assoc [of "neg a" a b] by (simp add: add_neg add_zero)

lemma total_update:
  "total f (AList.update k v al) = add (f k v)
     (case map_of al k of None \<Rightarrow> total f al | Some r \<Rightarrow> add (neg (f k r)) (total f al))"
proof (induction al)
  case (Cons p al)
  obtain i r where p: "p = (i, r)" by (cases p)
  show ?case
  proof (cases "i = k")
    case True
    then show ?thesis by (simp add: p cancel)
  next
    case False
    then show ?thesis
      using Cons by (simp add: p add_left_commute split: option.splits)
  qed
qed simp

lemma total_delete_absent: "k \<notin> fst ` set al \<Longrightarrow> total f (AList.delete k al) = total f al"
  by (simp add: delete_id)

lemma total_delete:
  "distinct (map fst al) \<Longrightarrow> map_of al k = Some r \<Longrightarrow>
   total f (AList.delete k al) = add (neg (f k r)) (total f al)"
proof (induction al)
  case (Cons p al)
  obtain i s where p: "p = (i, s)" by (cases p)
  show ?case
  proof (cases "i = k")
    case True
    with Cons.prems p have "k \<notin> fst ` set al" "s = r" by auto
    then show ?thesis using True by (simp add: p delete_id cancel)
  next
    case False
    with Cons show ?thesis by (simp add: p add_left_commute)
  qed
qed simp

end

interpretation cnt: table_fold "(+)" "0 :: int" uminus
  by unfold_locales simp_all

unbundle bit_operations_syntax

interpretation dig: table_fold "(XOR) :: 64 word \<Rightarrow> 64 word \<Rightarrow> 64 word" 0 id
  by unfold_locales (simp_all add: xor.assoc xor.commute xor.left_commute)

lemmas table_sums = cnt.total_update cnt.total_delete dig.total_update dig.total_delete

section \<open>The invariant\<close>

definition relevant :: "string \<Rightarrow> bool" where
  "relevant n = (n = c_vertex_total \<or> n = c_edge_total \<or> starts_with ''edge:label:'' n
     \<or> starts_with ''rows:'' n \<or> starts_with ''vacated:'' n)"

text \<open>The version identity of a row, vertices and edges together.\<close>

definition seq_of :: "lattice \<Rightarrow> string + string \<Rightarrow> (string \<times> int) option" where
  "seq_of st t =
     (case t of
        Inl aid \<Rightarrow> map_option (\<lambda>r. (v_origin r, v_seq r)) (map_of (vertices st) aid)
      | Inr key \<Rightarrow> map_option (\<lambda>r. (e_origin r, e_seq r)) (map_of (edges st) key))"

definition hw :: "lattice \<Rightarrow> int" where
  "hw st = high_water (seq_counter st) (st_origin st)"

definition live_rows :: "lattice \<Rightarrow> string \<Rightarrow> int" where
  "live_rows st origin = cnt.total (\<lambda>_ r. of_bool (v_origin r = origin)) (vertices st)
     + cnt.total (\<lambda>_ r. of_bool (e_origin r = origin)) (edges st)"

definition keys_ok :: "lattice \<Rightarrow> bool" where
  "keys_ok st = (distinct (map fst (vertices st)) \<and> distinct (map fst (edges st)) \<and> st_origin st \<noteq> [])"

definition counts_ok :: "lattice \<Rightarrow> bool" where
  "counts_ok st = (counter st c_vertex_total = cnt.total (\<lambda>_ _. 1) (vertices st)
     \<and> counter st c_edge_total = cnt.total (\<lambda>_ _. 1) (edges st)
     \<and> (\<forall>l. counter st (c_edge_label l) = cnt.total (\<lambda>_ r. of_bool (e_label r = l)) (edges st)))"

definition rows_ok :: "lattice \<Rightarrow> bool" where
  "rows_ok st = (\<forall>origin. origin \<noteq> [] \<longrightarrow> counter st (c_rows origin) = live_rows st origin)"

definition balance_ok :: "int \<Rightarrow> lattice \<Rightarrow> bool" where
  "balance_ok p st =
     (counter st (c_rows (st_origin st)) + counter st (c_vacated (st_origin st)) + p = hw st)"

definition seqs_ok :: "int \<Rightarrow> lattice \<Rightarrow> bool" where
  "seqs_ok p st = (0 \<le> hw st
     \<and> (\<forall>t n. seq_of st t = Some (st_origin st, n) \<longrightarrow> 0 < n \<and> n \<le> hw st - p)
     \<and> (\<forall>t t' n. seq_of st t = Some (st_origin st, n) \<and> seq_of st t' = Some (st_origin st, n) \<longrightarrow> t = t'))"

definition leaves_ok :: "hashlib \<Rightarrow> lattice \<Rightarrow> bool" where
  "leaves_ok H st = ((\<forall>(aid, r) \<in> set (vertices st). v_leaf r = leaf_of H aid (st_leaves st))
     \<and> (\<forall>(key, r) \<in> set (edges st). e_leaf r = leaf_of H (hex_text key) (st_leaves st)))"

definition digest_ok :: "hashlib \<Rightarrow> lattice \<Rightarrow> bool" where
  "digest_ok H st = (\<forall>leaf. leaf_digest st leaf =
     dig.total (\<lambda>aid r. if v_leaf r = leaf then row_hash H aid (v_seq r) else 0) (vertices st)
     XOR dig.total (\<lambda>key r. if e_leaf r = leaf then edge_hash H key (edge_row_content r) else 0) (edges st))"

definition store_inv :: "hashlib \<Rightarrow> int \<Rightarrow> lattice \<Rightarrow> bool" where
  "store_inv H p st = (keys_ok st \<and> counts_ok st \<and> rows_ok st \<and> balance_ok p st \<and> seqs_ok p st
     \<and> leaves_ok H st \<and> digest_ok H st)"

lemmas store_inv_defs = store_inv_def keys_ok_def counts_ok_def rows_ok_def balance_ok_def seqs_ok_def
  leaves_ok_def digest_ok_def

lemma store_inv_empty: "origin \<noteq> [] \<Longrightarrow> store_inv H 0 (empty_lattice origin leaves)"
  by (auto simp: store_inv_defs empty_lattice_def live_rows_def hw_def high_water_def seq_of_def split: sum.splits)

section \<open>What the invariant reads\<close>

text \<open>Two states with the same tables, marks, digests and relevant counters satisfy the same invariant;
  the task, posting and demand tables, the fault predicates and the other counters are free.\<close>

definition same_core :: "lattice \<Rightarrow> lattice \<Rightarrow> bool" where
  "same_core s t = (st_origin t = st_origin s \<and> st_leaves t = st_leaves s \<and> vertices t = vertices s
     \<and> edges t = edges s \<and> seq_counter t = seq_counter s \<and> leaf_digest t = leaf_digest s
     \<and> (\<forall>n. relevant n \<longrightarrow> counter t n = counter s n))"

lemma relevant_names [simp]:
  "relevant c_vertex_total" "relevant c_edge_total" "relevant (c_edge_label l)"
  "relevant (c_rows origin)" "relevant (c_vacated origin)"
  by (auto simp: relevant_def c_edge_label_def c_rows_def c_vacated_def starts_with_iff)

lemma irrelevant_names [simp]:
  "\<not> relevant (c_ct c)" "\<not> relevant (c_state s)" "\<not> relevant (c_collection cid b)" "\<not> relevant (c_missing f b)"
  "\<not> relevant (c_task_status c s)" "\<not> relevant ''conflict:unordered''" "\<not> relevant ''conflict:unordered_edge''"
  by (simp_all add: relevant_def c_ct_def c_state_def c_collection_def c_missing_def c_task_status_def
      c_vertex_total_def c_edge_total_def)

lemma same_core_inv: "same_core s t \<Longrightarrow> store_inv H p s \<Longrightarrow> store_inv H p t"
proof -
  assume "same_core s t" and inv: "store_inv H p s"
  then have eq: "st_origin t = st_origin s" "st_leaves t = st_leaves s" "vertices t = vertices s"
      "edges t = edges s" "seq_counter t = seq_counter s" "leaf_digest t = leaf_digest s"
    and c: "\<And>n. relevant n \<Longrightarrow> counter t n = counter s n"
    by (simp_all add: same_core_def)
  have "seq_of t = seq_of s" "hw t = hw s" "live_rows t = live_rows s"
    by (simp_all add: fun_eq_iff seq_of_def hw_def live_rows_def eq split: sum.splits)
  then have "keys_ok t = keys_ok s" "counts_ok t = counts_ok s" "rows_ok t = rows_ok s"
    "balance_ok p t = balance_ok p s" "seqs_ok p t = seqs_ok p s" "leaves_ok H t = leaves_ok H s"
    "digest_ok H t = digest_ok H s"
    by (simp_all add: keys_ok_def counts_ok_def rows_ok_def balance_ok_def seqs_ok_def leaves_ok_def
        digest_ok_def eq c)
  with inv show ?thesis by (simp add: store_inv_def)
qed

lemma same_core_refl [simp]: "same_core s s"
  by (simp add: same_core_def)

lemma same_core_trans [trans]: "same_core s t \<Longrightarrow> same_core t u \<Longrightarrow> same_core s u"
  by (simp add: same_core_def)

lemma same_core_bump: "\<not> relevant n \<Longrightarrow> same_core s (bump n x s)"
  by (auto simp: same_core_def bump_def)

section \<open>The primitives\<close>

lemma bump_fields [simp]:
  "st_origin (bump n x st) = st_origin st" "st_leaves (bump n x st) = st_leaves st"
  "vertices (bump n x st) = vertices st" "edges (bump n x st) = edges st"
  "seq_counter (bump n x st) = seq_counter st" "leaf_digest (bump n x st) = leaf_digest st"
  by (simp_all add: bump_def)

lemma counter_bump [simp]: "counter (bump n x st) m = counter st m + (if m = n then x else 0)"
  by (simp add: bump_def)

lemma vacate_fields [simp]:
  "st_origin (vacate a st) = st_origin st" "st_leaves (vacate a st) = st_leaves st"
  "vertices (vacate a st) = vertices st" "edges (vacate a st) = edges st"
  "seq_counter (vacate a st) = seq_counter st" "leaf_digest (vacate a st) = leaf_digest st"
  by (simp_all add: vacate_def)

lemma xor_leaf_fields [simp]:
  "st_origin (xor_leaf l v st) = st_origin st" "st_leaves (xor_leaf l v st) = st_leaves st"
  "vertices (xor_leaf l v st) = vertices st" "edges (xor_leaf l v st) = edges st"
  "seq_counter (xor_leaf l v st) = seq_counter st" "counter (xor_leaf l v st) = counter st"
  by (simp_all add: xor_leaf_def)

lemma leaf_digest_xor [simp]:
  "leaf_digest (xor_leaf l v st) m = leaf_digest st m XOR (if m = l then v else 0)"
  by (simp add: xor_leaf_def)

lemma counter_names [simp]:
  "c_rows a = c_rows b \<longleftrightarrow> a = b" "c_vacated a = c_vacated b \<longleftrightarrow> a = b" "c_edge_label a = c_edge_label b \<longleftrightarrow> a = b"
  "c_rows a \<noteq> c_vacated b" "c_vacated a \<noteq> c_rows b" "c_rows a \<noteq> c_edge_label b" "c_edge_label a \<noteq> c_rows b"
  "c_vacated a \<noteq> c_edge_label b" "c_edge_label a \<noteq> c_vacated b"
  "c_rows a \<noteq> c_vertex_total" "c_vertex_total \<noteq> c_rows a" "c_rows a \<noteq> c_edge_total" "c_edge_total \<noteq> c_rows a"
  "c_vacated a \<noteq> c_vertex_total" "c_vertex_total \<noteq> c_vacated a" "c_vacated a \<noteq> c_edge_total" "c_edge_total \<noteq> c_vacated a"
  "c_edge_label a \<noteq> c_vertex_total" "c_vertex_total \<noteq> c_edge_label a" "c_edge_label a \<noteq> c_edge_total"
  "c_edge_total \<noteq> c_edge_label a" "c_vertex_total \<noteq> c_edge_total" "c_edge_total \<noteq> c_vertex_total"
  by (simp_all add: c_rows_def c_vacated_def c_edge_label_def c_vertex_total_def c_edge_total_def)

text \<open>The counter moves of one vacated seq.\<close>

definition vac_move :: "string \<Rightarrow> string \<Rightarrow> int" where
  "vac_move a m = (if a = [] then 0 else (if m = c_rows a then - 1 else 0) + (if m = c_vacated a then 1 else 0))"

lemma counter_vacate [simp]: "counter (vacate a st) m = counter st m + vac_move a m"
  by (simp add: vacate_def vac_move_def)

lemma vac_move_simps [simp]:
  "vac_move a (c_rows b) = (if a \<noteq> [] \<and> a = b then - 1 else 0)"
  "vac_move a (c_vacated b) = (if a \<noteq> [] \<and> a = b then 1 else 0)"
  "vac_move a (c_edge_label l) = 0" "vac_move a c_vertex_total = 0" "vac_move a c_edge_total = 0"
  by (auto simp: vac_move_def)

section \<open>Allocation\<close>

lemma fold_max_le: "(\<And>n. n \<in> set ns \<Longrightarrow> n \<le> m) \<Longrightarrow> fold max ns m = m" for m :: int
  by (induction ns) (auto simp: max_def)

lemma alloc_load:
  assumes "seqs_ok 0 st" "keys_ok st"
  shows "seq_load (seq_counter st) (st_origin st) (max_observed st (st_origin st)) = hw st"
proof (cases "seq_counter st (st_origin st)")
  case None
  then have hw0: "hw st = 0" by (simp add: hw_def high_water_def)
  have "n \<le> 0" if "n \<in> set (origin_seqs st (st_origin st))" for n
  proof -
    from that consider
        (v) aid r where "(aid, r) \<in> set (vertices st)" "v_origin r = st_origin st" "n = v_seq r"
      | (e) key r where "(key, r) \<in> set (edges st)" "e_origin r = st_origin st" "n = e_seq r"
      by (auto simp: origin_seqs_def)
    then have "\<exists>t. seq_of st t = Some (st_origin st, n)"
    proof cases
      case v
      then have "seq_of st (Inl aid) = Some (st_origin st, n)"
        using assms(2) by (simp add: seq_of_def keys_ok_def)
      then show ?thesis ..
    next
      case e
      then have "seq_of st (Inr key) = Some (st_origin st, n)"
        using assms(2) by (simp add: seq_of_def keys_ok_def)
      then show ?thesis ..
    qed
    with assms(1) hw0 show ?thesis by (auto simp: seqs_ok_def)
  qed
  then have "fold max (origin_seqs st (st_origin st)) 0 = 0"
    by (rule fold_max_le)
  with None hw0 show ?thesis by (simp add: seq_load_def max_observed_def)
qed (auto simp: seq_load_def hw_def high_water_def split: option.splits)

lemma seq_update_inv:
  assumes inv: "store_inv H p st" and k: "hw (st\<lparr> seq_counter := sc \<rparr>) = hw st + k" "0 \<le> k"
  shows "store_inv H (p + k) (st\<lparr> seq_counter := sc \<rparr>)"
proof -
  let ?st = "st\<lparr> seq_counter := sc \<rparr>"
  have eq: "seq_of ?st = seq_of st" "live_rows ?st = live_rows st"
    by (simp_all add: fun_eq_iff seq_of_def live_rows_def split: sum.splits)
  have "balance_ok (p + k) ?st"
    using inv k by (simp add: store_inv_def balance_ok_def)
  moreover have "seqs_ok (p + k) ?st"
    using inv k by (simp add: store_inv_def seqs_ok_def eq)
  ultimately show ?thesis
    using inv eq
    by (simp add: store_inv_def keys_ok_def counts_ok_def rows_ok_def leaves_ok_def digest_ok_def)
qed

text \<open>The version a row may be written with: the seq just allocated, or a foreign one.\<close>

definition fresh_version :: "int \<Rightarrow> string \<Rightarrow> int \<Rightarrow> lattice \<Rightarrow> bool" where
  "fresh_version p origin n st = (origin \<noteq> [] \<and> (if origin = st_origin st then p = 1 \<and> n = hw st \<and> 0 < n else p = 0))"

lemma allocate_inv:
  assumes inv: "store_inv H 0 st" and a: "st_allocate st = (n, st1)"
  shows "store_inv H 1 st1" "fresh_version 1 (st_origin st) n st1" "st_origin st1 = st_origin st"
proof -
  have load: "seq_load (seq_counter st) (st_origin st) (max_observed st (st_origin st)) = hw st"
    using inv by (intro alloc_load) (simp_all add: store_inv_def)
  have n: "n = hw st + 1" and st1: "st1 = st\<lparr> seq_counter := put_high (st_origin st) (hw st + 1) True (seq_counter st) \<rparr>"
    using a by (auto simp add: st_allocate_def Let_def load)
  have nn: "0 \<le> hw st" using inv by (simp add: store_inv_def seqs_ok_def)
  have hw1: "hw st1 = hw st + 1"
    using nn by (auto simp: st1 hw_def high_water_def put_high_def max_def split: option.splits)
  moreover have "st_origin st1 = st_origin st" "st_origin st \<noteq> []"
    using inv by (simp_all add: st1 store_inv_def keys_ok_def)
  ultimately show "fresh_version 1 (st_origin st) n st1"
    using nn by (simp add: n fresh_version_def)
  from seq_update_inv [OF inv, of _ 1] hw1 show "store_inv H 1 st1" by (simp add: st1)
  show "st_origin st1 = st_origin st" by (simp add: st1)
qed

lemma observe_inv:
  assumes inv: "store_inv H p st" and "origin \<noteq> st_origin st"
  shows "store_inv H p (st_observe origin n st)"
proof -
  have "hw (st_observe origin n st) = hw st"
    using assms(2) by (simp add: hw_def high_water_def st_observe_def observe_seq_def put_high_def)
  with seq_update_inv [OF inv, of _ 0] show ?thesis by (simp add: st_observe_def)
qed

section \<open>Writing an edge\<close>

definition text_props :: "doc \<Rightarrow> bool" where
  "text_props props = list_all (\<lambda>k. bind_text (dget props k) = Inr (dget props k)) [''force'', ''propagate'', ''order_key'']"

lemma write_edge_effect:
  assumes "write_edge H s d l props origin n st = Inr st'" and "text_props props"
  defines "key \<equiv> edge_key H s d l" and "leaf \<equiv> leaf_of H (hex_text (edge_key H s d l)) (st_leaves st)"
  obtains row where
    "edges st' = AList.update key row (edges st)" "e_origin row = origin" "e_seq row = n" "e_leaf row = leaf"
    "e_label row = (case map_of (edges st) key of None \<Rightarrow> l | Some r \<Rightarrow> e_label r)"
    "vertices st' = vertices st" "seq_counter st' = seq_counter st" "st_origin st' = st_origin st"
    "st_leaves st' = st_leaves st"
    "\<And>m. counter st' m = counter st m + (if m = c_rows origin then 1 else 0)
       + (case map_of (edges st) key of
            None \<Rightarrow> (if m = c_edge_total then 1 else 0) + (if m = c_edge_label l then 1 else 0)
          | Some r \<Rightarrow> vac_move (e_origin r) m)"
    "\<And>m. leaf_digest st' m = leaf_digest st m XOR (if m = leaf then edge_hash H key (edge_row_content row) XOR
       (case map_of (edges st) key of None \<Rightarrow> 0 | Some r \<Rightarrow> edge_hash H key (edge_row_content r)) else 0)"
proof -
  have b: "bind_text (dget props ''force'') = Inr (dget props ''force'')"
    "bind_text (dget props ''propagate'') = Inr (dget props ''propagate'')"
    "bind_text (dget props ''order_key'') = Inr (dget props ''order_key'')"
    using assms(2) by (simp_all add: text_props_def)
  have lf: "leaf = leaf_of H (hex_text key) (st_leaves st)" by (simp add: leaf_def key_def)
  define row where "row = \<lparr> e_src = (case map_of (edges st) key of None \<Rightarrow> s | Some r \<Rightarrow> e_src r),
      e_dst = (case map_of (edges st) key of None \<Rightarrow> d | Some r \<Rightarrow> e_dst r),
      e_label = (case map_of (edges st) key of None \<Rightarrow> l | Some r \<Rightarrow> e_label r),
      e_force = dget props ''force'', e_propagate = dget props ''propagate'',
      e_is_origin = norm_is_origin (dget props ''is_origin''), e_order_key = dget props ''order_key'',
      e_origin = origin, e_seq = n, e_leaf = leaf, e_props = edge_blob props \<rparr>"
  have "st' = (case map_of (edges st) key of
      None \<Rightarrow> bump (c_rows origin) 1 (bump (c_edge_label l) 1 (bump c_edge_total 1
                (xor_leaf leaf (edge_hash H key (edge_row_content row)) st)))
    | Some r \<Rightarrow> bump (c_rows origin) 1 (vacate (e_origin r)
                (xor_leaf leaf (edge_hash H key (edge_row_content row)) (xor_leaf leaf (edge_hash H key (edge_row_content r)) st))))
      \<lparr> edges := AList.update key row (edges st) \<rparr>"
    using assms(1) by (auto simp: write_edge_def Let_def b key_def [symmetric] lf row_def
        edge_row_content_def split: option.splits)
  note st' = this
  show ?thesis
  proof (cases "map_of (edges st) key")
    case None
    show ?thesis by (rule that [of row]) (simp_all add: st' None row_def)
  next
    case (Some r)
    show ?thesis by (rule that [of row]) (simp_all add: st' Some row_def ac_simps)
  qed
qed

lemma seqs_update:
  assumes "seqs_ok p st" "fresh_version p origin n st"
    and "seq_of st' = (seq_of st)(t \<mapsto> (origin, n))" "seq_counter st' = seq_counter st" "st_origin st' = st_origin st"
  shows "seqs_ok 0 st'"
proof -
  have hw: "hw st' = hw st" by (simp add: hw_def assms)
  have old: "0 < m \<and> m \<le> hw st - p" if "seq_of st u = Some (st_origin st, m)" for u m
    using assms(1) that by (auto simp: seqs_ok_def)
  have fresh: "m \<noteq> n" if "seq_of st u = Some (st_origin st, m)" "origin = st_origin st" for u m
    using old [OF that(1)] that(2) assms(2) by (auto simp: fresh_version_def split: if_splits)
  have p: "0 \<le> p" using assms(2) by (auto simp: fresh_version_def split: if_splits)
  have inj: "u = u'" if "seq_of st u = Some (st_origin st, m)" "seq_of st u' = Some (st_origin st, m)" for u u' m
    using assms(1) that by (auto simp: seqs_ok_def)
  show ?thesis
    unfolding seqs_ok_def hw assms(3,5)
  proof (intro conjI allI impI)
    show "0 \<le> hw st" using assms(1) by (simp add: seqs_ok_def)
  next
    fix u m
    assume "((seq_of st)(t \<mapsto> (origin, n))) u = Some (st_origin st, m)"
    then show "0 < m" "m \<le> hw st - 0"
      using old [of u m] p assms(2) by (auto simp: fresh_version_def split: if_splits)
  next
    fix u u' m
    assume "((seq_of st)(t \<mapsto> (origin, n))) u = Some (st_origin st, m)
      \<and> ((seq_of st)(t \<mapsto> (origin, n))) u' = Some (st_origin st, m)"
    then show "u = u'"
      using inj [of u m u'] fresh [of u m] fresh [of u' m] by (auto split: if_splits)
  qed
qed

lemma set_update_cases: "(k', v') \<in> set (AList.update k v al) \<Longrightarrow> (k', v') = (k, v) \<or> (k', v') \<in> set al"
  by (induction al) (auto split: if_splits)

lemma edge_update_inv:
  assumes inv: "store_inv H p st" and fv: "fresh_version p origin n st"
    and e: "edges st' = AList.update key row (edges st)" "e_origin row = origin" "e_seq row = n"
      "e_leaf row = leaf_of H (hex_text key) (st_leaves st)"
      "e_label row = (case map_of (edges st) key of None \<Rightarrow> l | Some r \<Rightarrow> e_label r)"
    and same: "vertices st' = vertices st" "seq_counter st' = seq_counter st" "st_origin st' = st_origin st"
      "st_leaves st' = st_leaves st"
    and c: "\<And>m. counter st' m = counter st m + (if m = c_rows origin then 1 else 0)
       + (case map_of (edges st) key of
            None \<Rightarrow> (if m = c_edge_total then 1 else 0) + (if m = c_edge_label l then 1 else 0)
          | Some r \<Rightarrow> vac_move (e_origin r) m)"
    and dg: "\<And>m. leaf_digest st' m = leaf_digest st m XOR (if m = e_leaf row then edge_hash H key (edge_row_content row) XOR
       (case map_of (edges st) key of None \<Rightarrow> 0 | Some r \<Rightarrow> edge_hash H key (edge_row_content r)) else 0)"
  shows "store_inv H 0 st'"
proof -
  have hw: "hw st' = hw st" by (simp add: hw_def same)
  have k: "keys_ok st'" using inv by (simp add: store_inv_def keys_ok_def e same)
  have ct: "counts_ok st'"
    using inv by (auto simp: store_inv_def counts_ok_def e same c cnt.total_update split: option.splits)
  have lr: "live_rows st' a = live_rows st a + of_bool (origin = a)
      - (case map_of (edges st) key of None \<Rightarrow> 0 | Some r \<Rightarrow> of_bool (e_origin r = a))" for a
    by (simp add: live_rows_def e same cnt.total_update split: option.splits)
  have r: "rows_ok st'"
    using inv by (auto simp: store_inv_def rows_ok_def lr c split: option.splits)
  have b: "balance_ok 0 st'"
    using inv fv by (auto simp: store_inv_def balance_ok_def c same hw fresh_version_def split: option.splits if_splits)
  have "seq_of st' = (seq_of st)(Inr key \<mapsto> (origin, n))"
    by (auto simp: fun_eq_iff seq_of_def e same split: sum.splits)
  then have s: "seqs_ok 0 st'"
    using seqs_update [OF _ fv] inv same by (simp add: store_inv_def)
  have lv: "leaves_ok H st'"
    using inv by (auto simp: store_inv_def leaves_ok_def e(1) e(4) same dest!: set_update_cases)
  have old: "e_leaf r = e_leaf row" if "map_of (edges st) key = Some r" for r
    using inv map_of_SomeD [OF that] by (auto simp: store_inv_def leaves_ok_def e)
  have "digest_ok H st'"
    using inv old
    by (auto simp: store_inv_def digest_ok_def dg e(1) same dig.total_update ac_simps split: option.splits)
  with k ct r b s lv show ?thesis by (simp add: store_inv_def)
qed

lemma write_edge_inv:
  assumes "store_inv H p st" "fresh_version p origin n st" "text_props props"
    and w: "write_edge H s d l props origin n st = Inr st'"
  shows "store_inv H 0 st'" "st_origin st' = st_origin st"
proof -
  obtain row where r: "edges st' = AList.update (edge_key H s d l) row (edges st)" "e_origin row = origin"
    "e_seq row = n" "e_leaf row = leaf_of H (hex_text (edge_key H s d l)) (st_leaves st)"
    "e_label row = (case map_of (edges st) (edge_key H s d l) of None \<Rightarrow> l | Some r \<Rightarrow> e_label r)"
    "vertices st' = vertices st" "seq_counter st' = seq_counter st" "st_origin st' = st_origin st"
    "st_leaves st' = st_leaves st"
    "\<And>m. counter st' m = counter st m + (if m = c_rows origin then 1 else 0)
       + (case map_of (edges st) (edge_key H s d l) of
            None \<Rightarrow> (if m = c_edge_total then 1 else 0) + (if m = c_edge_label l then 1 else 0)
          | Some r \<Rightarrow> vac_move (e_origin r) m)"
    "\<And>m. leaf_digest st' m = leaf_digest st m XOR
       (if m = leaf_of H (hex_text (edge_key H s d l)) (st_leaves st)
        then edge_hash H (edge_key H s d l) (edge_row_content row) XOR
       (case map_of (edges st) (edge_key H s d l) of None \<Rightarrow> 0
        | Some r \<Rightarrow> edge_hash H (edge_key H s d l) (edge_row_content r)) else 0)"
    using write_edge_effect [OF w assms(3)] by blast
  show "store_inv H 0 st'"
    by (rule edge_update_inv [OF assms(1,2), where row = row and key = "edge_key H s d l" and l = l])
      (simp_all add: r)
  show "st_origin st' = st_origin st" by (fact r(8))
qed

definition foreign_props :: "lattice \<Rightarrow> doc \<Rightarrow> bool" where
  "foreign_props st props = (dget props ''_origin'' \<noteq> PStr (st_origin st))"

lemma observe_fields [simp]: "st_origin (st_observe origin n st) = st_origin st"
  by (simp add: st_observe_def)

lemma bump_inv: "\<not> relevant m \<Longrightarrow> store_inv H p st \<Longrightarrow> store_inv H p (bump m x st)"
  using same_core_inv [OF same_core_bump] by blast

lemma add_one_inv:
  assumes inv: "store_inv H 0 st" and tp: "text_props props" and fp: "stamp_rev \<or> foreign_props st props"
    and a: "add_one H (s, d, l, props) stamp_rev st = Inr st'"
  shows "store_inv H 0 st' \<and> st_origin st' = st_origin st"
proof (cases stamp_rev)
  case True
  obtain n st1 where al: "st_allocate st = (n, st1)" by fastforce
  from a True al obtain w: "write_edge H s d l props (st_origin st) n st1 = Inr st'"
    by (auto simp: add_one_def split: if_splits sum.splits)
  note ai = allocate_inv [OF inv al]
  show ?thesis using write_edge_inv [OF ai(1,2) tp w] ai(3) by simp
next
  case False
  then obtain origin n where o: "dget props ''_origin'' = PStr origin" "dget props ''_seq'' = PInt n" "origin \<noteq> []"
    using a by (auto simp: add_one_def split: if_splits pyval.splits)
  with fp False have fo: "origin \<noteq> st_origin st" by (auto simp: foreign_props_def)
  let ?st1 = "st_observe origin n st"
  have i1: "store_inv H 0 ?st1" by (rule observe_inv [OF inv fo])
  have fv: "fresh_version 0 origin n ?st1" using o fo by (simp add: fresh_version_def)
  from a False o consider "st' = ?st1" | "st' = bump ''conflict:unordered_edge'' 1 ?st1"
    | "write_edge H s d l props origin n ?st1 = Inr st'"
    by (auto simp: add_one_def Let_def split: if_splits sum.splits version_order.splits)
  then show ?thesis
  proof cases
    case 2
    with i1 show ?thesis by (simp add: bump_inv)
  next
    case 3
    with write_edge_inv [OF i1 fv tp 3] show ?thesis by simp
  qed (use i1 in simp_all)
qed

section \<open>Writing a vertex\<close>

lemma counter_adds_irrelevant: "(m, x) \<in> set (counter_adds d ct sign) \<Longrightarrow> \<not> relevant m"
  by (auto simp: counter_adds_def Let_def NULL_AUDIT_FIELDS_def split: option.splits if_splits)

lemma summed_keys:
  "fst ` set (fold (\<lambda>(n, x) acc. AList.update n ((case map_of acc n of None \<Rightarrow> 0 | Some y \<Rightarrow> y) + x) acc) adds acc)
     \<subseteq> fst ` set adds \<union> fst ` set acc" for adds :: "(string \<times> int) list"
proof (induction adds arbitrary: acc)
  case (Cons p adds)
  obtain n x where p: "p = (n, x)" by (cases p)
  let ?acc = "AList.update n ((case map_of acc n of None \<Rightarrow> 0 | Some y \<Rightarrow> y) + x) acc"
  have "fst ` set ?acc = insert n (fst ` set acc)" by (simp add: dom_update)
  with Cons.IH [of ?acc] show ?case by (auto simp: p)
qed simp

lemma counter_deltas_irrelevant: "(m, x) \<in> set (counter_deltas old new old_ct new_ct) \<Longrightarrow> \<not> relevant m"
proof -
  let ?adds = "(case old of None \<Rightarrow> [] | Some d \<Rightarrow> counter_adds d old_ct (- 1))
      @ (case new of None \<Rightarrow> [] | Some d \<Rightarrow> counter_adds d new_ct 1)"
  assume "(m, x) \<in> set (counter_deltas old new old_ct new_ct)"
  then have "m \<in> fst ` set (counter_deltas old new old_ct new_ct)" by (rule image_eqI [rotated]) simp
  then have "m \<in> fst ` set ?adds"
    using summed_keys [of ?adds "[]"] unfolding counter_deltas_def Let_def by auto
  then show ?thesis
    by (cases old; cases new) (auto dest: counter_adds_irrelevant)
qed

lemma same_core_bump_all: "(\<And>m x. (m, x) \<in> set ds \<Longrightarrow> \<not> relevant m) \<Longrightarrow> same_core st (bump_all ds st)"
  unfolding bump_all_def
proof (induction ds arbitrary: st)
  case (Cons p ds)
  obtain m x where p: "p = (m, x)" by (cases p)
  have "same_core st (bump m x st)" using Cons.prems [of m x] by (simp add: p same_core_bump)
  moreover have "same_core (bump m x st) (fold (\<lambda>(n, x) st. bump n x st) ds (bump m x st))"
    using Cons by auto
  ultimately show ?case using same_core_trans by (simp add: p)
qed simp

lemma same_core_deltas: "same_core st (bump_all (counter_deltas old new old_ct new_ct) st)"
  by (rule same_core_bump_all) (rule counter_deltas_irrelevant)

lemma same_core_sync_task: "sync_task aid old new ct st = Inr st' \<Longrightarrow> same_core st st'"
  by (auto simp: sync_task_def Let_def same_core_def rbind_eq_Inr split: option.splits if_splits)

lemma same_core_index: "same_core st (index_lists aid d ct had st)"
  by (simp add: index_lists_def Let_def same_core_def)

lemma vertex_update_inv:
  assumes inv: "store_inv H p st" and fv: "fresh_version p origin n st"
    and e: "vertices st' = AList.update aid row (vertices st)" "v_origin row = origin" "v_seq row = n"
      "v_leaf row = leaf_of H aid (st_leaves st)"
    and same: "edges st' = edges st" "seq_counter st' = seq_counter st" "st_origin st' = st_origin st"
      "st_leaves st' = st_leaves st"
    and c: "\<And>m. counter st' m = counter st m + (if m = c_rows origin then 1 else 0)
       + (case map_of (vertices st) aid of
            None \<Rightarrow> (if m = c_vertex_total then 1 else 0) | Some r \<Rightarrow> vac_move (v_origin r) m)"
    and dg: "\<And>m. leaf_digest st' m = leaf_digest st m XOR (if m = v_leaf row then row_hash H aid n XOR
       (case map_of (vertices st) aid of None \<Rightarrow> 0 | Some r \<Rightarrow> row_hash H aid (v_seq r)) else 0)"
  shows "store_inv H 0 st'"
proof -
  have hw: "hw st' = hw st" by (simp add: hw_def same)
  have k: "keys_ok st'" using inv by (simp add: store_inv_def keys_ok_def e same)
  have ct: "counts_ok st'"
    using inv by (auto simp: store_inv_def counts_ok_def e same c cnt.total_update split: option.splits)
  have lr: "live_rows st' a = live_rows st a + of_bool (origin = a)
      - (case map_of (vertices st) aid of None \<Rightarrow> 0 | Some r \<Rightarrow> of_bool (v_origin r = a))" for a
    by (simp add: live_rows_def e same cnt.total_update split: option.splits)
  have r: "rows_ok st'"
    using inv by (auto simp: store_inv_def rows_ok_def lr c split: option.splits)
  have b: "balance_ok 0 st'"
    using inv fv by (auto simp: store_inv_def balance_ok_def c same hw fresh_version_def split: option.splits if_splits)
  have "seq_of st' = (seq_of st)(Inl aid \<mapsto> (origin, n))"
    by (auto simp: fun_eq_iff seq_of_def e same split: sum.splits)
  then have s: "seqs_ok 0 st'"
    using seqs_update [OF _ fv] inv same by (simp add: store_inv_def)
  have lv: "leaves_ok H st'"
    using inv by (auto simp: store_inv_def leaves_ok_def e(1) e(4) same dest!: set_update_cases)
  have old: "v_leaf r = v_leaf row" if "map_of (vertices st) aid = Some r" for r
    using inv map_of_SomeD [OF that] by (auto simp: store_inv_def leaves_ok_def e)
  have "digest_ok H st'"
    using inv old
    by (auto simp: store_inv_def digest_ok_def dg e(1) e(3) same dig.total_update ac_simps split: option.splits)
  with k ct r b s lv show ?thesis by (simp add: store_inv_def)
qed

lemma place_inv:
  assumes "store_inv H 0 st" "place H d st = Inr st'"
  shows "store_inv H 0 st' \<and> st_origin st' = st_origin st"
proof -
  let ?props = "[(''root_id'', PStr (doc_root d)), (''is_origin'', PInt 1)]"
  from assms(2) consider "st' = st" | "st' = st\<lparr> unplaced := Suc (unplaced st) \<rparr>"
    | "add_one H (dtext d ''collection_id'', doc_root d, ''contains'', ?props) True st = Inr st'"
    by (auto simp: place_def Let_def split: if_splits sum.splits)
  then show ?thesis
  proof cases
    case 2
    then have "same_core st st'" by (simp add: same_core_def)
    with assms(1) 2 show ?thesis using same_core_inv by auto
  next
    case 3
    have "text_props ?props" by (simp add: text_props_def dget_def)
    with add_one_inv [OF assms(1) _ _ 3] show ?thesis by simp
  qed (use assms(1) in simp)
qed

lemma place_succeeds: "\<exists>st'. place H d st = Inr st'"
  by (auto simp: place_def Let_def add_one_def write_edge_def dget_def st_allocate_def split: sum.splits)

text \<open>The part of \<open>_write_row\<close> that touches the core, before the sidecars and the placement.\<close>

definition row_core :: "hashlib \<Rightarrow> string \<Rightarrow> vrow \<Rightarrow> lattice \<Rightarrow> lattice" where
  "row_core H aid row st =
     (if map_of (vertices st) aid = None then bump c_vertex_total 1 (upsert_vertex H aid row st)
      else upsert_vertex H aid row st)"

lemma row_core_inv:
  assumes inv: "store_inv H p st" and fv: "fresh_version p (v_origin row) (v_seq row) st"
    and leaf: "v_leaf row = leaf_of H aid (st_leaves st)"
  shows "store_inv H 0 (row_core H aid row st)" "st_origin (row_core H aid row st) = st_origin st"
proof -
  show "st_origin (row_core H aid row st) = st_origin st"
    by (cases "map_of (vertices st) aid") (simp_all add: row_core_def upsert_vertex_def Let_def)
  show "store_inv H 0 (row_core H aid row st)"
  proof (cases "map_of (vertices st) aid")
    case None
    show ?thesis
      by (rule vertex_update_inv [OF inv fv, where aid = aid and row = row])
        (simp_all add: row_core_def upsert_vertex_def Let_def None leaf)
  next
    case (Some r)
    show ?thesis
      by (rule vertex_update_inv [OF inv fv, where aid = aid and row = row])
        (simp_all add: row_core_def upsert_vertex_def Let_def Some leaf ac_simps)
  qed
qed

lemma same_core_recount:
  "same_core (if old = None then bump c_vertex_total 1 st else st) (recount old new old_ct new_ct st)"
  unfolding recount_def by (rule same_core_deltas)

lemma vertex_row_fields:
  "vertex_row prev d origin n leaf = Inr row \<Longrightarrow>
   v_origin row = origin \<and> v_seq row = n \<and> v_doc row = d \<and> v_leaf row = leaf
   \<and> v_root_id row = (case prev of None \<Rightarrow> doc_root d | Some r \<Rightarrow> v_root_id r)"
  by (auto simp: vertex_row_def rbind_eq_Inr)

lemma write_row_effect:
  assumes w: "write_row H doc origin n st = Inr (d, st')"
  obtains row st2 where
    "vertex_row (map_of (vertices st) (dtext doc ''id'')) d origin n (leaf_of H (dtext doc ''id'') (st_leaves st)) = Inr row"
    "same_core (row_core H (dtext doc ''id'') row st) st2" "place H d st2 = Inr st'"
    "d = stored_doc (doc_of st (dtext doc ''id'')) doc origin n"
proof -
  define aid where "aid = dtext doc ''id''"
  define prev where "prev = map_of (vertices st) aid"
  define pdoc where "pdoc = map_option v_doc prev"
  from w obtain row st1 where
    row: "vertex_row prev d origin n (leaf_of H aid (st_leaves st)) = Inr row"
    and s1: "sync_task aid pdoc (Some d) (v_ct row)
       (recount pdoc d (case prev of None \<Rightarrow> None | Some r \<Rightarrow> v_ct r) (v_ct row) (upsert_vertex H aid row st)) = Inr st1"
    and pl: "place H d (index_lists aid (Some d) (v_ct row) (prev \<noteq> None) st1) = Inr st'"
    and d: "d = stored_doc pdoc doc origin n"
    unfolding write_row_def Let_def aid_def [symmetric] prev_def [symmetric] pdoc_def [symmetric]
    by (auto simp: rbind_eq_Inr)
  have "same_core (row_core H aid row st)
      (recount pdoc d (case prev of None \<Rightarrow> None | Some r \<Rightarrow> v_ct r) (v_ct row) (upsert_vertex H aid row st))"
    using same_core_recount [of pdoc "upsert_vertex H aid row st"] by (simp add: row_core_def pdoc_def prev_def)
  from same_core_trans [OF same_core_trans [OF this same_core_sync_task [OF s1]] same_core_index]
  show ?thesis using pl row d by (intro that) (simp_all add: aid_def prev_def pdoc_def doc_of_def)
qed

lemma write_row_inv:
  assumes inv: "store_inv H p st" and fv: "fresh_version p origin n st"
    and w: "write_row H doc origin n st = Inr (d, st')"
  shows "store_inv H 0 st' \<and> st_origin st' = st_origin st"
proof -
  from write_row_effect [OF w] obtain row st2 where
    row: "vertex_row (map_of (vertices st) (dtext doc ''id'')) d origin n (leaf_of H (dtext doc ''id'') (st_leaves st)) = Inr row"
    and sc: "same_core (row_core H (dtext doc ''id'') row st) st2" and pl: "place H d st2 = Inr st'" by metis
  from vertex_row_fields [OF row] have r: "v_origin row = origin" "v_seq row = n"
    "v_leaf row = leaf_of H (dtext doc ''id'') (st_leaves st)" by auto
  have "store_inv H 0 (row_core H (dtext doc ''id'') row st)"
    using row_core_inv(1) [OF inv _ r(3)] fv r by simp
  from place_inv [OF same_core_inv [OF sc this] pl] sc show ?thesis
    using row_core_inv(2) [OF inv _ r(3)] fv r by (simp add: same_core_def)
qed

section \<open>Whole puts\<close>

definition foreign_doc :: "lattice \<Rightarrow> doc \<Rightarrow> bool" where
  "foreign_doc st doc = (dget doc ''_origin'' \<noteq> PStr (st_origin st))"

lemma stamped_write_inv:
  assumes inv: "store_inv H 0 st" and fd: "stamp_rev \<or> foreign_doc st doc"
    and v: "version_for doc stamp_rev st = Inr ((origin, n), st1)"
    and w: "write_row H doc' origin n (if stamp_rev then st1 else st_observe origin n st1) = Inr (d, st')"
  shows "store_inv H 0 st' \<and> st_origin st' = st_origin st"
proof (cases stamp_rev)
  case True
  then have a: "st_allocate st = (n, st1)" "origin = st_origin st"
    using v by (auto simp: version_for_def split: prod.splits)
  from allocate_inv [OF inv a(1)] write_row_inv [of H 1 st1 origin n doc' d st'] w True a(2)
  show ?thesis by simp
next
  case False
  with v fd have f: "st1 = st" "origin \<noteq> []" "origin \<noteq> st_origin st"
    by (auto simp: version_for_def foreign_doc_def split: pyval.splits if_splits)
  have "store_inv H 0 (st_observe origin n st)" by (rule observe_inv [OF inv f(3)])
  moreover have "fresh_version 0 origin n (st_observe origin n st)" using f by (simp add: fresh_version_def)
  ultimately show ?thesis
    using write_row_inv [of H 0 "st_observe origin n st" origin n doc' d st'] w False f by simp
qed

lemma snapshot_inv:
  assumes inv: "store_inv H 0 st" and s: "snapshot_prior H aid prev st = Inr (sid, st')"
  shows "store_inv H 0 st' \<and> st_origin st' = st_origin st"
proof -
  from s consider "st' = st" | snap origin n st1 d where
      "version_for snap True st = Inr ((origin, n), st1)" "write_row H snap origin n st1 = Inr (d, st')"
    by (auto simp: snapshot_prior_def Let_def rbind_eq_Inr split: if_splits)
  then show ?thesis
  proof cases
    case 2
    with stamped_write_inv [OF inv _ 2(1), of snap d st'] show ?thesis by simp
  qed (use inv in simp)
qed

lemma cut_version_cases:
  assumes "cut_version H doc stamp_rev new_version st = Inr (doc1, st1)"
  obtains "doc1 = doc" "st1 = st"
    | prev sid v where "stamp_rev" "snapshot_prior H (dtext doc ''id'') prev st = Inr (sid, st1)"
        "doc1 = dset ''parent_id'' v doc"
proof -
  from assms have "(doc1 = doc \<and> st1 = st) \<or> (stamp_rev \<and> (\<exists>prev sid v.
      snapshot_prior H (dtext doc ''id'') prev st = Inr (sid, st1) \<and> doc1 = dset ''parent_id'' v doc))"
    unfolding cut_version_def
    by (simp split: if_split_asm option.split_asm) (auto simp: rbind_eq_Inr)
  with that show ?thesis by blast
qed

lemma put_artifact_inv:
  assumes inv: "store_inv H 0 st" and fd: "stamp_rev \<or> foreign_doc st doc"
    and p: "put_artifact H doc stamp_rev new_version st = Inr (d, st')"
  shows "store_inv H 0 st' \<and> st_origin st' = st_origin st"
proof -
  from p obtain doc1 st1 origin n st2 where
    cv: "cut_version H doc stamp_rev new_version st = Inr (doc1, st1)"
    and v: "version_for doc1 stamp_rev st1 = Inr ((origin, n), st2)"
    and w: "write_row H doc1 origin n (if stamp_rev then st2 else st_observe origin n st2) = Inr (d, st')"
    by (auto simp: put_artifact_def rbind_eq_Inr split: if_split_asm)
  from cv have "store_inv H 0 st1 \<and> st_origin st1 = st_origin st \<and> (stamp_rev \<or> foreign_doc st1 doc1)"
    by (rule cut_version_cases) (use inv fd snapshot_inv [OF inv] in auto)
  with stamped_write_inv [OF _ _ v w] show ?thesis by auto
qed

lemma put_one_inv:
  assumes inv: "store_inv H 0 st" and fd: "stamp_rev \<or> foreign_doc st doc"
    and p: "put_one H doc stamp_rev pol st = Inr st'"
  shows "store_inv H 0 st' \<and> st_origin st' = st_origin st"
proof -
  from p obtain origin n st1 where v: "version_for doc stamp_rev st = Inr ((origin, n), st1)"
    by (auto simp: put_one_def Let_def split: if_splits sum.splits)
  let ?st1 = "if stamp_rev then st1 else st_observe origin n st1"
  from p v consider (w) d where "write_row H doc origin n ?st1 = Inr (d, st')"
    | (keep) "\<not> stamp_rev" "st' = ?st1 \<or> st' = bump ''conflict:unordered'' 1 ?st1"
    by (auto simp: put_one_def Let_def split: if_splits sum.splits version_order.splits unordered_policy.splits)
  then show ?thesis
  proof cases
    case w
    with stamped_write_inv [OF inv fd v] show ?thesis by blast
  next
    case keep
    then have "st1 = st" "origin \<noteq> st_origin st"
      using v fd by (auto simp: version_for_def foreign_doc_def split: pyval.splits if_splits)
    with keep observe_inv [OF inv] show ?thesis by (auto simp: bump_inv)
  qed
qed

lemma put_chunk_loop_inv:
  "store_inv H 0 st \<Longrightarrow> stamp_rev \<or> list_all (foreign_doc st) ds \<Longrightarrow>
   put_chunk_loop H stamp_rev pol ds h k l st = (h', k', l', st') \<Longrightarrow>
   store_inv H 0 st' \<and> st_origin st' = st_origin st"
proof (induction ds arbitrary: h k l st)
  case (Cons d ds)
  show ?case
  proof (cases "put_one H d stamp_rev pol st")
    case (Inl e)
    with Cons show ?thesis by (cases e) auto
  next
    case (Inr s)
    have "store_inv H 0 s \<and> st_origin s = st_origin st"
      using put_one_inv [OF Cons.prems(1) _ Inr] Cons.prems(2) by auto
    then show ?thesis
      using Cons.IH [of s] Cons.prems Inr by (auto simp: foreign_doc_def list_all_iff)
  qed
qed simp

lemma put_chunks_inv:
  "store_inv H 0 st \<Longrightarrow> stamp_rev \<or> list_all (foreign_doc st) (concat cs) \<Longrightarrow>
   put_chunks H stamp_rev pol cs st = (r, st') \<Longrightarrow> store_inv H 0 st' \<and> st_origin st' = st_origin st"
proof (induction cs arbitrary: st r)
  case (Cons c cs)
  show ?case
  proof (cases "put_chunk H stamp_rev pol c st")
    case (Inl e)
    with Cons.prems show ?thesis by auto
  next
    case (Inr p)
    then obtain h s k l where p: "p = (h, s)" "put_chunk_loop H stamp_rev pol c 0 False False st = (h, k, l, s)"
      by (auto simp: put_chunk_def split: if_splits prod.splits)
    have s: "store_inv H 0 s \<and> st_origin s = st_origin st"
      using put_chunk_loop_inv [OF Cons.prems(1) _ p(2)] Cons.prems(2) by auto
    moreover have "stamp_rev \<or> list_all (foreign_doc s) (concat cs)"
      using Cons.prems(2) s by (auto simp: foreign_doc_def list_all_iff)
    ultimately show ?thesis
      using Cons.IH [of s] Cons.prems(3) Inr p by (auto split: prod.splits sum.splits)
  qed
qed simp

lemma put_many_inv:
  assumes "store_inv H 0 st" "stamp_rev \<or> list_all (foreign_doc st) ds"
    and "put_many H ds batch stamp_rev pol st = (r, st')"
  shows "store_inv H 0 st' \<and> st_origin st' = st_origin st"
  using put_chunks_inv [OF assms(1) _ assms(3) [unfolded put_many_def]] assms(2) by simp

section \<open>Edge batches\<close>

definition edge_in_ok :: "lattice \<Rightarrow> bool \<Rightarrow> edge_in \<Rightarrow> bool" where
  "edge_in_ok st stamp_rev e =
     (case e of (_, _, _, props) \<Rightarrow> text_props props \<and> (stamp_rev \<or> foreign_props st props))"

lemma add_chunk_loop_inv:
  "store_inv H 0 st \<Longrightarrow> list_all (edge_in_ok st stamp_rev) es \<Longrightarrow>
   add_chunk_loop H stamp_rev es h k l st = (h', k', l', st') \<Longrightarrow>
   store_inv H 0 st' \<and> st_origin st' = st_origin st"
proof (induction es arbitrary: h k l st)
  case (Cons e es)
  obtain s d lb props where e: "e = (s, d, lb, props)" by (cases e) auto
  have ok: "text_props props" "stamp_rev \<or> foreign_props st props"
    using Cons.prems(2) by (simp_all add: e edge_in_ok_def)
  show ?case
  proof (cases "add_one H e stamp_rev st")
    case (Inl x)
    with Cons show ?thesis by (cases x) auto
  next
    case (Inr s1)
    have s1: "store_inv H 0 s1 \<and> st_origin s1 = st_origin st"
      using add_one_inv [OF Cons.prems(1) ok] Inr by (simp add: e)
    moreover have "list_all (edge_in_ok s1 stamp_rev) es"
      using Cons.prems(2) s1 by (auto simp: list_all_iff edge_in_ok_def foreign_props_def)
    ultimately show ?thesis using Cons.IH [of s1] Cons.prems(3) Inr by auto
  qed
qed simp

lemma add_chunks_inv:
  "store_inv H 0 st \<Longrightarrow> list_all (edge_in_ok st stamp_rev) (concat cs) \<Longrightarrow>
   add_chunks H stamp_rev cs st = (r, st') \<Longrightarrow> store_inv H 0 st' \<and> st_origin st' = st_origin st"
proof (induction cs arbitrary: st r)
  case (Cons c cs)
  show ?case
  proof (cases "add_chunk H stamp_rev c st")
    case (Inl e)
    with Cons.prems show ?thesis by auto
  next
    case (Inr p)
    then obtain h s k l where p: "p = (h, s)" "add_chunk_loop H stamp_rev c 0 False False st = (h, k, l, s)"
      by (auto simp: add_chunk_def split: if_splits prod.splits)
    have s: "store_inv H 0 s \<and> st_origin s = st_origin st"
      using add_chunk_loop_inv [OF Cons.prems(1) _ p(2)] Cons.prems(2) by auto
    moreover have "list_all (edge_in_ok s stamp_rev) (concat cs)"
      using Cons.prems(2) s by (auto simp: list_all_iff edge_in_ok_def foreign_props_def)
    ultimately show ?thesis
      using Cons.IH [of s] Cons.prems(3) Inr p by (auto split: prod.splits sum.splits)
  qed
qed simp

lemma add_edges_inv:
  assumes "store_inv H 0 st" "list_all (edge_in_ok st stamp_rev) es" "add_edges H batch stamp_rev es st = (r, st')"
  shows "store_inv H 0 st' \<and> st_origin st' = st_origin st"
  using add_chunks_inv [OF assms(1) _ assms(3) [unfolded add_edges_def]] assms(2) by simp

section \<open>Deletes\<close>

lemma seqs_delete:
  assumes "seqs_ok 0 st" "\<And>u x. seq_of st' u = Some x \<Longrightarrow> seq_of st u = Some x"
    and "seq_counter st' = seq_counter st" "st_origin st' = st_origin st"
  shows "seqs_ok 0 st'"
proof -
  have "hw st' = hw st" by (simp add: hw_def assms)
  with assms show ?thesis unfolding seqs_ok_def by (metis assms(2))
qed

lemma map_of_deleteD: "map_of (AList.delete k al) u = Some x \<Longrightarrow> map_of al u = Some x"
  by (auto split: if_splits)

lemma retire_row_inv:
  assumes inv: "store_inv H 0 st" and m: "map_of (edges st) key = Some r"
    and res: "retire_edge_row H key (e_label r) r st = (b, st')"
  shows "store_inv H 0 st'" "st_origin st' = st_origin st" "edges st' = AList.delete key (edges st)"
proof -
  have e: "edges st' = AList.delete key (edges st)"
    and same: "vertices st' = vertices st" "seq_counter st' = seq_counter st" "st_origin st' = st_origin st"
      "st_leaves st' = st_leaves st"
    and c: "\<And>n. counter st' n = counter st n + (if n = c_edge_total then - 1 else 0)
       + (if n = c_edge_label (e_label r) then - 1 else 0) + vac_move (e_origin r) n"
    and dg: "\<And>n. leaf_digest st' n = leaf_digest st n XOR
       (if n = leaf_of H (hex_text key) (st_leaves st) then edge_hash H key (edge_row_content r) else 0)"
    using res by (auto simp: retire_edge_row_def Let_def m)
  show "edges st' = AList.delete key (edges st)" "st_origin st' = st_origin st" by (fact e, fact same)
  have dk: "distinct (map fst (edges st))" using inv by (simp add: store_inv_def keys_ok_def)
  note ct = cnt.total_delete [OF dk m] and dt = dig.total_delete [OF dk m]
  have hw: "hw st' = hw st" by (simp add: hw_def same)
  have "keys_ok st'" using inv by (simp add: store_inv_def keys_ok_def e same)
  moreover have "counts_ok st'" using inv by (auto simp: store_inv_def counts_ok_def e same c ct)
  moreover have lr: "live_rows st' a = live_rows st a - of_bool (e_origin r = a)" for a
    by (simp add: live_rows_def e same ct)
  moreover have "rows_ok st'" using inv by (auto simp: store_inv_def rows_ok_def lr c)
  moreover have "balance_ok 0 st'" using inv by (auto simp: store_inv_def balance_ok_def c same hw)
  moreover have "seqs_ok 0 st'"
    by (rule seqs_delete [of st]) (use inv in \<open>auto simp: store_inv_def seq_of_def e same split: sum.splits if_splits\<close>)
  moreover have "leaves_ok H st'"
    using inv by (auto simp: store_inv_def leaves_ok_def e same AList.delete_eq)
  moreover have "e_leaf r = leaf_of H (hex_text key) (st_leaves st)"
    using inv map_of_SomeD [OF m] by (auto simp: store_inv_def leaves_ok_def)
  then have "digest_ok H st'"
    using inv by (auto simp: store_inv_def digest_ok_def dg e same dt ac_simps)
  ultimately show "store_inv H 0 st'" by (simp add: store_inv_def)
qed

text \<open>Retiring a list of rows read from the table beforehand.\<close>

definition retire_rows :: "hashlib \<Rightarrow> (string \<times> erow) list \<Rightarrow> nat \<times> lattice \<Rightarrow> nat \<times> lattice" where
  "retire_rows H rows p = fold (\<lambda>(key, r) (gone, st).
     case retire_edge_row H key (e_label r) r st of (done, st') \<Rightarrow> (if done then Suc gone else gone, st')) rows p"

lemma retire_edges_touching_rows:
  "retire_edges_touching H node st = retire_rows H (filter (\<lambda>(_, r). e_src r = node \<or> e_dst r = node) (edges st)) (0, st)"
  by (simp add: retire_edges_touching_def retire_rows_def)

lemma retire_rows_inv:
  assumes "store_inv H 0 st" "distinct (map fst rows)" "\<And>k r. (k, r) \<in> set rows \<Longrightarrow> map_of (edges st) k = Some r"
    and "retire_rows H rows (g, st) = (g', st')"
  shows "store_inv H 0 st' \<and> st_origin st' = st_origin st
    \<and> edges st' = filter (\<lambda>(k, _). k \<notin> fst ` set rows) (edges st)"
  using assms
proof (induction rows arbitrary: g st)
  case Nil
  then show ?case by (simp add: retire_rows_def)
next
  case (Cons p rows)
  obtain k r where p: "p = (k, r)" by (cases p)
  obtain b s1 where r1: "retire_edge_row H k (e_label r) r st = (b, s1)" by fastforce
  have m: "map_of (edges st) k = Some r" using Cons.prems(3) by (simp add: p)
  note s1 = retire_row_inv [OF Cons.prems(1) m r1]
  have "map_of (edges s1) k' = Some r'" if "(k', r') \<in> set rows" for k' r'
  proof -
    have "k' \<noteq> k" using that Cons.prems(2) by (force simp: p)
    with Cons.prems(3) [of k' r'] that show ?thesis by (simp add: s1(3))
  qed
  moreover obtain g1 where "retire_rows H rows (g1, s1) = (g', st')"
    using Cons.prems(4) r1 by (auto simp: retire_rows_def p)
  ultimately have "store_inv H 0 st' \<and> st_origin st' = st_origin s1
      \<and> edges st' = filter (\<lambda>(k, _). k \<notin> fst ` set rows) (edges s1)"
    using Cons.IH [OF s1(1)] Cons.prems(2) by (simp add: p)
  then show ?case
    by (simp add: s1 p AList.delete_eq) (rule filter_cong, auto)
qed

lemma retire_touching_inv:
  assumes inv: "store_inv H 0 st" and r: "retire_edges_touching H node st = (g, st')"
  shows "store_inv H 0 st' \<and> st_origin st' = st_origin st
    \<and> edges st' = filter (\<lambda>(_, r). e_src r \<noteq> node \<and> e_dst r \<noteq> node) (edges st)"
proof -
  let ?rows = "filter (\<lambda>(_, r). e_src r = node \<or> e_dst r = node) (edges st)"
  have dk: "distinct (map fst (edges st))" using inv by (simp add: store_inv_def keys_ok_def)
  then have "distinct (map fst ?rows)" by (rule distinct_map_filter)
  moreover have "map_of (edges st) k = Some r" if "(k, r) \<in> set ?rows" for k r
    using that dk by simp
  ultimately have *: "store_inv H 0 st' \<and> st_origin st' = st_origin st
      \<and> edges st' = filter (\<lambda>(k, _). k \<notin> fst ` set ?rows) (edges st)"
    using retire_rows_inv [OF inv] r unfolding retire_edges_touching_rows by blast
  moreover have "filter (\<lambda>(k, _). k \<notin> fst ` set ?rows) (edges st)
      = filter (\<lambda>(_, r). e_src r \<noteq> node \<and> e_dst r \<noteq> node) (edges st)"
    using dk by (intro filter_cong) (auto simp: image_iff dest: eq_key_imp_eq_value)
  ultimately show ?thesis by simp
qed

lemma delete_edge_inv:
  assumes inv: "store_inv H 0 st" and d: "delete_edge H s d l st = (b, st')"
    and lab: "\<And>r. map_of (edges st) (edge_key H s d l) = Some r \<Longrightarrow> e_label r = l"
  shows "store_inv H 0 st' \<and> st_origin st' = st_origin st"
proof (cases "map_of (edges st) (edge_key H s d l)")
  case None
  with d inv show ?thesis by (simp add: delete_edge_def Let_def)
next
  case (Some r)
  with d lab have "retire_edge_row H (edge_key H s d l) (e_label r) r st = (b, st')"
    by (simp add: delete_edge_def Let_def)
  from retire_row_inv [OF inv Some this] show ?thesis by simp
qed

lemma distinct_map_filter_fst: "distinct (map fst al) \<Longrightarrow> distinct (map fst (filter p al))"
  by (rule distinct_map_filter)

section \<open>Deleting a vertex\<close>

lemma retire_row_vertices:
  "retire_edge_row H k l r (st\<lparr> vertices := V \<rparr>)
     = (fst (retire_edge_row H k l r st), (snd (retire_edge_row H k l r st))\<lparr> vertices := V \<rparr>)"
  by (simp add: retire_edge_row_def Let_def bump_def vacate_def xor_leaf_def)

lemma retire_rows_vertices:
  "retire_rows H rows (g, st\<lparr> vertices := V \<rparr>)
     = (fst (retire_rows H rows (g, st)), (snd (retire_rows H rows (g, st)))\<lparr> vertices := V \<rparr>)"
  unfolding retire_rows_def
  by (induction rows arbitrary: g st) (auto simp: retire_row_vertices split: prod.splits)

lemma retire_rows_same_vertices: "vertices (snd (retire_rows H rows (g, st))) = vertices st"
proof -
  have "vertices (snd (retire_edge_row H k l r st)) = vertices st" for k l r st
    by (simp add: retire_edge_row_def Let_def)
  then show ?thesis
    unfolding retire_rows_def
    by (induction rows arbitrary: g st) (auto split: prod.splits, metis snd_conv)
qed

lemma vertex_delete_core_inv:
  assumes inv: "store_inv H 0 st" and m: "map_of (vertices st) aid = Some r"
  defines "st' \<equiv> vacate (v_origin r) (bump c_vertex_total (- 1)
     (xor_leaf (v_leaf r) (row_hash H aid (v_seq r)) (st\<lparr> vertices := AList.delete aid (vertices st) \<rparr>)))"
  shows "store_inv H 0 st'"
proof -
  have e: "vertices st' = AList.delete aid (vertices st)"
    and same: "edges st' = edges st" "seq_counter st' = seq_counter st" "st_origin st' = st_origin st"
      "st_leaves st' = st_leaves st"
    and c: "\<And>n. counter st' n = counter st n + (if n = c_vertex_total then - 1 else 0) + vac_move (v_origin r) n"
    and dg: "\<And>n. leaf_digest st' n = leaf_digest st n XOR (if n = v_leaf r then row_hash H aid (v_seq r) else 0)"
    by (simp_all add: st'_def)
  have dk: "distinct (map fst (vertices st))" using inv by (simp add: store_inv_def keys_ok_def)
  note ct = cnt.total_delete [OF dk m] and dt = dig.total_delete [OF dk m]
  have hw: "hw st' = hw st" by (simp add: hw_def same)
  have "keys_ok st'" using inv by (simp add: store_inv_def keys_ok_def e same)
  moreover have "counts_ok st'" using inv by (auto simp: store_inv_def counts_ok_def e same c ct)
  moreover have lr: "live_rows st' a = live_rows st a - of_bool (v_origin r = a)" for a
    by (simp add: live_rows_def e same ct)
  moreover have "rows_ok st'" using inv by (auto simp: store_inv_def rows_ok_def lr c)
  moreover have "balance_ok 0 st'" using inv by (auto simp: store_inv_def balance_ok_def c same hw)
  moreover have "seqs_ok 0 st'"
    by (rule seqs_delete [of st]) (use inv in \<open>auto simp: store_inv_def seq_of_def e same split: sum.splits if_splits\<close>)
  moreover have "leaves_ok H st'"
    using inv by (auto simp: store_inv_def leaves_ok_def e same AList.delete_eq)
  moreover have "digest_ok H st'"
    using inv by (auto simp: store_inv_def digest_ok_def dg e same dt ac_simps)
  ultimately show ?thesis by (simp add: store_inv_def)
qed

lemma same_core_demand: "same_core st (st\<lparr> demand := x \<rparr>)"
  by (simp add: same_core_def)

lemma sync_task_delete_ok: "\<exists>st'. sync_task aid old None ct st = Inr st'"
  by (cases ct) (simp_all add: sync_task_def Let_def)

lemma delete_artifact_effect:
  assumes inv: "store_inv H 0 st" and m: "map_of (vertices st) aid = Some r"
  obtains s1 st2 st' where "delete_artifact H aid st = Inr st'"
    "retire_edges_touching H aid st = (fst (retire_edges_touching H aid st), s1)" "store_inv H 0 s1"
    "vertices s1 = vertices st" "st_origin s1 = st_origin st"
    "edges s1 = filter (\<lambda>(_, r). e_src r \<noteq> aid \<and> e_dst r \<noteq> aid) (edges st)"
    "st2 = vacate (v_origin r) (bump c_vertex_total (- 1)
       (xor_leaf (v_leaf r) (row_hash H aid (v_seq r)) (s1\<lparr> vertices := AList.delete aid (vertices s1) \<rparr>)))"
    "same_core st2 st'"
proof -
  let ?V = "AList.delete aid (vertices st)"
  obtain g s1 where rt: "retire_edges_touching H aid st = (g, s1)" by fastforce
  note i1 = retire_touching_inv [OF inv rt]
  have v1: "vertices s1 = vertices st"
    using retire_rows_same_vertices rt unfolding retire_edges_touching_rows by (metis snd_conv)
  have cm: "snd (retire_edges_touching H aid (st\<lparr> vertices := ?V \<rparr>)) = s1\<lparr> vertices := ?V \<rparr>"
    using rt unfolding retire_edges_touching_rows by (simp add: retire_rows_vertices)
  define st2 where "st2 = vacate (v_origin r) (bump c_vertex_total (- 1)
       (xor_leaf (v_leaf r) (row_hash H aid (v_seq r)) (s1\<lparr> vertices := AList.delete aid (vertices s1) \<rparr>)))"
  define st3 where "st3 = bump_all (counter_deltas (Some (v_doc r)) None (v_ct r) None) st2"
  obtain st4 where s4: "sync_task aid (Some (v_doc r)) None (v_ct r) st3 = Inr st4"
    using sync_task_delete_ok by blast
  define st5 where "st5 = index_lists aid None (v_ct r) True st4"
  define st6 where "st6 = st5\<lparr> demand := filter (\<lambda>(i, _). i \<noteq> aid) (demand st5) \<rparr>"
  have "delete_artifact H aid st = Inr st6"
    using s4 by (simp add: delete_artifact_def delete_artifact_full_def m Let_def cm v1 st2_def st3_def st5_def st6_def)
  moreover have "same_core st2 st6"
  proof -
    have "same_core st2 st3" unfolding st3_def by (rule same_core_deltas)
    also have "same_core st3 st4" by (rule same_core_sync_task [OF s4])
    also have "same_core st4 st5" unfolding st5_def by (rule same_core_index)
    also have "same_core st5 st6" unfolding st6_def by (rule same_core_demand)
    finally show ?thesis .
  qed
  ultimately show ?thesis using that [of st6 s1 st2] rt i1 v1 st2_def by simp
qed

lemma delete_artifact_inv:
  assumes inv: "store_inv H 0 st" and d: "delete_artifact H aid st = Inr st'"
  shows "store_inv H 0 st' \<and> st_origin st' = st_origin st"
proof (cases "map_of (vertices st) aid")
  case None
  with d have "st' = st\<lparr> demand := filter (\<lambda>(i, _). i \<noteq> aid) (demand st) \<rparr>"
    by (simp add: delete_artifact_def delete_artifact_full_def)
  with inv same_core_inv [OF same_core_demand] show ?thesis by simp
next
  case (Some r)
  from delete_artifact_effect [OF inv Some] obtain s1 st2 where
    s: "store_inv H 0 s1" "vertices s1 = vertices st" "st_origin s1 = st_origin st"
    and st2: "st2 = vacate (v_origin r) (bump c_vertex_total (- 1)
       (xor_leaf (v_leaf r) (row_hash H aid (v_seq r)) (s1\<lparr> vertices := AList.delete aid (vertices s1) \<rparr>)))"
    and sc: "same_core st2 st'"
    using d by (metis Inr_inject)
  have "store_inv H 0 st2" unfolding st2 by (rule vertex_delete_core_inv) (simp_all add: s Some)
  from same_core_inv [OF sc this] sc s show ?thesis by (simp add: same_core_def st2)
qed

end
