(* ===== verification/Store.thy ===== *)
theory Store
  imports Store_Inv
begin

text \<open>
  What the lattice store promises, over every sequence of its writes: \<open>store_reach\<close> is the step
  relation of the store from an empty file (local puts, bulk puts, mesh consumption of documents and
  edges of other origins, edge writes, and accounted deletes), and the invariant of \<open>Store_Inv\<close> holds
  in every reachable state. The interface a client of the store relies on, a keyed table that a put
  changes at one id, is the locale \<open>keyed_store\<close>, interpreted on \<open>put_artifact\<close>.
\<close>

section \<open>The step relation\<close>

inductive store_reach :: "hashlib \<Rightarrow> string \<Rightarrow> nat \<Rightarrow> lattice \<Rightarrow> bool" for H origin leaves where
  reach_init: "origin \<noteq> [] \<Longrightarrow> store_reach H origin leaves (empty_lattice origin leaves)"
| reach_put: "store_reach H origin leaves st \<Longrightarrow> put_artifact H doc True new_version st = Inr (d, st')
    \<Longrightarrow> store_reach H origin leaves st'"
| reach_put_many: "store_reach H origin leaves st \<Longrightarrow> put_many H docs batch True pol st = (r, st')
    \<Longrightarrow> store_reach H origin leaves st'"
| reach_consume: "store_reach H origin leaves st \<Longrightarrow> list_all (foreign_doc st) docs
    \<Longrightarrow> put_many H docs batch False pol st = (r, st') \<Longrightarrow> store_reach H origin leaves st'"
| reach_edges: "store_reach H origin leaves st \<Longrightarrow> list_all (edge_in_ok st stamp_rev) es
    \<Longrightarrow> add_edges H batch stamp_rev es st = (r, st') \<Longrightarrow> store_reach H origin leaves st'"
| reach_delete_edge: "store_reach H origin leaves st
    \<Longrightarrow> (\<And>row. map_of (edges st) (edge_key H s d l) = Some row \<Longrightarrow> e_label row = l)
    \<Longrightarrow> delete_edge H s d l st = (b, st') \<Longrightarrow> store_reach H origin leaves st'"
| reach_delete: "store_reach H origin leaves st \<Longrightarrow> delete_artifact H aid st = Inr st'
    \<Longrightarrow> store_reach H origin leaves st'"

inductive_cases reach_cases: "store_reach H origin leaves st"

lemma reach_inv: "store_reach H origin leaves st \<Longrightarrow> store_inv H 0 st \<and> st_origin st = origin"
proof (induction rule: store_reach.induct)
  case reach_init
  then show ?case by (simp add: store_inv_empty) (simp add: empty_lattice_def)
next
  case (reach_put st doc new_version d st')
  then show ?case using put_artifact_inv [of H st True doc new_version d st'] by simp
next
  case (reach_put_many st docs batch pol r st')
  then show ?case using put_many_inv [of H st True docs batch pol r st'] by simp
next
  case (reach_consume st docs batch pol r st')
  then show ?case using put_many_inv [of H st False docs batch pol r st'] by simp
next
  case (reach_edges st stamp_rev es batch r st')
  then show ?case using add_edges_inv [of H st stamp_rev es batch r st'] by simp
next
  case (reach_delete_edge st s d l b st')
  then show ?case using delete_edge_inv [of H st s d l b st'] by simp
next
  case (reach_delete st aid st')
  then show ?case using delete_artifact_inv [of H st aid st'] by simp
qed

section \<open>Accounting by scan\<close>

lemma total_one: "cnt.total (\<lambda>_ _. 1) al = int (length al)"
  by (induction al) auto

lemma total_count: "cnt.total (\<lambda>_ r. of_bool (p r)) al = int (length (filter (p \<circ> snd) al))"
  by (induction al) auto

lemma distinct_seqs:
  assumes "distinct (map fst al)" "\<And>k r k' r'. map_of al k = Some r \<Longrightarrow> p r \<Longrightarrow> map_of al k' = Some r' \<Longrightarrow> p r'
      \<Longrightarrow> sel r = sel r' \<Longrightarrow> k = k'"
  shows "distinct (map (sel \<circ> snd) (filter (\<lambda>(_, r). p r) al))"
proof -
  have "inj_on (sel \<circ> snd) (set (filter (\<lambda>(_, r). p r) al))"
  proof (rule inj_onI)
    fix x y
    assume x: "x \<in> set (filter (\<lambda>(_, r). p r) al)" and y: "y \<in> set (filter (\<lambda>(_, r). p r) al)"
      and eq: "(sel \<circ> snd) x = (sel \<circ> snd) y"
    obtain k r k' r' where xy: "x = (k, r)" "y = (k', r')" by (cases x; cases y) auto
    have "map_of al k = Some r" "map_of al k' = Some r'" "p r" "p r'" "sel r = sel r'"
      using x y eq assms(1) by (auto simp: xy)
    with assms(2) have "k = k'" by blast
    with \<open>map_of al k = Some r\<close> \<open>map_of al k' = Some r'\<close> show "x = y" by (simp add: xy)
  qed
  moreover have "distinct al" using assms(1) by (simp add: distinct_map)
  ultimately show ?thesis by (simp add: distinct_map)
qed

lemma scan_live_rows:
  assumes "store_inv H 0 st"
  shows "int (card (set (origin_seqs st (st_origin st)))) = live_rows st (st_origin st)"
proof -
  let ?o = "st_origin st"
  have k: "distinct (map fst (vertices st))" "distinct (map fst (edges st))"
    using assms by (simp_all add: store_inv_def keys_ok_def)
  have inj: "t = t'" if "seq_of st t = Some (?o, n)" "seq_of st t' = Some (?o, n)" for t t' n
    using assms that by (auto simp: store_inv_def seqs_ok_def)
  have dv: "distinct (map (v_seq \<circ> snd) (filter (\<lambda>(_, r). v_origin r = ?o) (vertices st)))"
    by (rule distinct_seqs [OF k(1)])
      (use inj [of "Inl _" _ "Inl _"] in \<open>force simp: seq_of_def\<close>)
  have de: "distinct (map (e_seq \<circ> snd) (filter (\<lambda>(_, r). e_origin r = ?o) (edges st)))"
    by (rule distinct_seqs [OF k(2)])
      (use inj [of "Inr _" _ "Inr _"] in \<open>force simp: seq_of_def\<close>)
  have disj: "v_seq r \<noteq> e_seq r'"
    if "(a, r) \<in> set (vertices st)" "v_origin r = ?o" "(b, r') \<in> set (edges st)" "e_origin r' = ?o" for a r b r'
    using inj [of "Inl a" "v_seq r" "Inr b"] that k by (auto simp: seq_of_def)
  then have "distinct (origin_seqs st ?o)"
    using dv de by (auto simp: origin_seqs_def)
  then have "int (card (set (origin_seqs st ?o))) = int (length (origin_seqs st ?o))"
    by (simp add: distinct_card)
  also have "\<dots> = live_rows st ?o"
    by (simp add: origin_seqs_def live_rows_def total_count comp_def case_prod_beta')
  finally show ?thesis .
qed

section \<open>Correctness\<close>


text \<open>A document that the columns can hold: an id, text or null in the projected columns, no task status.\<close>

definition plain_doc :: "doc \<Rightarrow> bool" where
  "plain_doc doc = (dtext doc ''id'' \<noteq> [] \<and> dtext doc ''status'' = []
     \<and> list_all (\<lambda>k. dget doc k = PNone \<or> (\<exists>s. dget doc k = PStr s)) [''content_type'', ''content_ref'', ''created_by''])"

lemma dget_stored_doc:
  "k \<notin> {''_seq'', ''_origin'', ''created_time'', TIME_CLAIM_KEY} \<Longrightarrow> dget (stored_doc p doc origin n) k = dget doc k"
  by (auto simp: stored_doc_def carry_time_def attribute_time_def Let_def split: option.splits)

lemma write_row_succeeds:
  assumes "plain_doc doc"
  shows "\<exists>d st'. write_row H doc origin n st = Inr (d, st')"
proof -
  define prev where "prev = map_of (vertices st) (dtext doc ''id'')"
  define d where "d = stored_doc (map_option v_doc prev) doc origin n"
  have same: "dget d k = dget doc k" if "k \<in> {''content_type'', ''content_ref'', ''created_by'', ''status'', ''id''}" for k
    using that dget_stored_doc by (auto simp: d_def TIME_CLAIM_KEY_def)
  have "\<exists>row. vertex_row prev d origin n leaf = Inr row" for leaf
    using assms by (auto simp: vertex_row_def plain_doc_def same bind_col_def rbind_eq_Inr)
  then obtain row where row: "vertex_row prev d origin n (leaf_of H (dtext doc ''id'') (st_leaves st)) = Inr row" by blast
  have stat: "doc_status (Some d) = []" using assms by (simp add: doc_status_def dtext_def same plain_doc_def)
  have "\<exists>st'. sync_task aid old (Some d) ct s = Inr st'" for aid old ct s
    by (cases ct) (simp_all add: sync_task_def Let_def stat)
  then obtain s1 where s1: "sync_task (dtext doc ''id'') (map_option v_doc prev) (Some d) (v_ct row)
      (recount (map_option v_doc prev) d (case prev of None \<Rightarrow> None | Some r \<Rightarrow> v_ct r) (v_ct row)
         (upsert_vertex H (dtext doc ''id'') row st)) = Inr s1" by blast
  obtain s2 where "place H d (index_lists (dtext doc ''id'') (Some d) (v_ct row) (prev \<noteq> None) s1) = Inr s2"
    using place_succeeds by blast
  with row s1 show ?thesis
    by (simp add: write_row_def Let_def prev_def [symmetric] d_def [symmetric])
qed

lemma place_same_vertices: "place H d st = Inr st' \<Longrightarrow> vertices st' = vertices st"
proof -
  have w: "vertices st' = vertices st" if "write_edge H a b l ps o' n st = Inr st'" for a b l ps o' n st st'
    using that by (auto simp: write_edge_def Let_def rbind_eq_Inr split: option.splits)
  assume "place H d st = Inr st'"
  then show ?thesis
    by (auto simp: place_def Let_def add_one_def st_allocate_def dest!: w split: if_splits sum.splits)
qed

lemma row_core_vertices: "vertices (row_core H aid row st) = AList.update aid row (vertices st)"
  by (auto simp: row_core_def upsert_vertex_def Let_def split: option.splits)

lemma write_row_vertices:
  assumes "write_row H doc origin n st = Inr (d, st')"
  obtains row where "vertices st' = AList.update (dtext doc ''id'') row (vertices st)" "v_doc row = d"
    "v_origin row = origin" "v_seq row = n" "bind_col (dget d ''content_type'') = Inr (v_ct row)"
    "d = stored_doc (doc_of st (dtext doc ''id'')) doc origin n"
proof -
  from write_row_effect [OF assms] obtain row st2 where
    row: "vertex_row (map_of (vertices st) (dtext doc ''id'')) d origin n (leaf_of H (dtext doc ''id'') (st_leaves st)) = Inr row"
    and sc: "same_core (row_core H (dtext doc ''id'') row st) st2" and pl: "place H d st2 = Inr st'"
    and d: "d = stored_doc (doc_of st (dtext doc ''id'')) doc origin n" by metis
  from vertex_row_fields [OF row] have "v_doc row = d" "v_origin row = origin" "v_seq row = n" by auto
  moreover have "vertices st' = AList.update (dtext doc ''id'') row (vertices st)"
    using place_same_vertices [OF pl] sc by (simp add: same_core_def row_core_vertices)
  moreover have "bind_col (dget d ''content_type'') = Inr (v_ct row)"
    using row by (auto simp: vertex_row_def rbind_eq_Inr)
  ultimately show ?thesis using that d by blast
qed

text \<open>A plain put that names no new content: the version step leaves the document alone.\<close>

lemma put_plain:
  assumes "plain_doc doc" "\<not> truthy (dget doc ''content_ref'')"
  obtains d st' where "put_artifact H doc True False st = Inr (d, st')"
proof -
  obtain n st1 where a: "st_allocate st = (n, st1)" by fastforce
  obtain d st' where "write_row H doc (st_origin st) n st1 = Inr (d, st')"
    using write_row_succeeds [OF assms(1)] by blast
  with assms a have "put_artifact H doc True False st = Inr (d, st')"
    by (simp add: put_artifact_def plain_doc_def cut_version_def version_for_def)
  then show ?thesis by (rule that)
qed

definition sample_H :: hashlib where
  "sample_H = \<lparr> blake8 = (\<lambda>s. of_nat (Suc (length s))), blake16 = (\<lambda>s. s) \<rparr>"

lemma sample_reach:
  "\<exists>st. store_reach sample_H ''o'' 4 st \<and> doc_of st ''c'' \<noteq> None"
proof -
  obtain d st where p: "put_artifact sample_H [(''id'', PStr ''c'')] True False (empty_lattice ''o'' 4) = Inr (d, st)"
    by (rule put_plain [of "[(''id'', PStr ''c'')]"]) (simp_all add: plain_doc_def dtext_def dget_def)
  have "store_reach sample_H ''o'' 4 st"
    by (rule reach_put [OF reach_init p]) simp
  moreover from p obtain origin n st1 where "write_row sample_H [(''id'', PStr ''c'')] origin n st1 = Inr (d, st)"
    by (auto simp: put_artifact_def cut_version_def version_for_def dget_def dtext_def split: prod.splits)
  then have "doc_of st ''c'' \<noteq> None"
    by (rule write_row_vertices) (simp add: doc_of_def dtext_def dget_def)
  ultimately show ?thesis by blast
qed




text \<open>What a merkle leaf digest should be, recomputed from the rows: the XOR of the hashes of the vertices
  and edges whose id falls on the leaf.\<close>

definition leaf_spec :: "hashlib \<Rightarrow> lattice \<Rightarrow> nat \<Rightarrow> 64 word" where
  "leaf_spec H st leaf =
     foldr (\<lambda>(aid, r) acc. (if leaf_of H aid (st_leaves st) = leaf then row_hash H aid (v_seq r) else 0) XOR acc)
       (vertices st) 0
     XOR foldr (\<lambda>(key, r) acc. (if leaf_of H (hex_text key) (st_leaves st) = leaf
                                 then edge_hash H key (edge_row_content r) else 0) XOR acc) (edges st) 0"

lemma dig_total_foldr:
  "(\<And>k r. (k, r) \<in> set al \<Longrightarrow> f k r = g k r) \<Longrightarrow> dig.total f al = foldr (\<lambda>(k, r) acc. g k r XOR acc) al 0"
  by (induction al) auto

text \<open>(C2) The incremental merkle tree is exact: in every reachable state each leaf digest equals the XOR of
  the row hashes on that leaf, recomputed from the tables. Updates, snapshots, replays and deletes
  never strand a contribution.\<close>

theorem merkle_digest_exact:
  assumes "store_reach H origin leaves st"
  shows "leaf_digest st leaf = leaf_spec H st leaf"
proof -
  have inv: "leaves_ok H st" "digest_ok H st" using reach_inv [OF assms] by (simp_all add: store_inv_def)
  then have "dig.total (\<lambda>aid r. if v_leaf r = leaf then row_hash H aid (v_seq r) else 0) (vertices st)
      = foldr (\<lambda>(aid, r) acc. (if leaf_of H aid (st_leaves st) = leaf then row_hash H aid (v_seq r) else 0) XOR acc) (vertices st) 0"
    by (intro dig_total_foldr) (auto simp: leaves_ok_def)
  moreover have "dig.total (\<lambda>key r. if e_leaf r = leaf then edge_hash H key (edge_row_content r) else 0) (edges st)
      = foldr (\<lambda>(key, r) acc. (if leaf_of H (hex_text key) (st_leaves st) = leaf
                then edge_hash H key (edge_row_content r) else 0) XOR acc) (edges st) 0"
    using inv by (intro dig_total_foldr) (auto simp: leaves_ok_def)
  ultimately show ?thesis using inv(2) by (simp add: digest_ok_def leaf_spec_def)
qed

theorem merkle_digest_exact_witness: "\<exists>st. doc_of st ''c'' \<noteq> None \<and> leaf_digest st 0 = leaf_spec sample_H st 0"
  using sample_reach merkle_digest_exact by blast

text \<open>The counters answer \<open>how many\<close> without a scan and without drift: in every reachable state the
  vertex total, the edge total and the per-relation extents equal the sizes of the tables.\<close>

theorem counters_exact:
  assumes "store_reach H origin leaves st"
  shows "count_vertices st None = int (length (vertices st))
    \<and> counter_of st c_edge_total = int (length (edges st))
    \<and> counter_of st (c_edge_label l) = int (length (filter (\<lambda>(_, r). e_label r = l) (edges st)))"
  using reach_inv [OF assms]
  by (simp add: store_inv_def counts_ok_def count_vertices_def counter_of_def total_one total_count comp_def
      case_prod_beta')

theorem counters_exact_witness: "\<exists>st. doc_of st ''c'' \<noteq> None \<and> count_vertices st None = int (length (vertices st))"
  using sample_reach counters_exact by blast

section \<open>What one put does\<close>

lemma doc_root_stored:
  "doc_root (stored_doc p doc origin n) = doc_root doc" "dtext (stored_doc p doc origin n) ''id'' = dtext doc ''id''"
  "dtext (stored_doc p doc origin n) ''collection_id'' = dtext doc ''collection_id''"
  by (simp_all add: doc_root_def dtext_def dget_stored_doc TIME_CLAIM_KEY_def)

lemma put_no_cut:
  assumes "put_artifact H doc stamp_rev False st = Inr (d, st')" "\<not> truthy (dget doc ''content_ref'')"
  obtains origin n st1 where "write_row H doc origin n st1 = Inr (d, st')" "vertices st1 = vertices st"
    "edges st1 = edges st" "version_for doc stamp_rev st = Inr ((origin, n), if stamp_rev then st1 else st)"
proof -
  from assms obtain origin n st1 where v: "version_for doc stamp_rev st = Inr ((origin, n), st1)"
    and w: "write_row H doc origin n (if stamp_rev then st1 else st_observe origin n st1) = Inr (d, st')"
    by (auto simp: put_artifact_def cut_version_def rbind_eq_Inr split: if_splits)
  have "vertices st1 = vertices st" "edges st1 = edges st" "\<not> stamp_rev \<Longrightarrow> st1 = st"
    using v by (auto simp: version_for_def st_allocate_def Let_def split: if_splits prod.splits pyval.splits)
  with v w show ?thesis
    by (intro that [of origin n "if stamp_rev then st1 else st_observe origin n st1"])
      (auto simp: st_observe_def)
qed

lemma put_row:
  assumes "put_artifact H doc True False st = Inr (d, st')" "\<not> truthy (dget doc ''content_ref'')"
  obtains n row where "d = stored_doc (doc_of st (dtext doc ''id'')) doc (st_origin st) n"
    "vertices st' = AList.update (dtext doc ''id'') row (vertices st)" "v_doc row = d"
    "bind_col (dget d ''content_type'') = Inr (v_ct row)"
proof -
  obtain origin n st1 where
    w: "write_row H doc origin n st1 = Inr (d, st')" and v1: "vertices st1 = vertices st"
    and v: "version_for doc True st = Inr ((origin, n), st1)"
    by (rule put_no_cut [OF assms]) simp
  have o: "origin = st_origin st" using v by (auto simp: version_for_def split: prod.splits)
  from write_row_vertices [OF w] obtain row where
    r: "vertices st' = AList.update (dtext doc ''id'') row (vertices st1)" "v_doc row = d"
      "bind_col (dget d ''content_type'') = Inr (v_ct row)" "d = stored_doc (doc_of st1 (dtext doc ''id'')) doc origin n" by metis
  have "doc_of st1 = doc_of st" by (simp add: fun_eq_iff doc_of_def v1)
  with r o v1 show ?thesis by (intro that [of n row]) simp_all
qed

lemma put_stored:
  assumes "put_artifact H doc True False st = Inr (d, st')" "\<not> truthy (dget doc ''content_ref'')"
  obtains n where "d = stored_doc (doc_of st (dtext doc ''id'')) doc (st_origin st) n"
    "doc_of st' = (doc_of st)(dtext doc ''id'' \<mapsto> d)"
  by (rule put_row [OF assms]) (auto simp: doc_of_def fun_eq_iff)

text \<open>What a client of the store relies on: a table in which a put changes the value at its own key and
  nothing else. \<open>ok\<close> names the values the law holds for; a value that cuts a version also writes the
  snapshot of the one it replaces.\<close>

locale keyed_store =
  fixes put :: "'d \<Rightarrow> 's \<Rightarrow> ('d \<times> 's) result"
    and get :: "'s \<Rightarrow> 'k \<Rightarrow> 'd option"
    and key :: "'d \<Rightarrow> 'k"
    and ok :: "'d \<Rightarrow> bool"
  assumes get_put: "ok d \<Longrightarrow> put d s = Inr (d', s') \<Longrightarrow> get s' (key d) = Some d'"
    and get_put_other: "ok d \<Longrightarrow> put d s = Inr (d', s') \<Longrightarrow> k \<noteq> key d \<Longrightarrow> get s' k = get s k"
begin

primrec put_all :: "'d list \<Rightarrow> 's \<Rightarrow> ('d list \<times> 's) result" where
  "put_all [] s = Inr ([], s)"
| "put_all (d # ds) s = rbind (put d s) (\<lambda>(d', s1). rbind (put_all ds s1) (\<lambda>(rs, s2). Inr (d' # rs, s2)))"

lemma put_all_frame:
  "list_all ok ds \<Longrightarrow> put_all ds s = Inr (rs, s') \<Longrightarrow> k \<notin> key ` set ds \<Longrightarrow> get s' k = get s k"
proof (induction ds arbitrary: s rs)
  case (Cons d ds)
  from Cons.prems(2) obtain d' s1 rs' where "put d s = Inr (d', s1)" "put_all ds s1 = Inr (rs', s')"
    by (auto simp: rbind_eq_Inr)
  with Cons show ?case by (auto simp: get_put_other)
qed simp

lemma put_all_get:
  "list_all ok ds \<Longrightarrow> distinct (map key ds) \<Longrightarrow> put_all ds s = Inr (rs, s') \<Longrightarrow>
   map (get s' \<circ> key) ds = map Some rs"
proof (induction ds arbitrary: s rs)
  case (Cons d ds)
  from Cons.prems(3) obtain d' s1 rs' where p: "put d s = Inr (d', s1)" "put_all ds s1 = Inr (rs', s')" "rs = d' # rs'"
    by (auto simp: rbind_eq_Inr)
  with Cons.prems have "get s' (key d) = get s1 (key d)" by (intro put_all_frame [of ds]) auto
  with p Cons show ?case by (auto simp: get_put)
qed simp

end

interpretation live: keyed_store "\<lambda>doc st. put_artifact H doc True False st" doc_of "\<lambda>doc. dtext doc ''id''"
  "\<lambda>doc. \<not> truthy (dget doc ''content_ref'')" for H
proof
  fix doc :: doc and st st' :: lattice and d :: doc and k :: string
  assume p: "\<not> truthy (dget doc ''content_ref'')" "put_artifact H doc True False st = Inr (d, st')"
  show "doc_of st' (dtext doc ''id'') = Some d" by (rule put_stored [OF p(2,1)]) simp
  show "doc_of st' k = doc_of st k" if "k \<noteq> dtext doc ''id''" by (rule put_stored [OF p(2,1)]) (simp add: that)
qed



text \<open>Every write of an artifact rewrites its containment edge from scratch: after a put of a document
  whose collection is in the store, the \<open>contains\<close> edge from the collection to the artifact's root is
  an origin edge with a null \<open>propagate\<close> column, which carries every action, and a null \<open>order_key\<close>,
  whatever mask and position the edge held before.\<close>

theorem put_resets_containment:
  assumes "put_artifact H doc True False st = Inr (d, st')" "\<not> truthy (dget doc ''content_ref'')"
    and "dtext doc ''collection_id'' = cid" "cid \<noteq> []" "doc_of st cid \<noteq> None"
    and "doc_root doc \<noteq> []" "doc_root doc \<noteq> cid"
  shows "\<exists>e. map_of (edges st') (edge_key H cid (doc_root doc) ''contains'') = Some e
    \<and> e_propagate e = PNone \<and> e_order_key e = PNone \<and> e_is_origin e = PInt 1 \<and> e_force e = PNone
    \<and> prop_mask e = PNone"
proof -
  obtain origin n st1 where
    w: "write_row H doc origin n st1 = Inr (d, st')" and v1: "vertices st1 = vertices st"
    by (rule put_no_cut [OF assms(1,2)]) simp
  from write_row_effect [OF w] obtain row st2 where
    sc: "same_core (row_core H (dtext doc ''id'') row st1) st2" and pl: "place H d st2 = Inr st'"
    and d: "d = stored_doc (doc_of st1 (dtext doc ''id'')) doc origin n" by metis
  let ?props = "[(''root_id'', PStr (doc_root doc)), (''is_origin'', PInt 1)]"
  have cid: "map_of (vertices st2) cid \<noteq> None"
    using sc assms(5) v1 by (auto simp: same_core_def row_core_vertices doc_of_def)
  have "dtext d ''collection_id'' = cid" "doc_root d = doc_root doc"
    using assms(3) by (simp_all add: d doc_root_stored)
  with pl cid assms(4,6,7) have a: "add_one H (cid, doc_root doc, ''contains'', ?props) True st2 = Inr st'"
    by (auto simp: place_def Let_def split: sum.splits)
  obtain m st3 where "st_allocate st2 = (m, st3)" by fastforce
  with a assms(4,6) obtain
    we: "write_edge H cid (doc_root doc) ''contains'' ?props (st_origin st2) m st3 = Inr st'"
    by (auto simp: add_one_def split: sum.splits)
  then show ?thesis
    by (auto simp: write_edge_def Let_def dget_def norm_is_origin_def prop_mask_def eprop_def e_col_def
        edge_blob_def PROMOTED_def split: option.splits)
qed

theorem put_resets_containment_witness:
  "\<exists>(st' :: lattice) e. map_of (edges st') (edge_key sample_H ''c'' ''a'' ''contains'') = Some e \<and> prop_mask e = PNone"
proof -
  let ?doc = "[(''id'', PStr ''a''), (''collection_id'', PStr ''c'')]"
  obtain st where st: "doc_of st ''c'' \<noteq> None" using sample_reach by blast
  obtain d st' where p: "put_artifact sample_H ?doc True False st = Inr (d, st')"
    by (rule put_plain [of ?doc]) (simp_all add: plain_doc_def dtext_def dget_def)
  have "doc_root ?doc = ''a''" by (simp add: doc_root_def py_or_def dget_def)
  with put_resets_containment [OF p, of "''c''"] st
  have "\<exists>e. map_of (edges st') (edge_key sample_H ''c'' ''a'' ''contains'') = Some e \<and> prop_mask e = PNone"
    by (auto simp: dtext_def dget_def)
  then show ?thesis by blast
qed

text \<open>(C16) A delete takes the edges with the vertex: after an accounted delete the id is absent and no edge
  has it on either side, so an artifact created later under the same id inherits no authority; edges
  between other artifacts and the other vertices stay.\<close>

theorem delete_takes_edges:
  assumes "store_reach H origin leaves st" "doc_of st aid \<noteq> None"
  shows "\<exists>st'. delete_artifact H aid st = Inr st' \<and> doc_of st' aid = None
    \<and> edges st' = filter (\<lambda>(_, r). e_src r \<noteq> aid \<and> e_dst r \<noteq> aid) (edges st)
    \<and> (i = aid \<or> doc_of st' i = doc_of st i)"
proof -
  from assms(2) obtain r where m: "map_of (vertices st) aid = Some r" by (auto simp: doc_of_def)
  have inv: "store_inv H 0 st" using reach_inv [OF assms(1)] by simp
  show ?thesis
  proof (rule delete_artifact_effect [OF inv m])
    fix s1 st2 st'
    assume d: "delete_artifact H aid st = Inr st'" and v: "vertices s1 = vertices st"
      and e: "edges s1 = filter (\<lambda>(_, r). e_src r \<noteq> aid \<and> e_dst r \<noteq> aid) (edges st)"
      and st2: "st2 = vacate (v_origin r) (bump c_vertex_total (- 1)
        (xor_leaf (v_leaf r) (row_hash H aid (v_seq r)) (s1\<lparr> vertices := AList.delete aid (vertices s1) \<rparr>)))"
      and sc: "same_core st2 st'"
    from sc have "vertices st' = AList.delete aid (vertices st)" "edges st' = edges s1"
      by (simp_all add: same_core_def st2 v)
    then show ?thesis using d e by (auto simp: doc_of_def)
  qed
qed

theorem delete_takes_edges_witness:
  "\<exists>st st'. doc_of st ''c'' \<noteq> None \<and> delete_artifact sample_H ''c'' st = Inr st' \<and> doc_of st' ''c'' = None"
  using sample_reach delete_takes_edges by blast

section \<open>Mesh consumption\<close>

lemma write_edge_tables:
  "write_edge H a b l ps origin n st = Inr st' \<Longrightarrow> vertices st' = vertices st"
  by (auto simp: write_edge_def Let_def rbind_eq_Inr split: option.splits)

lemma put_one_foreign_cases:
  assumes "put_one H doc False pol st = Inr st'"
  obtains origin n where "dget doc ''_origin'' = PStr origin" "dget doc ''_seq'' = PInt n" "origin \<noteq> []" "dtext doc ''id'' \<noteq> []"
    "(lww st (dtext doc ''id'') origin n \<in> {OLDER, SAME} \<and> st' = st_observe origin n st)
     \<or> (lww st (dtext doc ''id'') origin n = UNORDERED \<and> pol = KeepLocal \<and> st' = bump ''conflict:unordered'' 1 (st_observe origin n st))
     \<or> ((lww st (dtext doc ''id'') origin n = NEWER \<or> lww st (dtext doc ''id'') origin n = UNORDERED \<and> pol = TakeRemote)
         \<and> (\<exists>d. write_row H doc origin n (st_observe origin n st) = Inr (d, st')))"
proof -
  from assms obtain origin n where o: "dget doc ''_origin'' = PStr origin" "dget doc ''_seq'' = PInt n" "origin \<noteq> []"
    "dtext doc ''id'' \<noteq> []"
    by (auto simp: put_one_def version_for_def Let_def split: if_splits sum.splits pyval.splits)
  with assms show ?thesis
    by (intro that [of origin n])
      (auto simp: put_one_def version_for_def Let_def split: sum.splits version_order.splits unordered_policy.splits)
qed

lemma observe_tables [simp]:
  "vertices (st_observe origin n st) = vertices st" "edges (st_observe origin n st) = edges st"
  "leaf_digest (st_observe origin n st) = leaf_digest st"
  by (simp_all add: st_observe_def)

lemma lww_vertices: "vertices s = vertices t \<Longrightarrow> lww s aid origin n = lww t aid origin n"
  by (simp add: lww_def)

text \<open>Replaying a mesh segment is harmless: once a document from another origin has been handled, by
  being written or by being correctly rejected, handling it again succeeds and changes no vertex, no
  edge and no merkle digest.\<close>

theorem replay_is_idempotent:
  assumes "put_one H doc False pol st = Inr st1"
  shows "\<exists>st2. put_one H doc False pol st1 = Inr st2 \<and> vertices st2 = vertices st1 \<and> edges st2 = edges st1
    \<and> leaf_digest st2 = leaf_digest st1"
proof -
  from put_one_foreign_cases [OF assms] obtain origin n where
    o: "dget doc ''_origin'' = PStr origin" "dget doc ''_seq'' = PInt n" "origin \<noteq> []" "dtext doc ''id'' \<noteq> []"
    and c: "(lww st (dtext doc ''id'') origin n \<in> {OLDER, SAME} \<and> st1 = st_observe origin n st)
     \<or> (lww st (dtext doc ''id'') origin n = UNORDERED \<and> pol = KeepLocal \<and> st1 = bump ''conflict:unordered'' 1 (st_observe origin n st))
     \<or> (\<exists>d. write_row H doc origin n (st_observe origin n st) = Inr (d, st1))" by metis
  have again: ?thesis if "lww st1 (dtext doc ''id'') origin n \<in> {OLDER, SAME} \<or> lww st1 (dtext doc ''id'') origin n = UNORDERED \<and> pol = KeepLocal"
    using that o by (auto simp: put_one_def version_for_def Let_def)
  from c consider (rej) "lww st (dtext doc ''id'') origin n \<in> {OLDER, SAME}" "vertices st1 = vertices st"
    | (keep) "lww st (dtext doc ''id'') origin n = UNORDERED" "pol = KeepLocal" "vertices st1 = vertices st"
    | (wrote) d where "write_row H doc origin n (st_observe origin n st) = Inr (d, st1)" by auto
  then show ?thesis
  proof cases
    case wrote
    from write_row_vertices [OF wrote] obtain row where
      "vertices st1 = AList.update (dtext doc ''id'') row (vertices (st_observe origin n st))"
      "v_origin row = origin" "v_seq row = n" by metis
    then have "lww st1 (dtext doc ''id'') origin n = SAME" by (simp add: lww_def compare_version_def)
    then show ?thesis by (intro again) simp
  next
    case rej
    then have "lww st1 (dtext doc ''id'') origin n \<in> {OLDER, SAME}"
      using lww_vertices [of st1 st "dtext doc ''id''" origin n] by simp
    then show ?thesis by (intro again) blast
  next
    case keep
    then have "lww st1 (dtext doc ''id'') origin n = UNORDERED"
      using lww_vertices [of st1 st "dtext doc ''id''" origin n] by simp
    then show ?thesis using keep(2) by (intro again) blast
  qed
qed

lemma put_one_absent:
  "write_row H doc origin n (st_observe origin n st) = Inr (d, st') \<Longrightarrow> dget doc ''_origin'' = PStr origin \<Longrightarrow>
   dget doc ''_seq'' = PInt n \<Longrightarrow> origin \<noteq> [] \<Longrightarrow> dtext doc ''id'' \<noteq> [] \<Longrightarrow>
   map_of (vertices st) (dtext doc ''id'') = None \<Longrightarrow> put_one H doc False pol st = Inr st'"
  by (simp add: put_one_def version_for_def lww_def Let_def)

definition sample_foreign :: doc where
  "sample_foreign = [(''id'', PStr ''f''), (''_origin'', PStr ''p''), (''_seq'', PInt 3)]"

lemma sample_foreign_id: "dtext sample_foreign ''id'' = ''f''"
  by (simp add: sample_foreign_def dtext_def dget_def)

lemma sample_foreign_plain: "plain_doc sample_foreign"
  by (simp add: plain_doc_def sample_foreign_def dtext_def dget_def)

lemma sample_foreign_put: "\<exists>st'. put_one sample_H sample_foreign False KeepLocal (empty_lattice ''o'' 4) = Inr st'"
proof -
  obtain d st' where w: "write_row sample_H sample_foreign ''p'' 3 (st_observe ''p'' 3 (empty_lattice ''o'' 4)) = Inr (d, st')"
    using write_row_succeeds [OF sample_foreign_plain] by blast
  have "put_one sample_H sample_foreign False KeepLocal (empty_lattice ''o'' 4) = Inr st'"
    by (rule put_one_absent [OF w]) (simp_all add: sample_foreign_def dtext_def dget_def empty_lattice_def)
  then show ?thesis ..
qed

theorem replay_is_idempotent_witness:
  "\<exists>st1 st2. put_one sample_H sample_foreign False KeepLocal st1 = Inr st2 \<and> vertices st2 = vertices st1"
  using sample_foreign_put replay_is_idempotent by blast

text \<open>(C28) Consuming never moves a row backwards: under \<open>keep_local\<close>, after any document of another origin
  has been handled, every vertex that was present is still present under the same origin with a \<open>_seq\<close>
  at least as large, so a version once reached is never replaced by an older or a concurrent one.\<close>

theorem consume_never_regresses:
  assumes "put_one H doc False KeepLocal st = Inr st'" "map_of (vertices st) aid = Some r"
  shows "\<exists>r'. map_of (vertices st') aid = Some r' \<and> v_origin r' = v_origin r \<and> v_seq r \<le> v_seq r'"
proof -
  obtain origin n where
    c: "vertices st' = vertices st
     \<or> (lww st (dtext doc ''id'') origin n = NEWER \<and> (\<exists>d. write_row H doc origin n (st_observe origin n st) = Inr (d, st')))"
    by (rule put_one_foreign_cases [OF assms(1)]) auto
  then show ?thesis
  proof
    assume "lww st (dtext doc ''id'') origin n = NEWER \<and> (\<exists>d. write_row H doc origin n (st_observe origin n st) = Inr (d, st'))"
    then obtain d where new: "lww st (dtext doc ''id'') origin n = NEWER"
      and w: "write_row H doc origin n (st_observe origin n st) = Inr (d, st')" by blast
    from write_row_vertices [OF w] obtain row where
      v: "vertices st' = AList.update (dtext doc ''id'') row (vertices st)" "v_origin row = origin" "v_seq row = n"
      by (metis observe_tables(1))
    show ?thesis
    proof (cases "aid = dtext doc ''id''")
      case True
      with new assms(2) have "origin = v_origin r" "v_seq r < n"
        by (auto simp: lww_def compare_version_def split: if_splits)
      with True v show ?thesis by simp
    qed (use v assms(2) in simp)
  qed (use assms(2) in simp)
qed

theorem consume_never_regresses_witness:
  "\<exists>st st' r r'. map_of (vertices st) ''c'' = Some r \<and> put_one sample_H sample_foreign False KeepLocal st = Inr st'
     \<and> map_of (vertices st') ''c'' = Some r' \<and> v_seq r \<le> v_seq r'"
proof -
  define st where "st = empty_lattice ''o'' 4\<lparr> vertices := [(''c'', sample_row ''c'' 1)] \<rparr>"
  have r: "map_of (vertices st) ''c'' = Some (sample_row ''c'' 1)" "vertices st = [(''c'', sample_row ''c'' 1)]"
    by (simp_all add: st_def)
  obtain d st' where w: "write_row sample_H sample_foreign ''p'' 3 (st_observe ''p'' 3 st) = Inr (d, st')"
    using write_row_succeeds [OF sample_foreign_plain] by blast
  have "put_one sample_H sample_foreign False KeepLocal st = Inr st'"
    by (rule put_one_absent [OF w]) (simp_all add: sample_foreign_def dtext_def dget_def r)
  with consume_never_regresses [OF this r(1)] r(1) show ?thesis by blast
qed

section \<open>Eviction\<close>

text \<open>Evicting a cached copy removes the row but leaves its origin's live-row counter as it was: after
  \<open>evict_artifact\<close> the counter \<open>rows:<origin>\<close> exceeds the rows that carry the origin by one, for the
  evicted row's origin. Reaching the document again counts it a second time, and the inequality that
  \<open>seq_accounting\<close> asserts for a foreign origin then fails without any loss.\<close>

theorem evict_leaves_row_count:
  assumes "store_reach H origin leaves st" "map_of (vertices st) aid = Some r" "v_origin r \<noteq> []"
  shows "\<exists>st'. evict_artifact H aid st = Inr st' \<and> doc_of st' aid = None
    \<and> counter_of st' (c_rows (v_origin r)) = live_rows st' (v_origin r) + 1"
proof -
  have inv: "store_inv H 0 st" using reach_inv [OF assms(1)] by simp
  define st1 where "st1 = bump c_vertex_total (- 1) (xor_leaf (v_leaf r) (row_hash H aid (v_seq r))
     (st\<lparr> vertices := AList.delete aid (vertices st) \<rparr>))"
  define st2 where "st2 = bump_all (counter_deltas (Some (v_doc r)) None (v_ct r) None) st1"
  obtain st3 where s3: "sync_task aid (Some (v_doc r)) None (v_ct r) st2 = Inr st3"
    using sync_task_delete_ok by blast
  define st4 where "st4 = index_lists aid None (v_ct r) True st3"
  define st' where "st' = st4\<lparr> demand := filter (\<lambda>(i, _). i \<noteq> aid) (demand st4) \<rparr>"
  have ev: "evict_artifact H aid st = Inr st'"
    using s3 by (simp add: evict_artifact_def delete_artifact_full_def assms(2) Let_def st1_def st2_def st4_def st'_def)
  have "same_core st1 st2" unfolding st2_def by (rule same_core_deltas)
  also have "same_core st2 st3" by (rule same_core_sync_task [OF s3])
  also have "same_core st3 st4" unfolding st4_def by (rule same_core_index)
  also have "same_core st4 st'" unfolding st'_def by (rule same_core_demand)
  finally have sc: "same_core st1 st'" .
  have dk: "distinct (map fst (vertices st))" using inv by (simp add: store_inv_def keys_ok_def)
  have "live_rows st' (v_origin r) = live_rows st (v_origin r) - 1"
    using sc cnt.total_delete [OF dk assms(2)] by (simp add: live_rows_def same_core_def st1_def)
  moreover have "counter st' (c_rows (v_origin r)) = counter st (c_rows (v_origin r))"
    using sc by (simp add: same_core_def st1_def)
  moreover have "counter st (c_rows (v_origin r)) = live_rows st (v_origin r)"
    using inv assms(3) by (simp add: store_inv_def rows_ok_def)
  moreover have "doc_of st' aid = None" using sc by (simp add: same_core_def st1_def doc_of_def)
  ultimately show ?thesis using ev by (simp add: counter_of_def)
qed

theorem evict_leaves_row_count_witness:
  "\<exists>st st' a. evict_artifact sample_H ''f'' st = Inr st' \<and> counter_of st' (c_rows a) = live_rows st' a + 1"
proof -
  obtain d st' where w: "write_row sample_H sample_foreign ''p'' 3 (st_observe ''p'' 3 (empty_lattice ''o'' 4)) = Inr (d, st')"
    using write_row_succeeds [OF sample_foreign_plain] by blast
  have p: "put_one sample_H sample_foreign False KeepLocal (empty_lattice ''o'' 4) = Inr st'"
    by (rule put_one_absent [OF w]) (simp_all add: sample_foreign_def dtext_def dget_def empty_lattice_def)
  have "put_many sample_H [sample_foreign] 500 False KeepLocal (empty_lattice ''o'' 4) = (Inr 1, st')"
    by (simp add: put_many_def chunks.simps put_chunk_def p)
  then have r: "store_reach sample_H ''o'' 4 st'"
    by (rule reach_consume [OF reach_init, rotated -1])
      (simp_all add: foreign_doc_def sample_foreign_def dget_def empty_lattice_def)
  from write_row_vertices [OF w] obtain row where "map_of (vertices st') ''f'' = Some row" "v_origin row = ''p''"
    by (metis map_of_update fun_upd_same sample_foreign_id)
  with evict_leaves_row_count [OF r] show ?thesis by fastforce
qed

end
