(* ===== verification/Attenuation.thy ===== *)
theory Attenuation
  imports Json_Text
begin

text \<open>
  \<open>attenuation.py\<close>: the authority mask, its meet, its two codecs and the composition of masks along a
  path. A \<open>Mask\<close> is one integer code below \<open>_CODE_SPACE = 2 ^ 10\<close>: bits 0 to 8 are the actions in the
  order of \<open>ACTIONS\<close>, bit 9 is the allow half of a grant's effect. The code is kept as a
  \<^typ>\<open>10 word\<close>; \<open>Mask_new\<close> is the range-checked constructor on integers, and
  \<open>Mask_new_meet\<close> shows that the check never fires on the meet.

  The masks form a bounded meet-semilattice under \<open>&\<close> and the subset order (instances of the
  library's order classes). The locale \<open>authority\<close> states what the walks and the grants use of that
  algebra; it is interpreted on the mask's own operations.
\<close>

unbundle bit_operations_syntax

section \<open>The action vocabulary\<close>

definition ACTIONS :: "string list" where
  "ACTIONS = [''create'', ''read'', ''update'', ''delete'', ''evict'', ''invoke'', ''add'', ''share'', ''admin'']"

definition FLAG_OF :: "string \<Rightarrow> string option" where
  "FLAG_OF = map_of (map (\<lambda>a. (a, ''can_'' @ a)) ACTIONS)"

definition mask_index :: "string \<Rightarrow> nat option" where
  "mask_index = map_of (zip ACTIONS [0..<length ACTIONS])"

section \<open>The mask\<close>

datatype mask = MkMask (mcode: "10 word")

definition ALLOW_BIT :: "10 word" where
  "ALLOW_BIT = push_bit (length ACTIONS) 1"

definition ACTION_BITS :: "10 word" where
  "ACTION_BITS = push_bit (length ACTIONS) 1 - 1"

definition CODE_SPACE :: int where
  "CODE_SPACE = 2 * 2 ^ length ACTIONS"

definition Mask_new :: "int \<Rightarrow> mask result" where
  "Mask_new code = (if 0 \<le> code \<and> code < CODE_SPACE then Inr (MkMask (word_of_int code)) else Inl ValueError)"

definition Mask_code :: "mask \<Rightarrow> int" where
  "Mask_code m = uint (mcode m)"

definition add_name :: "string \<Rightarrow> 10 word \<Rightarrow> 10 word" where
  "add_name name code = (case mask_index name of None \<Rightarrow> code | Some b \<Rightarrow> code OR push_bit b 1)"

definition Mask_of :: "string list \<Rightarrow> bool \<Rightarrow> mask" where
  "Mask_of names allow = MkMask (fold add_name names (if allow then ALLOW_BIT else 0))"

definition DENY :: mask where "DENY = MkMask 0"

definition TOP :: mask where "TOP = MkMask (ACTION_BITS OR ALLOW_BIT)"

definition NOTHING :: mask where "NOTHING = MkMask ALLOW_BIT"

section \<open>Reading a mask\<close>

definition is_allow :: "mask \<Rightarrow> bool" where
  "is_allow m = (mcode m AND ALLOW_BIT \<noteq> 0)"

definition is_deny :: "mask \<Rightarrow> bool" where
  "is_deny m = (\<not> is_allow m)"

definition carries :: "mask \<Rightarrow> string \<Rightarrow> bool" where
  "carries m action = (case mask_index action of None \<Rightarrow> False | Some b \<Rightarrow> mcode m AND push_bit b 1 \<noteq> 0)"

definition mask_actions :: "mask \<Rightarrow> string list" where
  "mask_actions m = filter (carries m) ACTIONS"

definition allows :: "mask \<Rightarrow> string \<Rightarrow> bool" where
  "allows m action = (is_allow m \<and> carries m action)"

definition mask_truthy :: "mask \<Rightarrow> bool" where
  "mask_truthy m = (is_allow m \<and> mcode m AND ACTION_BITS \<noteq> 0)"

section \<open>The meet and the order\<close>

definition Mask_and :: "mask \<Rightarrow> mask \<Rightarrow> mask" where
  "Mask_and a b = MkMask (mcode a AND mcode b)"

definition Mask_le :: "mask \<Rightarrow> mask \<Rightarrow> bool" where
  "Mask_le a b = (mcode a AND mcode b = mcode a)"

definition Mask_lt :: "mask \<Rightarrow> mask \<Rightarrow> bool" where
  "Mask_lt a b = (a \<noteq> b \<and> Mask_le a b)"

instantiation mask :: bounded_semilattice_inf_top
begin

definition inf_mask :: "mask \<Rightarrow> mask \<Rightarrow> mask" where "inf_mask = Mask_and"

definition less_eq_mask :: "mask \<Rightarrow> mask \<Rightarrow> bool" where "less_eq_mask = Mask_le"

definition less_mask :: "mask \<Rightarrow> mask \<Rightarrow> bool" where "less_mask = Mask_lt"

definition top_mask :: mask where "top_mask = TOP"

instance
proof
  fix x y z :: mask
  note defs = inf_mask_def less_eq_mask_def less_mask_def top_mask_def Mask_and_def Mask_le_def Mask_lt_def
  show "(x < y) = (x \<le> y \<and> \<not> y \<le> x)"
    unfolding defs by (metis and.commute mask.collapse)
  show "x \<le> x" by (simp add: defs)
  show "x \<le> y \<Longrightarrow> y \<le> z \<Longrightarrow> x \<le> z"
    unfolding defs by (metis and.assoc)
  show "x \<le> y \<Longrightarrow> y \<le> x \<Longrightarrow> x = y"
    unfolding defs by (metis and.commute mask.expand)
  show "inf x y \<le> x" by (simp add: defs and.commute and.left_commute)
  show "inf x y \<le> y" by (simp add: defs and.assoc)
  show "x \<le> y \<Longrightarrow> x \<le> z \<Longrightarrow> x \<le> inf y z"
    unfolding defs by (metis mask.sel and.assoc)
  have "(ACTION_BITS OR ALLOW_BIT) = (- 1 :: 10 word)"
    by (simp add: ACTION_BITS_def ALLOW_BIT_def ACTIONS_def)
  then show "x \<le> top" by (simp add: defs TOP_def)
qed

end

instantiation mask :: order_bot
begin

definition bot_mask :: mask where "bot_mask = DENY"

instance
  by standard (simp add: bot_mask_def less_eq_mask_def Mask_le_def DENY_def)

end

definition meet :: "mask \<Rightarrow> mask \<Rightarrow> mask" where
  "meet a b = Mask_and a b"

definition compose :: "mask list \<Rightarrow> mask" where
  "compose masks = fold (\<lambda>m out. Mask_and out m) masks TOP"

section \<open>The codecs\<close>

text \<open>\<open>from_flags\<close> takes the flag reader: \<open>get(FLAG_OF[action], False)\<close> of the object or mapping it is
  handed. \<open>to_flags\<close> is the dictionary of the nine booleans.\<close>

definition from_flags :: "(string \<Rightarrow> bool) \<Rightarrow> bool \<Rightarrow> mask" where
  "from_flags get allow =
     MkMask (fold (\<lambda>(i, action) code. if get (''can_'' @ action) then code OR push_bit i 1 else code)
               (zip [0..<length ACTIONS] ACTIONS) (if allow then ALLOW_BIT else 0))"

definition to_flags :: "mask \<Rightarrow> (string \<times> bool) list" where
  "to_flags m = map (\<lambda>(i, a). (''can_'' @ a, mcode m AND push_bit i 1 \<noteq> 0)) (zip [0..<length ACTIONS] ACTIONS)"

text \<open>\<open>str(v) for v in value\<close>, kept to the elements that can name an action: the text of a number, a
  boolean, \<open>None\<close> or a container is never an action name.\<close>

fun names_in :: "pyval list \<Rightarrow> string list" where
  "names_in [] = []"
| "names_in (PStr s # vs) = s # names_in vs"
| "names_in (_ # vs) = names_in vs"

definition from_text :: "string \<Rightarrow> mask" where
  "from_text text =
     (case (if starts_with ''['' text then json_loads text else None) of
        Some (PList vs) \<Rightarrow> Mask_of (names_in vs) True
      | _ \<Rightarrow> Mask_of (filter (\<lambda>a. substring a text) ACTIONS) True)"

fun from_propagate :: "pyval \<Rightarrow> mask" where
  "from_propagate PNone = TOP"
| "from_propagate (PDict kvs) = Mask_of (map fst kvs) True"
| "from_propagate (PList vs) = Mask_of (names_in vs) True"
| "from_propagate (PStr text) = from_text text"
| "from_propagate _ = Mask_of [] True"

definition to_propagate :: "mask \<Rightarrow> string option result" where
  "to_propagate m =
     (if \<not> is_allow m then Inl ValueError
      else if m = TOP then Inr None
      else Inr (Some (json_dumps (mask_actions m))))"

definition propagates :: "pyval \<Rightarrow> string \<Rightarrow> bool" where
  "propagates column_value action = allows (from_propagate column_value) action"

section \<open>Bits\<close>

lemma length_ACTIONS [simp]: "length ACTIONS = 9"
  by (simp add: ACTIONS_def)

lemma distinct_ACTIONS [simp]: "distinct ACTIONS"
  by (simp add: ACTIONS_def)

lemma mask_index_Some: "mask_index a = Some i \<longleftrightarrow> i < 9 \<and> ACTIONS ! i = a"
proof -
  have d: "distinct (map fst (zip ACTIONS [0..<length ACTIONS]))" by simp
  show ?thesis
    unfolding mask_index_def map_of_eq_Some_iff [OF d] by (auto simp: set_zip)
qed

lemma mask_index_None: "mask_index a = None \<longleftrightarrow> a \<notin> set ACTIONS"
  by (simp add: mask_index_def map_of_eq_None_iff flip: set_map)

lemma and_push_bit_1: "(w AND push_bit n 1 \<noteq> 0) = bit w n" for w :: "'a :: len word"
  by (metis and.commute bit_iff_and_push_bit_not_eq_0)

lemma bit_push_bit_1: "bit (push_bit n 1 :: 10 word) i \<longleftrightarrow> i = n \<and> i < 10"
  by (auto simp: bit_push_bit_iff bit_1_iff simp del: push_bit_of_1)

lemma is_allow_bit: "is_allow m = bit (mcode m) 9"
  unfolding is_allow_def ALLOW_BIT_def length_ACTIONS by (rule and_push_bit_1)

lemma carries_bit: "carries m a = (\<exists>i. mask_index a = Some i \<and> bit (mcode m) i)"
  by (simp add: carries_def and_push_bit_1 del: push_bit_of_1 split: option.splits)

lemma carries_ACTIONS: "i < 9 \<Longrightarrow> carries m (ACTIONS ! i) = bit (mcode m) i"
  using mask_index_Some [of "ACTIONS ! i" i] by (simp add: carries_bit)

lemma carries_in_ACTIONS: "carries m a \<Longrightarrow> a \<in> set ACTIONS"
  using mask_index_None [of a] by (auto simp: carries_bit)

lemma mask_eqI:
  assumes "is_allow m = is_allow n" "\<And>a. carries m a = carries n a"
  shows "m = n"
proof (rule mask.expand, rule bit_word_eqI)
  fix i assume "i < LENGTH(10)"
  then consider "i = 9" | "i < 9" by fastforce
  then show "bit (mcode m) i = bit (mcode n) i"
    using assms carries_ACTIONS [of i] by cases (auto simp: is_allow_bit)
qed

lemma Mask_and_simps [simp, mask_simps]:
  "is_allow (Mask_and a b) = (is_allow a \<and> is_allow b)"
  "carries (Mask_and a b) x = (carries a x \<and> carries b x)"
  "allows (Mask_and a b) x = (allows a x \<and> allows b x)"
  by (auto simp: is_allow_bit carries_bit allows_def Mask_and_def bit_and_iff)

lemma Mask_le_iff: "a \<le> b \<longleftrightarrow> (is_allow a \<longrightarrow> is_allow b) \<and> (\<forall>x. carries a x \<longrightarrow> carries b x)"
proof -
  have "a \<le> b \<longleftrightarrow> Mask_and a b = a"
    by (cases a; cases b) (simp add: less_eq_mask_def Mask_le_def Mask_and_def)
  also have "\<dots> \<longleftrightarrow> is_allow (Mask_and a b) = is_allow a \<and> (\<forall>x. carries (Mask_and a b) x = carries a x)"
    using mask_eqI by metis
  finally show ?thesis by auto
qed

lemma allows_mono: "a \<le> b \<Longrightarrow> allows a x \<Longrightarrow> allows b x"
  by (auto simp: Mask_le_iff allows_def)

lemma bit_fold_add_name:
  "bit (fold add_name names w) i \<longleftrightarrow> bit w i \<or> (\<exists>a\<in>set names. mask_index a = Some i)" if "i < 10"
  using that
proof (induction names arbitrary: w)
  case (Cons a names)
  have "bit (add_name a w) i \<longleftrightarrow> bit w i \<or> mask_index a = Some i"
    using Cons.prems
    by (auto simp: add_name_def bit_or_iff bit_push_bit_1 simp del: push_bit_of_1 split: option.splits)
  then show ?case using Cons by auto
qed simp

lemma bit_ALLOW_BIT: "bit ALLOW_BIT i = (i = 9)"
  unfolding ALLOW_BIT_def length_ACTIONS bit_push_bit_1 by auto

lemma Mask_of_simps [simp, mask_simps]:
  "is_allow (Mask_of names allow) = allow"
  "carries (Mask_of names allow) a \<longleftrightarrow> a \<in> set names \<and> a \<in> set ACTIONS"
proof -
  show "is_allow (Mask_of names allow) = allow"
    by (auto simp: is_allow_bit Mask_of_def bit_fold_add_name bit_ALLOW_BIT mask_index_Some)
  show "carries (Mask_of names allow) a \<longleftrightarrow> a \<in> set names \<and> a \<in> set ACTIONS"
  proof (cases "mask_index a")
    case None
    then show ?thesis using mask_index_None [of a] by (simp add: carries_bit)
  next
    case (Some i)
    then have i: "i < 9" "ACTIONS ! i = a" by (simp_all add: mask_index_Some)
    then have "a \<in> set ACTIONS" using nth_mem [of i ACTIONS] by (auto simp: ACTIONS_def)
    with i Some show ?thesis
      by (auto simp: carries_bit Mask_of_def bit_fold_add_name bit_ALLOW_BIT mask_index_Some)
  qed
qed

lemma TOP_simps [simp, mask_simps]:
  "is_allow TOP" "carries TOP a \<longleftrightarrow> a \<in> set ACTIONS"
proof -
  have b: "bit (mcode TOP) i" if "i < 10" for i
  proof -
    have *: "TOP = MkMask (- 1)" by (simp add: TOP_def ACTION_BITS_def ALLOW_BIT_def)
    show ?thesis unfolding * using that by simp
  qed
  show "is_allow TOP" by (simp add: is_allow_bit b)
  show "carries TOP a \<longleftrightarrow> a \<in> set ACTIONS"
    by (auto simp: carries_bit mask_index_Some in_set_conv_nth b)
qed

lemma DENY_simps [simp, mask_simps]: "\<not> is_allow DENY" "\<not> carries DENY a"
  by (simp_all add: is_allow_bit carries_bit DENY_def)

lemma NOTHING_simps [simp, mask_simps]: "is_allow NOTHING" "\<not> carries NOTHING a"
proof -
  have *: "NOTHING = Mask_of [] True" by (simp add: NOTHING_def Mask_of_def)
  show "is_allow NOTHING" "\<not> carries NOTHING a" by (simp_all add: *)
qed

lemma set_mask_actions [simp]: "set (mask_actions m) = {a. carries m a}"
  by (auto simp: mask_actions_def carries_in_ACTIONS)

lemma Mask_of_actions: "Mask_of (mask_actions m) (is_allow m) = m"
  by (rule mask_eqI) (auto simp: carries_in_ACTIONS)

lemma from_flags_simps [simp, mask_simps]:
  "is_allow (from_flags get allow) = allow"
  "carries (from_flags get allow) a \<longleftrightarrow> a \<in> set ACTIONS \<and> get (''can_'' @ a)"
proof -
  have step: "bit (fold (\<lambda>(i, action) code. if get (''can_'' @ action) then code OR push_bit i 1 else code) ps w) j
    \<longleftrightarrow> bit w j \<or> (\<exists>a. (j, a) \<in> set ps \<and> get (''can_'' @ a))" if "j < 10" for j ps and w :: "10 word"
    using that
    by (induction ps arbitrary: w)
      (auto simp: bit_or_iff bit_push_bit_1 simp del: push_bit_of_1 split: if_splits)
  have b: "bit (mcode (from_flags get allow)) j
    \<longleftrightarrow> (allow \<and> j = 9) \<or> (j < 9 \<and> get (''can_'' @ ACTIONS ! j))" if "j < 10" for j
    unfolding from_flags_def mask.sel step [OF that] set_zip_upt by (auto simp: bit_ALLOW_BIT)
  show "is_allow (from_flags get allow) = allow" by (simp add: is_allow_bit b)
  show "carries (from_flags get allow) a \<longleftrightarrow> a \<in> set ACTIONS \<and> get (''can_'' @ a)"
  proof (cases "mask_index a")
    case None
    then show ?thesis using mask_index_None [of a] by (simp add: carries_bit)
  next
    case (Some i)
    then have i: "i < 9" "ACTIONS ! i = a" by (simp_all add: mask_index_Some)
    then have "a \<in> set ACTIONS" using nth_mem [of i ACTIONS] by auto
    with i Some b [of i] show ?thesis by (simp add: carries_bit)
  qed
qed

lemma to_flags_map_of:
  "map_of (to_flags m) f = (case find_first (\<lambda>a. f = ''can_'' @ a) ACTIONS of
     None \<Rightarrow> None | Some a \<Rightarrow> Some (carries m a))"
proof -
  have "to_flags m = map (\<lambda>a. (''can_'' @ a, carries m a)) ACTIONS"
    by (rule nth_equalityI) (simp_all add: to_flags_def carries_ACTIONS and_push_bit_1 del: push_bit_of_1)
  then show ?thesis by (simp add: ACTIONS_def)
qed

lemma to_flags_carries: "a \<in> set ACTIONS \<Longrightarrow> map_of (to_flags m) (''can_'' @ a) = Some (carries m a)"
  by (auto simp: to_flags_map_of ACTIONS_def)

section \<open>The authority interface\<close>

text \<open>What a client of the algebra relies on: a commutative, associative, idempotent meet with a
  neutral element, and a reading \<open>permits\<close> that a meet never widens. Composition along a path is
  the fold of the meet; the client's laws are proved once, here.\<close>

locale authority =
  fixes conj :: "'m \<Rightarrow> 'm \<Rightarrow> 'm"
    and unit :: 'm
    and permits :: "'m \<Rightarrow> 'a \<Rightarrow> bool"
  assumes conj_assoc: "conj (conj a b) c = conj a (conj b c)"
    and conj_commute: "conj a b = conj b a"
    and conj_idem: "conj a a = a"
    and conj_unit: "conj unit a = a"
    and permits_conj: "permits (conj a b) x \<longleftrightarrow> permits a x \<and> permits b x"
begin

definition path :: "'m list \<Rightarrow> 'm" where
  "path ms = fold (\<lambda>m out. conj out m) ms unit"

lemma path_from: "fold (\<lambda>m out. conj out m) ms a = conj a (path ms)"
proof (induction ms arbitrary: a)
  case Nil
  show ?case by (simp add: path_def conj_commute [of a unit] conj_unit)
next
  case (Cons m ms)
  have "path (m # ms) = conj m (path ms)"
    using Cons.IH [of m] unfolding path_def by (simp add: conj_unit)
  then show ?case using Cons.IH [of "conj a m"] by (simp add: conj_assoc)
qed

lemma path_Nil: "path [] = unit"
  by (simp add: path_def)

lemma path_Cons: "path (m # ms) = conj m (path ms)"
  using path_from [of ms m] by (simp add: path_def conj_unit)

lemma path_append: "path (ps @ qs) = conj (path ps) (path qs)"
  using path_from [of qs "path ps"] by (simp add: path_def)

lemma path_below: "m \<in> set ms \<Longrightarrow> conj (path ms) m = path ms"
proof (induction ms)
  case (Cons n ms)
  show ?case
  proof (cases "m = n")
    case True
    have "conj (path (m # ms)) m = conj m (conj m (path ms))"
      unfolding path_Cons by (rule conj_commute)
    also have "\<dots> = conj (conj m m) (path ms)" by (rule conj_assoc [symmetric])
    also have "\<dots> = path (m # ms)" unfolding conj_idem path_Cons ..
    finally show ?thesis using True by simp
  next
    case False
    with Cons show ?thesis by (simp add: path_Cons conj_assoc)
  qed
qed simp

lemma path_zero:
  assumes zero: "\<And>a. conj z a = z" and "z \<in> set ms"
  shows "path ms = z"
  using path_below [OF assms(2)] zero [of "path ms"] conj_commute [of z "path ms"] by simp

lemma path_permits: "permits (path ms) x \<longleftrightarrow> permits unit x \<and> (\<forall>m\<in>set ms. permits m x)"
  by (induction ms) (auto simp: path_Nil path_Cons permits_conj)

lemma path_meet: "conj (path ps) (path qs) = path (qs @ ps)"
  by (simp add: path_append conj_commute)

end

interpretation mask_authority: authority Mask_and TOP allows
proof unfold_locales
  show "Mask_and TOP a = a" for a
    by (rule mask_eqI) (auto simp: carries_in_ACTIONS)
  show "Mask_and (Mask_and a b) c = Mask_and a (Mask_and b c)" for a b c
    by (simp add: Mask_and_def and.assoc)
  show "Mask_and a b = Mask_and b a" for a b
    by (simp add: Mask_and_def and.commute)
qed (simp_all add: Mask_and_def flip: Mask_and_simps)

lemma compose_path: "compose = mask_authority.path"
  by (simp add: fun_eq_iff compose_def mask_authority.path_def)

section \<open>Correctness\<close>

text \<open>The range check of \<open>Mask.__new__\<close> never fires on a meet: building the meet from the integer
  codes, as \<open>__and__\<close> does, always succeeds with the meet, and the meet is the greatest lower bound
  of its operands in the subset order, with \<open>TOP\<close> neutral and \<open>DENY\<close> absorbing.\<close>

theorem meet_is_glb:
  "Mask_new (Mask_code a AND Mask_code b) = Inr (meet a b)
   \<and> (Mask_le c (meet a b) \<longleftrightarrow> Mask_le c a \<and> Mask_le c b)
   \<and> meet TOP a = a \<and> meet DENY a = DENY"
proof -
  have "Mask_new (Mask_code a AND Mask_code b) = Inr (meet a b)"
    using uint_lt2p [of "mcode a AND mcode b"]
    by (simp add: Mask_new_def Mask_code_def meet_def Mask_and_def CODE_SPACE_def flip: uint_and)
  moreover have "c \<le> inf a b \<longleftrightarrow> c \<le> a \<and> c \<le> b" by simp
  ultimately show ?thesis
    by (simp add: meet_def inf_mask_def less_eq_mask_def mask_authority.conj_unit)
      (simp add: DENY_def Mask_and_def)
qed

text \<open>(C3) Composition along a path is non-amplifying at every length: the composed authority allows an
  action exactly when every mask on the path allows it (and the action is one of the vocabulary);
  splitting a path splits the composition into a meet; and one \<open>DENY\<close> anywhere makes it \<open>DENY\<close>.\<close>

theorem compose_attenuates:
  "(allows (compose ms) x \<longleftrightarrow> x \<in> set ACTIONS \<and> list_all (\<lambda>m. allows m x) ms)
   \<and> compose (ps @ qs) = meet (compose ps) (compose qs)
   \<and> list_all (\<lambda>m. Mask_le (compose ms) m) ms
   \<and> compose (ps @ DENY # qs) = DENY"
proof -
  have "allows (compose ms) x \<longleftrightarrow> allows TOP x \<and> (\<forall>m\<in>set ms. allows m x)"
    unfolding compose_path by (rule mask_authority.path_permits)
  moreover have "list_all (\<lambda>m. Mask_le (compose ms) m) ms"
    unfolding list_all_iff
  proof
    fix m assume "m \<in> set ms"
    from mask_authority.path_below [OF this] show "Mask_le (compose ms) m"
      by (simp add: compose_path Mask_le_def Mask_and_def) (metis mask.sel)
  qed
  moreover have "compose (ps @ DENY # qs) = DENY"
    unfolding compose_path
    by (rule mask_authority.path_zero) (simp_all add: DENY_def Mask_and_def)
  ultimately show ?thesis
    by (simp add: allows_def list_all_iff meet_def compose_path mask_authority.path_append)
qed

text \<open>The \<open>edge.propagate\<close> column round-trips: what \<open>to_propagate\<close> writes, \<open>from_propagate\<close> reads back as
  the same mask; it refuses, with \<open>ValueError\<close>, exactly the masks that are not an allow.\<close>

theorem propagate_roundtrip:
  "case to_propagate m of
     Inr v \<Rightarrow> from_propagate (opt_val v) = m \<and> is_allow m
   | Inl e \<Rightarrow> e = ValueError \<and> is_deny m"
proof (cases "is_allow m")
  case False
  then show ?thesis by (simp add: to_propagate_def is_deny_def)
next
  case True
  have "names_in (map PStr xs) = xs" for xs by (induction xs) simp_all
  moreover have "starts_with ''['' (json_dumps xs)" for xs by (simp add: json_dumps_def)
  ultimately show ?thesis
    using True Mask_of_actions [of m]
    by (simp add: to_propagate_def opt_val_def from_text_def json_roundtrip)
qed

text \<open>The nine boolean flags round-trip: a mask is recovered from its \<open>to_flags\<close> dictionary and its
  effect, and every flag of the vocabulary is present in the dictionary.\<close>

theorem flags_roundtrip:
  "from_flags (\<lambda>f. map_of (to_flags m) f = Some True) (is_allow m) = m
   \<and> map fst (to_flags m) = map (\<lambda>a. ''can_'' @ a) ACTIONS"
proof
  show "from_flags (\<lambda>f. map_of (to_flags m) f = Some True) (is_allow m) = m"
  proof (rule mask_eqI)
    fix a
    show "carries (from_flags (\<lambda>f. map_of (to_flags m) f = Some True) (is_allow m)) a = carries m a"
      using to_flags_carries [of a m] by (auto simp: carries_in_ACTIONS)
  qed simp
  have "map fst (to_flags m) = map (\<lambda>a. ''can_'' @ a) (map snd (zip [0..<length ACTIONS] ACTIONS))"
    unfolding to_flags_def map_map by (rule map_cong) auto
  then show "map fst (to_flags m) = map (\<lambda>a. ''can_'' @ a) ACTIONS" by simp
qed

end
