(* ===== verification/Grants.thy ===== *)
theory Grants
  imports Attenuation
begin

text \<open>
  \<open>entities/grant.py\<close> and \<open>entities/base.py\<close>: the authorization record. A grant is a \<open>record\<close> with the
  constructor's fields; \<open>None\<close> in a field that the constructor replaces (\<open>id\<close>, the timestamps,
  \<open>effect\<close>) is the empty string, since the code tests it with \<open>or\<close>. The flags hold the truth value of
  the stored column, which is all any reader asks of them. \<open>uuid4\<close>, the clock and ISO parsing are the
  fields of \<open>ambient\<close>, an argument.

  \<open>Grant_init\<close> is the constructor, \<open>Grant_to_dict\<close>/\<open>Grant_from_dict\<close> the document codec, \<open>mask_of\<close> the
  adapter to the attenuation algebra and \<open>masked_by\<close> the bundle ceiling. A document whose \<open>effect\<close>
  is neither text nor null is outside the model (\<open>.strip()\<close> raises on it).
\<close>

section \<open>The record\<close>

record ambient =
  now_us :: int
  now_iso :: string
  fresh_id :: string
  parse_iso :: "string \<Rightarrow> int option"

record grant =
  g_id :: string
  created_time :: string
  modified_time :: string
  resource_id :: string
  grantee_type :: string
  grantee_id :: string
  granted_by :: string
  effect :: string
  can_create :: bool
  can_read :: bool
  can_update :: bool
  can_delete :: bool
  can_evict :: bool
  can_invoke :: bool
  can_add :: bool
  can_share :: bool
  can_admin :: bool
  requires_identity :: bool
  read_requires_identity :: "bool option"
  write_requires_identity :: "bool option"
  invoke_requires_identity :: "bool option"
  target_entity :: "string option"
  target_entity_type :: "string option"
  max_claims :: "int option"
  claims_count :: int
  key_hint :: "string option"
  last_used_at :: "string option"
  requires_nonce :: bool
  gstate :: string
  gname :: "string option"
  gnotes :: "string option"
  granted_at :: string
  expires_at :: "string option"
  accepted_by :: "string option"
  accepted_at :: "string option"
  revoked_by :: "string option"
  revoked_at :: "string option"

abbreviation GRANTEE_USER :: string where "GRANTEE_USER \<equiv> ''user''"
abbreviation GRANTEE_INVITE :: string where "GRANTEE_INVITE \<equiv> ''invite''"
abbreviation GRANTEE_GROUP :: string where "GRANTEE_GROUP \<equiv> ''group''"
abbreviation GRANTEE_GRANT_KEY :: string where "GRANTEE_GRANT_KEY \<equiv> ''grant_key''"
abbreviation GRANTEE_GRANT :: string where "GRANTEE_GRANT \<equiv> ''grant''"
abbreviation STATE_ACTIVE :: string where "STATE_ACTIVE \<equiv> ''active''"
abbreviation STATE_REVOKED :: string where "STATE_REVOKED \<equiv> ''revoked''"
abbreviation STATE_PENDING_ACCEPT :: string where "STATE_PENDING_ACCEPT \<equiv> ''pending_accept''"
abbreviation EFFECT_ALLOW :: string where "EFFECT_ALLOW \<equiv> ''allow''"
abbreviation EFFECT_DENY :: string where "EFFECT_DENY \<equiv> ''deny''"

text \<open>The keyword defaults of \<open>Grant.__init__\<close>; a caller overrides the ones it passes.\<close>

definition GRANT_ARGS :: grant where
  "GRANT_ARGS = \<lparr> g_id = [], created_time = [], modified_time = [], resource_id = [], grantee_type = [],
     grantee_id = [], granted_by = [], effect = EFFECT_ALLOW,
     can_create = False, can_read = True, can_update = False, can_delete = False, can_evict = False,
     can_invoke = False, can_add = False, can_share = False, can_admin = False,
     requires_identity = False, read_requires_identity = None, write_requires_identity = None,
     invoke_requires_identity = None, target_entity = None, target_entity_type = None,
     max_claims = None, claims_count = 0, key_hint = None, last_used_at = None, requires_nonce = False,
     gstate = STATE_ACTIVE, gname = None, gnotes = None, granted_at = [], expires_at = None,
     accepted_by = None, accepted_at = None, revoked_by = None, revoked_at = None \<rparr>"

definition str_or :: "string \<Rightarrow> string \<Rightarrow> string" where
  "str_or s d = (if s = [] then d else s)"

definition norm_effect :: "string \<Rightarrow> string" where
  "norm_effect e = py_lower (py_strip e)"

definition Grant_init :: "ambient \<Rightarrow> grant \<Rightarrow> grant" where
  "Grant_init amb a =
     (let created = str_or (created_time a) (now_iso amb) in
      a\<lparr> g_id := str_or (g_id a) (fresh_id amb),
         created_time := created,
         modified_time := str_or (modified_time a) created,
         effect := str_or (norm_effect (effect a)) EFFECT_ALLOW,
         granted_at := str_or (granted_at a) created \<rparr>)"

section \<open>Flags\<close>

definition get_flag :: "grant \<Rightarrow> string \<Rightarrow> bool" where
  "get_flag g f =
     (case map_of [(''can_create'', can_create g),
        (''can_read'', can_read g),
        (''can_update'', can_update g),
        (''can_delete'', can_delete g),
        (''can_evict'', can_evict g),
        (''can_invoke'', can_invoke g),
        (''can_add'', can_add g),
        (''can_share'', can_share g),
        (''can_admin'', can_admin g)] f of
        None \<Rightarrow> False
      | Some b \<Rightarrow> b)"

definition set_flag :: "string \<Rightarrow> bool \<Rightarrow> grant \<Rightarrow> grant" where
  "set_flag f b g =
     (if f = ''can_create'' then g\<lparr> can_create := b \<rparr>
      else if f = ''can_read'' then g\<lparr> can_read := b \<rparr>
      else if f = ''can_update'' then g\<lparr> can_update := b \<rparr>
      else if f = ''can_delete'' then g\<lparr> can_delete := b \<rparr>
      else if f = ''can_evict'' then g\<lparr> can_evict := b \<rparr>
      else if f = ''can_invoke'' then g\<lparr> can_invoke := b \<rparr>
      else if f = ''can_add'' then g\<lparr> can_add := b \<rparr>
      else if f = ''can_share'' then g\<lparr> can_share := b \<rparr>
      else if f = ''can_admin'' then g\<lparr> can_admin := b \<rparr>
      else g)"

definition set_flags :: "(string \<times> bool) list \<Rightarrow> grant \<Rightarrow> grant" where
  "set_flags fs g = fold (\<lambda>(f, b) g. set_flag f b g) fs g"

section \<open>The document codec\<close>

definition dflag :: "doc \<Rightarrow> string \<Rightarrow> bool \<Rightarrow> bool" where
  "dflag d k dflt = (case map_of d k of None \<Rightarrow> dflt | Some v \<Rightarrow> truthy v)"

definition dtext_or :: "doc \<Rightarrow> string \<Rightarrow> string \<Rightarrow> string" where
  "dtext_or d k dflt = (case map_of d k of None \<Rightarrow> dflt | Some v \<Rightarrow> as_text v)"

definition opt_bool_val :: "bool option \<Rightarrow> pyval" where
  "opt_bool_val b = (case b of None \<Rightarrow> PNone | Some b \<Rightarrow> PBool b)"

definition opt_int_val :: "int option \<Rightarrow> pyval" where
  "opt_int_val n = (case n of None \<Rightarrow> PNone | Some n \<Rightarrow> PInt n)"

definition Grant_to_dict :: "grant \<Rightarrow> doc" where
  "Grant_to_dict g = [
     (''id'', PStr (g_id g)), (''created_time'', PStr (created_time g)), (''modified_time'', PStr (modified_time g)),
     (''resource_id'', PStr (resource_id g)), (''grantee_type'', PStr (grantee_type g)),
     (''grantee_id'', PStr (grantee_id g)), (''granted_by'', PStr (granted_by g)),
     (''effect'', PStr (effect g)),
     (''can_create'', PBool (can_create g)),
     (''can_read'', PBool (can_read g)),
     (''can_update'', PBool (can_update g)),
     (''can_delete'', PBool (can_delete g)),
     (''can_evict'', PBool (can_evict g)),
     (''can_invoke'', PBool (can_invoke g)),
     (''can_add'', PBool (can_add g)),
     (''can_share'', PBool (can_share g)),
     (''can_admin'', PBool (can_admin g)),
     (''requires_identity'', PBool (requires_identity g)),
     (''read_requires_identity'', opt_bool_val (read_requires_identity g)),
     (''write_requires_identity'', opt_bool_val (write_requires_identity g)),
     (''invoke_requires_identity'', opt_bool_val (invoke_requires_identity g)),
     (''target_entity'', opt_val (target_entity g)),
     (''target_entity_type'', opt_val (target_entity_type g)),
     (''max_claims'', opt_int_val (max_claims g)), (''claims_count'', PInt (claims_count g)),
     (''key_hint'', opt_val (key_hint g)), (''last_used_at'', opt_val (last_used_at g)),
     (''requires_nonce'', PBool (requires_nonce g)),
     (''state'', PStr (gstate g)), (''name'', opt_val (gname g)), (''notes'', opt_val (gnotes g)),
     (''granted_at'', PStr (granted_at g)), (''expires_at'', opt_val (expires_at g)),
     (''accepted_by'', opt_val (accepted_by g)), (''accepted_at'', opt_val (accepted_at g)),
     (''revoked_by'', opt_val (revoked_by g)), (''revoked_at'', opt_val (revoked_at g))]"

definition Grant_from_dict :: "ambient \<Rightarrow> doc \<Rightarrow> grant" where
  "Grant_from_dict amb d = Grant_init amb \<lparr>
     g_id = dtext d ''id'', created_time = dtext d ''created_time'', modified_time = dtext d ''modified_time'',
     resource_id = dtext d ''resource_id'', grantee_type = dtext d ''grantee_type'',
     grantee_id = dtext d ''grantee_id'', granted_by = dtext d ''granted_by'',
     effect = dtext_or d ''effect'' EFFECT_ALLOW,
     can_create = dflag d ''can_create'' False,
     can_read = dflag d ''can_read'' True,
     can_update = dflag d ''can_update'' False,
     can_delete = dflag d ''can_delete'' False,
     can_evict = dflag d ''can_evict'' False,
     can_invoke = dflag d ''can_invoke'' False,
     can_add = dflag d ''can_add'' False,
     can_share = dflag d ''can_share'' False,
     can_admin = dflag d ''can_admin'' False,
     requires_identity = dflag d ''requires_identity'' False,
     read_requires_identity = as_opt_bool (dget d ''read_requires_identity''),
     write_requires_identity = as_opt_bool (dget d ''write_requires_identity''),
     invoke_requires_identity = as_opt_bool (dget d ''invoke_requires_identity''),
     target_entity = as_opt_text (dget d ''target_entity''),
     target_entity_type = as_opt_text (dget d ''target_entity_type''),
     max_claims = as_opt_int (dget d ''max_claims''),
     claims_count = (case as_opt_int (dget d ''claims_count'') of None \<Rightarrow> 0 | Some n \<Rightarrow> n),
     key_hint = as_opt_text (dget d ''key_hint''), last_used_at = as_opt_text (dget d ''last_used_at''),
     requires_nonce = dflag d ''requires_nonce'' False,
     gstate = dtext_or d ''state'' STATE_ACTIVE,
     gname = as_opt_text (dget d ''name''), gnotes = as_opt_text (dget d ''notes''),
     granted_at = dtext d ''granted_at'', expires_at = as_opt_text (dget d ''expires_at''),
     accepted_by = as_opt_text (dget d ''accepted_by''), accepted_at = as_opt_text (dget d ''accepted_at''),
     revoked_by = as_opt_text (dget d ''revoked_by''), revoked_at = as_opt_text (dget d ''revoked_at'') \<rparr>"

section \<open>Effect and mask\<close>

definition effect_of :: "grant \<Rightarrow> string" where
  "effect_of g = norm_effect (effect g)"

definition grant_is_deny :: "grant \<Rightarrow> bool" where
  "grant_is_deny g = (effect_of g = EFFECT_DENY)"

definition grant_is_allow :: "grant \<Rightarrow> bool" where
  "grant_is_allow g = (effect_of g = EFFECT_ALLOW)"

definition mask_of :: "grant \<Rightarrow> mask" where
  "mask_of g = from_flags (get_flag g) (grant_is_allow g)"

definition Grant_is_active :: "grant \<Rightarrow> bool" where
  "Grant_is_active g = (gstate g = STATE_ACTIVE)"

definition masked_by :: "ambient \<Rightarrow> grant \<Rightarrow> grant \<Rightarrow> grant" where
  "masked_by amb g ceiling =
     (let masked = Grant_from_dict amb (Grant_to_dict g);
          narrowed = Mask_and (mask_of g) (mask_of ceiling);
          masked = set_flags (to_flags narrowed) masked in
      if grant_is_allow g \<and> \<not> is_allow narrowed then masked\<lparr> effect := EFFECT_DENY \<rparr> else masked)"

section \<open>Roles\<close>

definition ROLE_PRESETS :: "string \<Rightarrow> (string \<times> bool) list option" where
  "ROLE_PRESETS = map_of [
     (''viewer'', [(''can_read'', True)]),
     (''contributor'', [(''can_create'', True), (''can_read'', True)]),
     (''editor'', [(''can_create'', True), (''can_read'', True), (''can_update'', True), (''can_delete'', True),
        (''can_evict'', True)]),
     (''collaborator'', [(''can_create'', True), (''can_read'', True), (''can_update'', True),
        (''can_delete'', True), (''can_evict'', True), (''can_invoke'', True), (''can_add'', True),
        (''can_share'', True)]),
     (''admin'', [(''can_create'', True), (''can_read'', True), (''can_update'', True), (''can_delete'', True),
        (''can_evict'', True), (''can_invoke'', True), (''can_add'', True), (''can_share'', True),
        (''can_admin'', True)])]"

definition permissions_for_role :: "string \<Rightarrow> (string \<times> bool) list result" where
  "permissions_for_role role = (case ROLE_PRESETS role of None \<Rightarrow> Inl ValueError | Some p \<Rightarrow> Inr p)"

section \<open>Well-formed grants and the codec law\<close>

text \<open>What every constructed grant has: an id, its timestamps, and a normalised non-empty effect.\<close>

definition wf_grant :: "grant \<Rightarrow> bool" where
  "wf_grant g = (g_id g \<noteq> [] \<and> created_time g \<noteq> [] \<and> modified_time g \<noteq> [] \<and> granted_at g \<noteq> []
     \<and> effect g \<noteq> [] \<and> norm_effect (effect g) = effect g)"

lemma norm_effect_idem [simp]: "norm_effect (norm_effect e) = norm_effect e"
  by (simp add: norm_effect_def py_strip_lower)

lemma norm_effect_words [simp]: "norm_effect EFFECT_ALLOW = EFFECT_ALLOW" "norm_effect EFFECT_DENY = EFFECT_DENY"
  by (simp_all add: norm_effect_def py_strip_def py_lower_def is_space_def lower_char_def)

lemma str_or_id [simp]: "s \<noteq> [] \<Longrightarrow> str_or s d = s"
  by (simp add: str_or_def)

lemma str_or_nonempty [simp]: "str_or s d = [] \<longleftrightarrow> s = [] \<and> d = []"
  by (simp add: str_or_def)

lemma Grant_init_wf:
  "fresh_id amb \<noteq> [] \<Longrightarrow> now_iso amb \<noteq> [] \<Longrightarrow> wf_grant (Grant_init amb a)"
  by (simp add: wf_grant_def Grant_init_def Let_def str_or_def)

lemma Grant_init_id: "wf_grant g \<Longrightarrow> Grant_init amb g = g"
  by (simp add: wf_grant_def Grant_init_def Let_def)

lemma as_opt_bool_val [simp]: "as_opt_bool (opt_bool_val b) = b"
  by (cases b) (simp_all add: opt_bool_val_def)

lemma as_opt_int_val [simp]: "as_opt_int (opt_int_val n) = n"
  by (cases n) (simp_all add: opt_int_val_def)

lemma from_to_dict: "Grant_from_dict amb (Grant_to_dict g) = Grant_init amb g"
  by (cases g) (simp add: Grant_from_dict_def Grant_to_dict_def dtext_def dtext_or_def dflag_def dget_def)

section \<open>Flags and masks\<close>

lemma set_flag_get [simp]:
  "f \<in> (\<lambda>a. ''can_'' @ a) ` set ACTIONS \<Longrightarrow> get_flag (set_flag f b g) f' = (if f' = f then b else get_flag g f')"
  by (auto simp: ACTIONS_def get_flag_def set_flag_def)

lemma set_flag_fields [simp, grant_simps]:
  "g_id (set_flag f b g) = g_id g"
  "created_time (set_flag f b g) = created_time g"
  "modified_time (set_flag f b g) = modified_time g"
  "resource_id (set_flag f b g) = resource_id g"
  "grantee_type (set_flag f b g) = grantee_type g"
  "grantee_id (set_flag f b g) = grantee_id g"
  "granted_by (set_flag f b g) = granted_by g"
  "effect (set_flag f b g) = effect g"
  "requires_identity (set_flag f b g) = requires_identity g"
  "read_requires_identity (set_flag f b g) = read_requires_identity g"
  "write_requires_identity (set_flag f b g) = write_requires_identity g"
  "invoke_requires_identity (set_flag f b g) = invoke_requires_identity g"
  "target_entity (set_flag f b g) = target_entity g"
  "target_entity_type (set_flag f b g) = target_entity_type g"
  "max_claims (set_flag f b g) = max_claims g"
  "claims_count (set_flag f b g) = claims_count g"
  "key_hint (set_flag f b g) = key_hint g"
  "last_used_at (set_flag f b g) = last_used_at g"
  "requires_nonce (set_flag f b g) = requires_nonce g"
  "gstate (set_flag f b g) = gstate g"
  "gname (set_flag f b g) = gname g"
  "gnotes (set_flag f b g) = gnotes g"
  "granted_at (set_flag f b g) = granted_at g"
  "expires_at (set_flag f b g) = expires_at g"
  "accepted_by (set_flag f b g) = accepted_by g"
  "accepted_at (set_flag f b g) = accepted_at g"
  "revoked_by (set_flag f b g) = revoked_by g"
  "revoked_at (set_flag f b g) = revoked_at g"
  by (simp_all add: set_flag_def)

lemma set_flags_keep: "(\<And>f b g. sel (set_flag f b g) = sel g) \<Longrightarrow> sel (set_flags fs g) = sel g"
  unfolding set_flags_def by (induction fs arbitrary: g) auto

lemma set_flags_fields [simp, grant_simps]:
  "g_id (set_flags fs g) = g_id g"
  "created_time (set_flags fs g) = created_time g"
  "modified_time (set_flags fs g) = modified_time g"
  "resource_id (set_flags fs g) = resource_id g"
  "grantee_type (set_flags fs g) = grantee_type g"
  "grantee_id (set_flags fs g) = grantee_id g"
  "granted_by (set_flags fs g) = granted_by g"
  "effect (set_flags fs g) = effect g"
  "requires_identity (set_flags fs g) = requires_identity g"
  "read_requires_identity (set_flags fs g) = read_requires_identity g"
  "write_requires_identity (set_flags fs g) = write_requires_identity g"
  "invoke_requires_identity (set_flags fs g) = invoke_requires_identity g"
  "target_entity (set_flags fs g) = target_entity g"
  "target_entity_type (set_flags fs g) = target_entity_type g"
  "max_claims (set_flags fs g) = max_claims g"
  "claims_count (set_flags fs g) = claims_count g"
  "key_hint (set_flags fs g) = key_hint g"
  "last_used_at (set_flags fs g) = last_used_at g"
  "requires_nonce (set_flags fs g) = requires_nonce g"
  "gstate (set_flags fs g) = gstate g"
  "gname (set_flags fs g) = gname g"
  "gnotes (set_flags fs g) = gnotes g"
  "granted_at (set_flags fs g) = granted_at g"
  "expires_at (set_flags fs g) = expires_at g"
  "accepted_by (set_flags fs g) = accepted_by g"
  "accepted_at (set_flags fs g) = accepted_at g"
  "revoked_by (set_flags fs g) = revoked_by g"
  "revoked_at (set_flags fs g) = revoked_at g"
  by (rule set_flags_keep, simp)+

lemma get_set_flags:
  "set (map fst fs) \<subseteq> (\<lambda>a. ''can_'' @ a) ` set ACTIONS \<Longrightarrow> distinct (map fst fs) \<Longrightarrow>
   get_flag (set_flags fs g) f = (case map_of fs f of None \<Rightarrow> get_flag g f | Some b \<Rightarrow> b)"
proof (induction fs arbitrary: g)
  case Nil
  show ?case by (simp add: set_flags_def)
next
  case (Cons p fs)
  obtain f' b where p: "p = (f', b)" by (cases p)
  have "get_flag (set_flags (p # fs) g) f = get_flag (set_flags fs (set_flag f' b g)) f"
    by (simp add: set_flags_def p)
  also have "\<dots> = (case map_of fs f of None \<Rightarrow> get_flag (set_flag f' b g) f | Some b \<Rightarrow> b)"
    using Cons by (simp add: p)
  also have "\<dots> = (case map_of (p # fs) f of None \<Rightarrow> get_flag g f | Some b \<Rightarrow> b)"
  proof (cases "f = f'")
    case True
    with Cons.prems have "map_of fs f = None" by (simp add: p map_of_eq_None_iff)
    with True Cons.prems show ?thesis by (simp add: p)
  qed (use Cons.prems in \<open>simp add: p split: option.splits\<close>)
  finally show ?case .
qed

lemma fst_to_flags [simp]: "map fst (to_flags m) = map (\<lambda>a. ''can_'' @ a) ACTIONS"
proof -
  have "map fst (to_flags m) = map (\<lambda>a. ''can_'' @ a) (map snd (zip [0..<length ACTIONS] ACTIONS))"
    unfolding to_flags_def map_map by (rule map_cong) auto
  then show ?thesis by simp
qed

lemma get_set_to_flags:
  assumes "a \<in> set ACTIONS"
  shows "get_flag (set_flags (to_flags m) g) (''can_'' @ a) = carries m a"
proof -
  have "distinct (map fst (to_flags m))" unfolding fst_to_flags by (simp add: ACTIONS_def)
  moreover have "set (map fst (to_flags m)) \<subseteq> (\<lambda>a. ''can_'' @ a) ` set ACTIONS"
    unfolding fst_to_flags by simp
  ultimately show ?thesis
    using to_flags_carries [OF assms, of m] by (subst get_set_flags) simp_all
qed

lemma mask_of_simps [simp, mask_simps]:
  "is_allow (mask_of g) = grant_is_allow g"
  "carries (mask_of g) a \<longleftrightarrow> a \<in> set ACTIONS \<and> get_flag g (''can_'' @ a)"
  "allows (mask_of g) a \<longleftrightarrow> grant_is_allow g \<and> a \<in> set ACTIONS \<and> get_flag g (''can_'' @ a)"
  by (auto simp: mask_of_def allows_def)

lemma allow_not_deny: "grant_is_allow g \<Longrightarrow> \<not> grant_is_deny g"
  by (simp add: grant_is_allow_def grant_is_deny_def)

lemma effect_of_init: "effect_of (Grant_init amb g) = str_or (effect_of g) EFFECT_ALLOW"
  by (simp add: effect_of_def Grant_init_def Let_def str_or_def)

lemma masked_by_fields [simp, grant_simps]:
  "g_id (masked_by amb g c) = str_or (g_id g) (fresh_id amb)"
  "resource_id (masked_by amb g c) = resource_id g"
  "grantee_type (masked_by amb g c) = grantee_type g"
  "grantee_id (masked_by amb g c) = grantee_id g"
  "gstate (masked_by amb g c) = gstate g"
  "expires_at (masked_by amb g c) = expires_at g"
  by (simp_all add: masked_by_def from_to_dict Grant_init_def Let_def)

lemma get_flag_effect [simp]: "get_flag (g\<lparr> effect := e \<rparr>) f = get_flag g f"
  by (simp add: get_flag_def)

lemma masked_by_flag:
  "a \<in> set ACTIONS \<Longrightarrow>
   get_flag (masked_by amb g c) (''can_'' @ a) = (get_flag g (''can_'' @ a) \<and> get_flag c (''can_'' @ a))"
  by (simp add: masked_by_def Let_def get_set_to_flags del: append.simps)

lemma masked_by_effect:
  "effect_of g \<noteq> [] \<Longrightarrow>
   effect_of (masked_by amb g c) = (if grant_is_allow g \<and> \<not> grant_is_allow c then EFFECT_DENY else effect_of g)"
proof -
  assume "effect_of g \<noteq> []"
  then have *: "effect_of (Grant_init amb g) = effect_of g" by (simp add: effect_of_init)
  have "effect_of (set_flags fs h) = effect_of h" for fs h by (simp add: effect_of_def)
  with * show ?thesis
    by (simp add: masked_by_def Let_def from_to_dict) (simp add: effect_of_def)
qed

lemma masked_by_mask:
  assumes "effect_of g \<noteq> []"
  shows "mask_of (masked_by amb g c) = Mask_and (mask_of g) (mask_of c)"
proof (rule mask_eqI)
  show "is_allow (mask_of (masked_by amb g c)) = is_allow (Mask_and (mask_of g) (mask_of c))"
    using masked_by_effect [OF assms, of amb c] by (auto simp: grant_is_allow_def)
  show "carries (mask_of (masked_by amb g c)) a = carries (Mask_and (mask_of g) (mask_of c)) a" for a
    using masked_by_flag [of a amb g c] by auto
qed

lemma wf_grant_effect: "wf_grant g \<Longrightarrow> effect_of g \<noteq> []"
  by (simp add: wf_grant_def effect_of_def)

section \<open>Correctness\<close>

text \<open>A grant survives its document: decoding what \<open>to_dict\<close> wrote gives back the same grant, field by
  field, for every grant the constructor can have built.\<close>

theorem grant_dict_roundtrip:
  assumes "fresh_id amb \<noteq> []" "now_iso amb \<noteq> []"
  shows "Grant_from_dict amb' (Grant_to_dict (Grant_init amb a)) = Grant_init amb a"
  using assms by (simp add: from_to_dict Grant_init_id Grant_init_wf)

definition sample_ambient :: ambient where
  "sample_ambient = \<lparr> now_us = 1000000, now_iso = ''t1'', fresh_id = ''u1'', parse_iso = (\<lambda>_. None) \<rparr>"

theorem grant_dict_roundtrip_witness:
  "Grant_from_dict sample_ambient (Grant_to_dict (Grant_init sample_ambient GRANT_ARGS))
     = Grant_init sample_ambient GRANT_ARGS"
  by (rule grant_dict_roundtrip) (simp_all add: sample_ambient_def)

text \<open>(C29) The bundle ceiling is the attenuation meet: masking a grant by a ceiling gives exactly the meet of
  the two authorities, so it never widens, and it keeps the grant's resource, grantee and state. A
  deny stays a deny with the bits both sides carry.\<close>

theorem masked_by_is_meet:
  assumes "wf_grant g"
  shows "mask_of (masked_by amb g ceiling) = Mask_and (mask_of g) (mask_of ceiling)
    \<and> (grant_is_deny g \<longrightarrow> grant_is_deny (masked_by amb g ceiling))
    \<and> g_id (masked_by amb g ceiling) = g_id g
    \<and> resource_id (masked_by amb g ceiling) = resource_id g
    \<and> gstate (masked_by amb g ceiling) = gstate g"
  using assms masked_by_mask [OF wf_grant_effect, of g amb ceiling]
    masked_by_effect [OF wf_grant_effect, of g amb ceiling]
  by (auto simp: grant_is_deny_def wf_grant_def dest: allow_not_deny)

definition sample_deny :: grant where
  "sample_deny = Grant_init sample_ambient (GRANT_ARGS\<lparr> effect := '' DENY '', can_share := True \<rparr>)"

theorem masked_by_is_meet_witness:
  "grant_is_deny (masked_by sample_ambient sample_deny (Grant_init sample_ambient GRANT_ARGS))"
proof -
  have "wf_grant sample_deny"
    by (simp add: sample_deny_def Grant_init_wf sample_ambient_def)
  moreover have "grant_is_deny sample_deny"
    by code_simp
  ultimately show ?thesis using masked_by_is_meet by blast
qed

definition role_mask :: "string \<Rightarrow> mask result" where
  "role_mask role = rbind (permissions_for_role role)
     (\<lambda>p. Inr (from_flags (\<lambda>f. map_of p f = Some True) True))"

text \<open>The role presets form a strict chain of authorities, viewer below contributor below editor below
  collaborator below admin, and admin is the full authority; any other role name is refused with
  \<open>ValueError\<close>.\<close>

theorem role_presets_chain:
  "(\<exists>v c e l. role_mask ''viewer'' = Inr v \<and> role_mask ''contributor'' = Inr c \<and> role_mask ''editor'' = Inr e
      \<and> role_mask ''collaborator'' = Inr l \<and> role_mask ''admin'' = Inr TOP
      \<and> Mask_lt v c \<and> Mask_lt c e \<and> Mask_lt e l \<and> Mask_lt l TOP)
   \<and> (role \<in> {''viewer'', ''contributor'', ''editor'', ''collaborator'', ''admin''}
       \<or> role_mask role = Inl ValueError)"
  by (auto simp: role_mask_def permissions_for_role_def ROLE_PRESETS_def rbind_def from_flags_def
      ACTIONS_def ALLOW_BIT_def ACTION_BITS_def TOP_def Mask_lt_def Mask_le_def upt_rec)

end
