(* ===== verification/Origin_Walk.thy ===== *)
theory Origin_Walk
  imports Attenuation Store_State
begin

text \<open>
  The origin lineage and the propagation light cone of \<open>db/lattice_api.py\<close>: \<open>get_origin_parent\<close>,
  \<open>get_origin_root\<close> (the principal whose key seals an artifact), \<open>origin_chain\<close> (upward: the resources a
  grant may sit on to reach an artifact) and \<open>list_origin_descendants\<close> (downward: everything a grant
  on a resource reaches).

  The reference is the relation \<open>conduct_rel\<close>: one pair for each origin containment edge whose
  propagate mask carries the action. The downward walk computes its image exactly, the upward walk
  stays inside it, and the two agree whenever every artifact has one origin edge. \<open>origin_chain\<close> is a
  generator: its model is the list of what it yields and the exception it ends with, if any.
\<close>

section \<open>Definitions\<close>

definition CONTAINS :: string where "CONTAINS = ''contains''"

definition get_origin_parent :: "lattice \<Rightarrow> string \<Rightarrow> (string \<times> pyval) option result" where
  "get_origin_parent st root_id =
     (case edges_of st root_id (Some CONTAINS) In of
        Inl EdgesTruncated \<Rightarrow> Inl EdgesTruncated
      | Inl _ \<Rightarrow> Inr None
      | Inr es \<Rightarrow> Inr (map_option (\<lambda>e. (e_src e, prop_mask e)) (find_first (\<lambda>e. truthy (eprop e ''is_origin'')) es)))"

definition edge_srcs :: "lattice \<Rightarrow> string list" where
  "edge_srcs st = map (e_src \<circ> snd) (edges st)"

lemma matching_edges_src: "e \<in> set (matching_edges st n l d) \<Longrightarrow> e_src e \<in> set (edge_srcs st)"
  by (auto simp: set_matching_edges edge_srcs_def)

lemma origin_parent_found:
  assumes "get_origin_parent st n = Inr (Some (p, m))"
  obtains e where "e \<in> set (matching_edges st n (Some CONTAINS) In)" "truthy (eprop e ''is_origin'')"
    "p = e_src e" "m = prop_mask e" "\<not> edge_fault st n"
proof -
  from assms obtain es where es: "edges_of st n (Some CONTAINS) In = Inr es"
    by (auto simp: get_origin_parent_def split: sum.splits py_error.splits)
  with assms obtain e where "find_first (\<lambda>e. truthy (eprop e ''is_origin'')) es = Some e" "p = e_src e" "m = prop_mask e"
    by (auto simp: get_origin_parent_def)
  with es that show thesis by (metis (no_types, lifting) edges_of_InrD find_first_Some)
qed

function get_origin_root_loop :: "lattice \<Rightarrow> string list \<Rightarrow> string \<Rightarrow> string result" where
  "get_origin_root_loop st visited current =
     (case get_origin_parent st current of
        Inl e \<Rightarrow> Inl e
      | Inr None \<Rightarrow> Inr current
      | Inr (Some (parent_id, _)) \<Rightarrow>
          if parent_id = [] \<or> parent_id \<in> set visited then Inr current
          else get_origin_root_loop st (parent_id # visited) parent_id)"
  by auto
termination
proof (relation "measure (\<lambda>(st, visited, _). card (set (edge_srcs st) - set visited))")
  fix st visited current x1 x2 pm parent_id m
  assume "get_origin_parent st current = Inr x1" "x1 = Some pm" "(parent_id, m) = pm"
    "\<not> (parent_id = [] \<or> parent_id \<in> set visited)"
  then have "parent_id \<in> set (edge_srcs st)" "parent_id \<notin> set visited"
    by (auto elim!: origin_parent_found dest: matching_edges_src)
  then have "set (edge_srcs st) - set (parent_id # visited) \<subset> set (edge_srcs st) - set visited" by auto
  then show "((st, parent_id # visited, parent_id), (st, visited, current))
      \<in> measure (\<lambda>(st, visited, _). card (set (edge_srcs st) - set visited))"
    unfolding in_measure prod.case by (rule psubset_card_mono [rotated]) simp
qed simp

declare get_origin_root_loop.simps [simp del]

definition get_origin_root :: "lattice \<Rightarrow> string \<Rightarrow> string result" where
  "get_origin_root st artifact_id = get_origin_root_loop st [artifact_id] artifact_id"

definition ORIGIN_WALK_CEILING :: nat where "ORIGIN_WALK_CEILING = 10000"

text \<open>The loop of \<open>origin_chain\<close>; \<open>seen\<close> lists the distinct resources yielded so far.\<close>

function chain_loop :: "lattice \<Rightarrow> string \<Rightarrow> nat \<Rightarrow> string list \<Rightarrow> string \<Rightarrow> string list \<times> py_error option" where
  "chain_loop st action ceiling seen cursor =
     (if ceiling < length seen then ([], Some OriginChainUnterminated)
      else
        (case get_origin_parent st cursor of
           Inl e \<Rightarrow> ([], Some e)
         | Inr None \<Rightarrow> ([], None)
         | Inr (Some (parent_id, m)) \<Rightarrow>
             if parent_id = [] \<or> parent_id \<in> set seen then ([], None)
             else if \<not> propagates m action then ([], None)
             else (case chain_loop st action ceiling (parent_id # seen) parent_id of
                     (ys, err) \<Rightarrow> (parent_id # ys, err))))"
  by auto
termination
  by (relation "measure (\<lambda>(_, _, ceiling, seen, _). Suc ceiling - length seen)") auto

declare chain_loop.simps [simp del]

text \<open>The root the walk starts from: the caller's, else the stored document's, else the artifact itself.\<close>

definition stored_root :: "lattice \<Rightarrow> string \<Rightarrow> string" where
  "stored_root st first =
     (case get_artifact st first of
        Inr (Some d) \<Rightarrow> if truthy (dget d ''root_id'') then as_text (dget d ''root_id'') else first
      | _ \<Rightarrow> first)"

definition origin_chain ::
  "lattice \<Rightarrow> string \<Rightarrow> string \<Rightarrow> string option \<Rightarrow> nat \<Rightarrow> string list \<times> py_error option" where
  "origin_chain st artifact_id action root_id ceiling =
     (let cursor = (case root_id of
                      Some r \<Rightarrow> if r = [] then stored_root st artifact_id else r
                    | None \<Rightarrow> stored_root st artifact_id);
          head = (if cursor = artifact_id then [artifact_id] else [artifact_id, cursor]) in
      case chain_loop st action ceiling (rev head) cursor of (ys, err) \<Rightarrow> (head @ ys, err))"

text \<open>One node of the downward walk: the destinations of its conducting edges. An unreadable node is
  skipped; a truncated read is raised.\<close>

definition conducting :: "lattice \<Rightarrow> string \<Rightarrow> string \<Rightarrow> string list result" where
  "conducting st action node =
     (case edges_of st node (Some CONTAINS) Out of
        Inl EdgesTruncated \<Rightarrow> Inl EdgesTruncated
      | Inl _ \<Rightarrow> Inr []
      | Inr es \<Rightarrow> Inr (map e_dst (filter (\<lambda>e. truthy (eprop e ''is_origin'') \<and> propagates (prop_mask e) action) es)))"

type_synonym cone = "string list \<times> string list \<times> string list"

definition cone_visit :: "string \<Rightarrow> cone \<Rightarrow> cone" where
  "cone_visit dst c =
     (case c of (seen, out, nxt) \<Rightarrow>
        if dst = [] \<or> dst \<in> set seen then c else (dst # seen, out @ [dst], nxt @ [dst]))"

fun cone_sweep :: "lattice \<Rightarrow> string \<Rightarrow> string list \<Rightarrow> cone \<Rightarrow> cone result" where
  "cone_sweep st action [] c = Inr c"
| "cone_sweep st action (node # frontier) c =
     (case conducting st action node of
        Inl e \<Rightarrow> Inl e
      | Inr dsts \<Rightarrow> cone_sweep st action frontier (fold cone_visit dsts c))"

definition edge_dsts :: "lattice \<Rightarrow> string list" where
  "edge_dsts st = map (e_dst \<circ> snd) (edges st)"

lemma conducting_dsts: "conducting st action node = Inr dsts \<Longrightarrow> set dsts \<subseteq> set (edge_dsts st)"
  by (auto simp: conducting_def edge_dsts_def set_matching_edges split: sum.splits py_error.splits
      dest!: edges_of_InrD)

text \<open>What a sweep adds: the new vertices, in the same order in all three of its sets.\<close>

definition next_of :: "lattice \<Rightarrow> string \<Rightarrow> string \<Rightarrow> string set" where
  "next_of st action n = (case conducting st action n of Inl _ \<Rightarrow> {} | Inr dsts \<Rightarrow> set dsts - {[]})"

lemma fold_visit_adds:
  "\<exists>new. fold cone_visit dsts (seen, out, nxt) = (rev new @ seen, out @ new, nxt @ new)
      \<and> distinct new \<and> set new = set dsts - {[]} - set seen"
proof (induction dsts arbitrary: seen out nxt)
  case (Cons d dsts)
  show ?case
  proof (cases "d = [] \<or> d \<in> set seen")
    case True
    then have "cone_visit d (seen, out, nxt) = (seen, out, nxt)" "set (d # dsts) - {[]} - set seen = set dsts - {[]} - set seen"
      by (auto simp: cone_visit_def)
    with Cons [of seen out nxt] show ?thesis by simp
  next
    case False
    from Cons [of "d # seen" "out @ [d]" "nxt @ [d]"] obtain new where
      new: "fold cone_visit dsts (d # seen, out @ [d], nxt @ [d]) = (rev new @ d # seen, (out @ [d]) @ new, (nxt @ [d]) @ new)"
      "distinct new" "set new = set dsts - {[]} - set (d # seen)" by blast
    have "set (d # new) = set (d # dsts) - {[]} - set seen" "distinct (d # new)" using new False by auto
    moreover from False have "cone_visit d (seen, out, nxt) = (d # seen, out @ [d], nxt @ [d])" by (simp add: cone_visit_def)
    ultimately show ?thesis using new(1) by (intro exI [of _ "d # new"]) simp
  qed
qed simp

lemma sweep_adds:
  assumes "cone_sweep st action frontier (seen, out, nxt) = Inr c"
  shows "\<exists>new. c = (rev new @ seen, out @ new, nxt @ new) \<and> distinct new
      \<and> set new = \<Union> (next_of st action ` set frontier) - set seen"
  using assms
proof (induction frontier arbitrary: seen out nxt)
  case (Cons n frontier)
  from Cons.prems obtain dsts where d: "conducting st action n = Inr dsts" by (auto split: sum.splits)
  then have nx: "next_of st action n = set dsts - {[]}" by (simp add: next_of_def)
  from fold_visit_adds [of dsts seen out nxt] obtain n1 where
    n1: "fold cone_visit dsts (seen, out, nxt) = (rev n1 @ seen, out @ n1, nxt @ n1)" "distinct n1"
      "set n1 = next_of st action n - set seen" using nx by metis
  with Cons.prems d have "cone_sweep st action frontier (rev n1 @ seen, out @ n1, nxt @ n1) = Inr c" by simp
  from Cons.IH [OF this] obtain n2 where
    n2: "c = (rev n2 @ rev n1 @ seen, (out @ n1) @ n2, (nxt @ n1) @ n2)" "distinct n2"
      "set n2 = \<Union> (next_of st action ` set frontier) - set (rev n1 @ seen)" by blast
  have "set (n1 @ n2) = \<Union> (next_of st action ` set (n # frontier)) - set seen" "distinct (n1 @ n2)"
    using n1(2,3) n2(2,3) by auto
  with n2(1) show ?case by (intro exI [of _ "n1 @ n2"]) simp
qed simp

lemma next_of_dsts: "next_of st action n \<subseteq> set (edge_dsts st)"
  by (auto simp: next_of_def split: sum.splits dest!: conducting_dsts)

function cone_loop :: "lattice \<Rightarrow> string \<Rightarrow> string list \<Rightarrow> string list \<Rightarrow> string list \<Rightarrow> string list result" where
  "cone_loop st action frontier seen out =
     (case cone_sweep st action frontier (seen, out, []) of
        Inl e \<Rightarrow> Inl e
      | Inr (seen', out', nxt) \<Rightarrow> if nxt = [] then Inr out' else cone_loop st action nxt seen' out')"
  by auto
termination
proof (relation "measure (\<lambda>(st, action, frontier, seen, out). card (set (edge_dsts st) - set seen))")
  fix st action frontier seen out c seen' x out' nxt
  assume "cone_sweep st action frontier (seen, out, []) = Inr c" and c: "(seen', x) = c" "(out', nxt) = x" "nxt \<noteq> []"
  from sweep_adds [OF this(1)] c have "set nxt \<subseteq> set (edge_dsts st)" "set nxt \<inter> set seen = {}"
    "set seen' = set nxt \<union> set seen" using next_of_dsts by fastforce+
  moreover from c(3) have "hd nxt \<in> set nxt" by simp
  ultimately have "set (edge_dsts st) - set seen' \<subset> set (edge_dsts st) - set seen"
    by blast
  then show "((st, action, nxt, seen', out'), (st, action, frontier, seen, out))
      \<in> measure (\<lambda>(st, action, frontier, seen, out). card (set (edge_dsts st) - set seen))"
    by (simp add: psubset_card_mono)
qed simp

declare cone_loop.simps [simp del]

definition list_origin_descendants :: "lattice \<Rightarrow> string list \<Rightarrow> string \<Rightarrow> string list result" where
  "list_origin_descendants st root_ids action =
     (if root_ids = [] then Inr [] else cone_loop st action root_ids root_ids [])"

section \<open>The conduction relation\<close>

definition origin_edge :: "erow \<Rightarrow> bool" where
  "origin_edge e = (e_label e = CONTAINS \<and> truthy (eprop e ''is_origin''))"

definition conducts :: "string \<Rightarrow> erow \<Rightarrow> bool" where
  "conducts action e = (origin_edge e \<and> propagates (prop_mask e) action)"

definition conduct_rel :: "lattice \<Rightarrow> string \<Rightarrow> (string \<times> string) set" where
  "conduct_rel st action =
     {(e_src e, e_dst e) | e. e \<in> snd ` set (edges st) \<and> conducts action e \<and> e_dst e \<noteq> [] \<and> \<not> edge_fault st (e_src e)}"

lemma matching_contains:
  "e \<in> set (matching_edges st n (Some CONTAINS) dir)
     \<longleftrightarrow> e \<in> snd ` set (edges st) \<and> (case dir of Out \<Rightarrow> e_src e | In \<Rightarrow> e_dst e) = n \<and> e_label e = CONTAINS"
  by (auto simp: set_matching_edges edge_match_def CONTAINS_def)

lemma next_of_rel:
  assumes "conducting st action n = Inr dsts"
  shows "next_of st action n = {d. (n, d) \<in> conduct_rel st action}"
proof (cases "edges_of st n (Some CONTAINS) Out")
  case (Inl e)
  with assms have "edge_fault st n" by (auto simp: conducting_def edges_of_cases split: if_splits)
  moreover from assms Inl have "dsts = []" by (auto simp: conducting_def split: py_error.splits)
  ultimately show ?thesis using assms by (auto simp: next_of_def conduct_rel_def)
next
  case (Inr es)
  with assms have "dsts = map e_dst (filter (\<lambda>e. truthy (eprop e ''is_origin'') \<and> propagates (prop_mask e) action) es)"
    by (simp add: conducting_def)
  moreover from edges_of_InrD [OF Inr] have "es = matching_edges st n (Some CONTAINS) Out" "\<not> edge_fault st n" by auto
  ultimately show ?thesis using assms
    by (auto simp: next_of_def conduct_rel_def conducts_def origin_edge_def matching_contains)
qed

lemma conducting_Inl: "conducting st action n = Inl e \<Longrightarrow>
    e = EdgesTruncated \<and> 1000000 < length (matching_edges st n (Some CONTAINS) Out)"
  by (auto simp: conducting_def edges_of_cases split: if_splits)

lemma sweep_conducting:
  "cone_sweep st action frontier c = Inr c' \<Longrightarrow> n \<in> set frontier \<Longrightarrow> \<exists>dsts. conducting st action n = Inr dsts"
proof (induction frontier arbitrary: c)
  case (Cons m frontier)
  from Cons.prems(1) obtain ds where "conducting st action m = Inr ds"
    "cone_sweep st action frontier (fold cone_visit ds c) = Inr c'" by (auto split: sum.splits)
  with Cons.IH [OF this(2)] Cons.prems(2) show ?case by auto
qed simp

lemma sweep_Inl: "cone_sweep st action frontier c = Inl e \<Longrightarrow> \<exists>n \<in> set frontier. conducting st action n = Inl e"
  by (induction frontier arbitrary: c) (auto split: sum.splits)

text \<open>The invariant of the downward walk: everything seen is reachable, and everything seen but the
  frontier has all its successors seen.\<close>

definition cone_inv :: "(string \<times> string) set \<Rightarrow> string set \<Rightarrow> string list \<Rightarrow> string list \<Rightarrow> string list \<Rightarrow> bool" where
  "cone_inv R roots frontier seen out =
     (set seen = roots \<union> set out \<and> distinct out \<and> roots \<inter> set out = {} \<and> set frontier \<subseteq> set seen
      \<and> set seen \<subseteq> R\<^sup>* `` roots \<and> R `` (set seen - set frontier) \<subseteq> set seen)"

lemma cone_inv_step:
  assumes inv: "cone_inv (conduct_rel st action) roots frontier seen out"
    and sw: "cone_sweep st action frontier (seen, out, []) = Inr (seen', out', nxt)"
  shows "cone_inv (conduct_rel st action) roots nxt seen' out'"
proof -
  let ?R = "conduct_rel st action"
  from sweep_adds [OF sw] have n: "seen' = rev nxt @ seen" "out' = out @ nxt" "distinct nxt"
    "set nxt = \<Union> (next_of st action ` set frontier) - set seen" by auto
  have "next_of st action n = {d. (n, d) \<in> ?R}" if "n \<in> set frontier" for n
    using sweep_conducting [OF sw that] next_of_rel by blast
  then have "\<Union> (next_of st action ` set frontier) = ?R `` set frontier" by auto
  with n(4) have new: "set nxt = ?R `` set frontier - set seen" by simp
  from inv have "set frontier \<subseteq> ?R\<^sup>* `` roots" unfolding cone_inv_def by blast
  then have "?R `` set frontier \<subseteq> ?R\<^sup>* `` roots" by (blast intro: rtrancl_into_rtrancl)
  with new have reach: "set nxt \<subseteq> ?R\<^sup>* `` roots" by blast
  from inv have "?R `` (set seen - set frontier) \<subseteq> set seen" unfolding cone_inv_def by blast
  moreover have "set seen' = set nxt \<union> set seen" using n(1) by simp
  ultimately have "?R `` (set seen' - set nxt) \<subseteq> set seen'" using new by blast
  moreover have "set seen' = roots \<union> set out'" "distinct out'" "roots \<inter> set out' = {}"
    using inv new n by (auto simp: cone_inv_def)
  moreover have "set seen' \<subseteq> ?R\<^sup>* `` roots"
    using inv reach \<open>set seen' = set nxt \<union> set seen\<close> unfolding cone_inv_def by blast
  ultimately show ?thesis using \<open>set seen' = set nxt \<union> set seen\<close> unfolding cone_inv_def by blast
qed

lemma closed_rtrancl: "roots \<subseteq> S \<Longrightarrow> R `` S \<subseteq> S \<Longrightarrow> R\<^sup>* `` roots \<subseteq> S"
  by (metis Image_closed_trancl Image_mono order_refl subset_trans)

lemma cone_loop_exact:
  assumes "cone_inv (conduct_rel st action) roots frontier seen out"
  shows "case cone_loop st action frontier seen out of
      Inr out' \<Rightarrow> distinct out' \<and> set out' = (conduct_rel st action)\<^sup>* `` roots - roots
    | Inl e \<Rightarrow> e = EdgesTruncated \<and> (\<exists>n. n \<in> (conduct_rel st action)\<^sup>* `` roots
          \<and> 1000000 < length (matching_edges st n (Some CONTAINS) Out))"
  using assms
proof (induction st action frontier seen out rule: cone_loop.induct)
  case (1 st action frontier seen out)
  let ?R = "conduct_rel st action"
  show ?case
  proof (cases "cone_sweep st action frontier (seen, out, [])")
    case (Inl e)
    from sweep_Inl [OF Inl] 1(2) have "e = EdgesTruncated \<and> (\<exists>n. n \<in> ?R\<^sup>* `` roots
        \<and> 1000000 < length (matching_edges st n (Some CONTAINS) Out))"
      unfolding cone_inv_def by (blast dest: conducting_Inl)
    with Inl show ?thesis by (simp add: cone_loop.simps)
  next
    case (Inr c)
    obtain seen' out' nxt where c: "c = (seen', out', nxt)" by (cases c)
    with Inr cone_inv_step [OF 1(2)] have inv: "cone_inv ?R roots nxt seen' out'" by blast
    show ?thesis
    proof (cases "nxt = []")
      case True
      with inv have "?R `` set seen' \<subseteq> set seen'" unfolding cone_inv_def
        by (metis Diff_empty empty_set)
      moreover from inv have "roots \<subseteq> set seen'" unfolding cone_inv_def by blast
      ultimately have "?R\<^sup>* `` roots \<subseteq> set seen'" by (rule closed_rtrancl [rotated])
      with inv have "distinct out'" "set out' = ?R\<^sup>* `` roots - roots" by (auto simp: cone_inv_def)
      with True Inr c show ?thesis by (simp add: cone_loop.simps)
    next
      case False
      from 1(1) [OF Inr c [symmetric] refl False inv] False Inr c show ?thesis by (simp add: cone_loop.simps [of _ _ frontier])
    qed
  qed
qed

section \<open>The upward walk\<close>

definition healthy :: "lattice \<Rightarrow> bool" where
  "healthy st = (\<forall>n. \<not> edge_fault st n)"

text \<open>One hop of \<open>origin_chain\<close>: the origin parent, when the edge to it carries the action.\<close>

definition up :: "lattice \<Rightarrow> string \<Rightarrow> string \<Rightarrow> string option" where
  "up st action n =
     (case get_origin_parent st n of
        Inr (Some (p, m)) \<Rightarrow> if p \<noteq> [] \<and> propagates m action then Some p else None
      | _ \<Rightarrow> None)"

lemma up_conducts:
  assumes "healthy st" "n \<noteq> []" "up st action n = Some p"
  shows "(p, n) \<in> conduct_rel st action"
proof -
  from assms(3) obtain m where "get_origin_parent st n = Inr (Some (p, m))" "propagates m action"
    by (auto simp: up_def split: sum.splits option.splits if_splits)
  then obtain e where "e \<in> set (matching_edges st n (Some CONTAINS) In)" "truthy (eprop e ''is_origin'')"
    "p = e_src e" "propagates (prop_mask e) action" by (auto elim!: origin_parent_found)
  with assms(1,2) show ?thesis
    by (auto simp: conduct_rel_def conducts_def origin_edge_def matching_contains healthy_def)
qed

lemma chain_loop_cases:
  "chain_loop st action ceiling seen cursor =
     (if ceiling < length seen then ([], Some OriginChainUnterminated)
      else case get_origin_parent st cursor of
             Inl e \<Rightarrow> ([], Some e)
           | Inr _ \<Rightarrow>
               (case up st action cursor of
                  None \<Rightarrow> ([], None)
                | Some p \<Rightarrow> if p \<in> set seen then ([], None)
                            else map_prod (Cons p) id (chain_loop st action ceiling (p # seen) p)))"
  by (subst chain_loop.simps) (auto simp: up_def split: sum.splits option.splits prod.splits)

lemma chain_loop_induct [case_names raise stop hop]:
  assumes raise: "\<And>seen cur e. chain_loop st action ceiling seen cur = ([], Some e) \<Longrightarrow> P seen cur"
    and stop: "\<And>seen cur. chain_loop st action ceiling seen cur = ([], None) \<Longrightarrow>
        (case up st action cur of None \<Rightarrow> True | Some p \<Rightarrow> p \<in> set seen) \<Longrightarrow> P seen cur"
    and hop: "\<And>seen cur p. up st action cur = Some p \<Longrightarrow> p \<notin> set seen \<Longrightarrow> length seen \<le> ceiling \<Longrightarrow> P (p # seen) p \<Longrightarrow>
        chain_loop st action ceiling seen cur = map_prod (Cons p) id (chain_loop st action ceiling (p # seen) p) \<Longrightarrow>
        P seen cur"
  shows "P seen cur"
proof (induction "Suc ceiling - length seen" arbitrary: seen cur rule: less_induct)
  case (less seen cur)
  note step = chain_loop_cases [of st action ceiling seen cur]
  show ?case
  proof (cases "ceiling < length seen \<or> (\<exists>e. get_origin_parent st cur = Inl e)")
    case True
    with step show ?thesis by (auto intro: raise split: if_splits)
  next
    case False
    then obtain r where r: "get_origin_parent st cur = Inr r" by (cases "get_origin_parent st cur") auto
    show ?thesis
    proof (cases "case up st action cur of None \<Rightarrow> True | Some p \<Rightarrow> p \<in> set seen")
      case True
      with False r step show ?thesis by (intro stop) (auto split: option.splits)
    next
      case nf: False
      then obtain p where "up st action cur = Some p" "p \<notin> set seen" by (auto split: option.splits)
      with False r step less show ?thesis by (intro hop [of cur p]) auto
    qed
  qed
qed

lemma up_nonempty: "up st action n = Some p \<Longrightarrow> p \<noteq> []"
  by (auto simp: up_def split: sum.splits option.splits if_splits)

text \<open>The yielded resources are new, distinct, and each one conducts to the cursor.\<close>

lemma chain_loop_distinct:
  "distinct (fst (chain_loop st action ceiling seen cur)) \<and> set (fst (chain_loop st action ceiling seen cur)) \<inter> set seen = {}"
  by (induction seen cur rule: chain_loop_induct [of st action ceiling]) (auto simp: map_prod_def split: prod.splits)

lemma chain_loop_sound:
  assumes "healthy st" "cur \<noteq> []" "y \<in> set (fst (chain_loop st action ceiling seen cur))"
  shows "(y, cur) \<in> (conduct_rel st action)\<^sup>+"
  using assms(2,3)
proof (induction seen cur rule: chain_loop_induct [of st action ceiling])
  case (hop seen cur p)
  with up_conducts [OF assms(1) hop(6,1)] up_nonempty [OF hop(1)] show ?case
    by (auto intro: trancl_into_trancl)
qed auto

lemma chain_loop_error:
  "snd (chain_loop st action ceiling seen cur) = Some e \<Longrightarrow>
   e = EdgesTruncated \<or> (e = OriginChainUnterminated \<and> ceiling < length seen + length (fst (chain_loop st action ceiling seen cur)))"
proof (induction seen cur rule: chain_loop_induct [of st action ceiling])
  case (raise seen cur e')
  then show ?case
    by (auto simp: chain_loop_cases [of st action ceiling seen cur] get_origin_parent_def edges_of_cases
        split: if_splits sum.splits option.splits dest!: arg_cong [where f = fst])
qed auto

text \<open>Every artifact has at most one origin edge.\<close>

definition single_origin :: "lattice \<Rightarrow> bool" where
  "single_origin st = (\<forall>e1 \<in> snd ` set (edges st). \<forall>e2 \<in> snd ` set (edges st).
     origin_edge e1 \<and> origin_edge e2 \<and> e_dst e1 = e_dst e2 \<longrightarrow> e1 = e2)"

lemma up_complete:
  assumes h: "healthy st" and single: "single_origin st" and p: "(p, n) \<in> conduct_rel st action" "p \<noteq> []"
    and readable: "get_origin_parent st n = Inr r"
  shows "up st action n = Some p"
proof -
  from p(1) obtain e where e: "e \<in> snd ` set (edges st)" "conducts action e" "e_src e = p" "e_dst e = n"
    by (auto simp: conduct_rel_def)
  from readable h have read: "edges_of st n (Some CONTAINS) In = Inr (matching_edges st n (Some CONTAINS) In)"
    by (auto simp: get_origin_parent_def edges_of_cases healthy_def split: if_splits)
  have "e \<in> set (matching_edges st n (Some CONTAINS) In)" "truthy (eprop e ''is_origin'')"
    using e by (auto simp: matching_contains conducts_def origin_edge_def)
  then obtain f where f: "find_first (\<lambda>e. truthy (eprop e ''is_origin'')) (matching_edges st n (Some CONTAINS) In) = Some f"
    by (cases "find_first (\<lambda>e. truthy (eprop e ''is_origin'')) (matching_edges st n (Some CONTAINS) In)")
      (auto simp: find_first_None)
  have "f = e" using find_first_Some [OF f] e single
    by (auto simp: matching_contains single_origin_def conducts_def origin_edge_def)
  with f read e p(2) show ?thesis by (simp add: up_def get_origin_parent_def conducts_def)
qed

lemma pred_closed_contains:
  assumes "(y, root) \<in> R\<^sup>*" "root \<in> S" "y \<in> N" "\<And>p s. (p, s) \<in> R \<Longrightarrow> p \<in> N \<Longrightarrow> s \<in> S \<Longrightarrow> p \<in> S"
    "\<And>p s. (p, s) \<in> R \<Longrightarrow> s \<in> N"
  shows "y \<in> S"
  using assms(1,3)
proof (induction rule: converse_rtrancl_induct)
  case (step y z)
  with assms(4,5) show ?case by blast
qed (rule assms(2))

lemma chain_loop_complete:
  fixes st action root
  defines "R \<equiv> conduct_rel st action" and "A \<equiv> {x. x \<noteq> [] \<and> (x, root) \<in> (conduct_rel st action)\<^sup>*}"
  assumes h: "healthy st" "single_origin st" and root: "root \<noteq> []"
  shows "snd (chain_loop st action ceiling seen cur) = None \<Longrightarrow> cur \<in> A \<Longrightarrow> cur \<in> set seen \<Longrightarrow> root \<in> set seen \<Longrightarrow>
    (\<And>p s. s \<in> set seen \<Longrightarrow> s \<in> A \<Longrightarrow> s \<noteq> cur \<Longrightarrow> p \<noteq> [] \<Longrightarrow> (p, s) \<in> R \<Longrightarrow> p \<in> set seen) \<Longrightarrow>
    A \<subseteq> set seen \<union> set (fst (chain_loop st action ceiling seen cur))"
proof (induction seen cur rule: chain_loop_induct [of st action ceiling])
  case (stop seen cur)
  then obtain r where "get_origin_parent st cur = Inr r"
    by (auto simp: chain_loop_cases [of st action ceiling seen cur] split: if_splits sum.splits)
  with h have "p \<in> set seen" if "(p, cur) \<in> R" "p \<noteq> []" for p
    using up_complete [of st p cur action r] stop(2) that by (auto simp: R_def)
  with stop(7) have closed: "p \<in> set seen" if "(p, s) \<in> R" "p \<noteq> []" "s \<in> set seen" "s \<in> A" for p s
    using that by metis
  have "y \<in> set seen \<inter> A" if "y \<in> A" for y
  proof (rule pred_closed_contains [of y root R _ "{x. x \<noteq> []}"])
    show "root \<in> set seen \<inter> A" using stop(6) root by (simp add: A_def)
  qed (use that closed in \<open>auto simp: A_def R_def conduct_rel_def intro: converse_rtrancl_into_rtrancl\<close>)
  then show ?case by blast
next
  case (hop seen cur p)
  then obtain r where r: "get_origin_parent st cur = Inr r"
    by (auto simp: up_def split: sum.splits)
  have "q = p" if "(q, cur) \<in> R" "q \<noteq> []" for q
    using up_complete [OF h _ that(2) r] that(1) hop(1) by (auto simp: R_def)
  moreover have "p \<in> A"
    using up_conducts [OF h(1) _ hop(1)] hop(7) up_nonempty [OF hop(1)]
    by (auto simp: A_def intro: converse_rtrancl_into_rtrancl)
  moreover have "snd (chain_loop st action ceiling (p # seen) p) = None" using hop(4,6) by simp
  ultimately have "A \<subseteq> set (p # seen) \<union> set (fst (chain_loop st action ceiling (p # seen) p))"
    using hop(9,10) by (intro hop(5)) auto
  with hop(4) show ?case by auto
qed auto

section \<open>The origin principal\<close>

definition parent_rel :: "lattice \<Rightarrow> (string \<times> string) set" where
  "parent_rel st = {(p, n). p \<noteq> [] \<and> (\<exists>m. get_origin_parent st n = Inr (Some (p, m)))}"

lemma root_loop_cases:
  "get_origin_root_loop st visited cur =
     (case get_origin_parent st cur of
        Inl e \<Rightarrow> Inl e
      | Inr None \<Rightarrow> Inr cur
      | Inr (Some (p, _)) \<Rightarrow> if p = [] \<or> p \<in> set visited then Inr cur else get_origin_root_loop st (p # visited) p)"
  by (subst get_origin_root_loop.simps) rule

text \<open>On an acyclic lineage the set of visited resources never decides anything.\<close>

lemma root_loop_visited:
  "acyclic (parent_rel st) \<Longrightarrow> (\<And>a. (a, cur) \<in> (parent_rel st)\<^sup>+ \<Longrightarrow> a \<notin> set visited \<union> set visited') \<Longrightarrow>
    get_origin_root_loop st visited cur = get_origin_root_loop st visited' cur"
proof (induction st visited cur arbitrary: visited' rule: get_origin_root_loop.induct)
  case (1 st visited cur)
  show ?case
  proof (cases "\<exists>p. (p, cur) \<in> parent_rel st")
    case False
    then show ?thesis
      by (auto simp: root_loop_cases [of st _ cur] parent_rel_def split: sum.splits option.splits prod.splits)
  next
    case True
    then obtain p m where p: "get_origin_parent st cur = Inr (Some (p, m))" "p \<noteq> []" "(p, cur) \<in> parent_rel st"
      by (auto simp: parent_rel_def)
    then have fresh: "p \<notin> set visited" "p \<notin> set visited'" using 1(3) by blast+
    have "a \<notin> set (p # visited) \<union> set (p # visited')" if "(a, p) \<in> (parent_rel st)\<^sup>+" for a
    proof -
      from that p(3) have "(a, cur) \<in> (parent_rel st)\<^sup>+" by (rule trancl_into_trancl)
      with 1(3) have "a \<notin> set visited \<union> set visited'" by blast
      moreover have "a \<noteq> p" using that 1(2) by (auto simp: acyclic_def)
      ultimately show ?thesis by simp
    qed
    with 1(1) [OF p(1) refl refl] 1(2) p(2) fresh have
      "get_origin_root_loop st (p # visited) p = get_origin_root_loop st (p # visited') p" by blast
    with p fresh show ?thesis by (simp add: root_loop_cases [of st _ cur])
  qed
qed

lemma origin_root_parent:
  assumes "acyclic (parent_rel st)" "(p, n) \<in> parent_rel st"
  shows "get_origin_root st n = get_origin_root st p"
proof -
  from assms(2) obtain m where p: "get_origin_parent st n = Inr (Some (p, m))" "p \<noteq> []" by (auto simp: parent_rel_def)
  have "p \<noteq> n" using assms by (auto simp: acyclic_def)
  with p have "get_origin_root st n = get_origin_root_loop st [p, n] p"
    by (simp add: get_origin_root_def root_loop_cases [of st _ n])
  also have "\<dots> = get_origin_root_loop st [p] p"
  proof (rule root_loop_visited [OF assms(1)])
    fix a assume a: "(a, p) \<in> (parent_rel st)\<^sup>+"
    from this assms(2) have "(a, n) \<in> (parent_rel st)\<^sup>+" by (rule trancl_into_trancl)
    with a assms(1) show "a \<notin> set [p, n] \<union> set [p]" by (auto simp: acyclic_def)
  qed
  finally show ?thesis by (simp add: get_origin_root_def)
qed

text \<open>Everything visited lies below the cursor, so a parent that was visited closes a cycle.\<close>

lemma root_loop_result:
  "get_origin_root_loop st visited cur = Inr r \<Longrightarrow> (\<And>v. v \<in> set visited \<Longrightarrow> (cur, v) \<in> (parent_rel st)\<^sup>*) \<Longrightarrow>
     (r, cur) \<in> (parent_rel st)\<^sup>* \<and> (\<forall>p. (p, r) \<in> parent_rel st \<longrightarrow> (r, p) \<in> (parent_rel st)\<^sup>*)"
proof (induction st visited cur rule: get_origin_root_loop.induct)
  case (1 st visited cur)
  show ?case
  proof (cases "\<exists>p m. get_origin_parent st cur = Inr (Some (p, m)) \<and> p \<noteq> [] \<and> p \<notin> set visited")
    case True
    then obtain p m where p: "get_origin_parent st cur = Inr (Some (p, m))" "p \<noteq> []" "p \<notin> set visited" by blast
    then have pc: "(p, cur) \<in> parent_rel st" by (auto simp: parent_rel_def)
    from p 1(2) have "get_origin_root_loop st (p # visited) p = Inr r" by (simp add: root_loop_cases [of st _ cur])
    moreover have "(p, v) \<in> (parent_rel st)\<^sup>*" if "v \<in> set (p # visited)" for v
      using that pc 1(3) by (auto intro: converse_rtrancl_into_rtrancl)
    ultimately have "(r, p) \<in> (parent_rel st)\<^sup>* \<and> (\<forall>p. (p, r) \<in> parent_rel st \<longrightarrow> (r, p) \<in> (parent_rel st)\<^sup>*)"
      using 1(1) [OF p(1) refl refl] p(2,3) by blast
    with pc show ?thesis by (auto intro: rtrancl_into_rtrancl)
  next
    case False
    with 1(2,3) show ?thesis
      by (auto simp: root_loop_cases [of st _ cur] parent_rel_def split: sum.splits option.splits prod.splits if_splits)
  qed
qed

lemma origin_root_top:
  assumes "acyclic (parent_rel st)" "get_origin_root st n = Inr r"
  shows "(r, n) \<in> (parent_rel st)\<^sup>*" "(p, r) \<notin> parent_rel st"
proof -
  from root_loop_result [of st "[n]" n r] assms(2) have r: "(r, n) \<in> (parent_rel st)\<^sup>*"
    "(p, r) \<in> parent_rel st \<longrightarrow> (r, p) \<in> (parent_rel st)\<^sup>*" by (auto simp: get_origin_root_def)
  show "(r, n) \<in> (parent_rel st)\<^sup>*" by (rule r(1))
  show "(p, r) \<notin> parent_rel st"
    using r(2) assms(1) by (metis acyclic_def rtrancl_into_trancl1)
qed

section \<open>Correctness\<close>

lemma cone_exact:
  "case list_origin_descendants st root_ids action of
     Inr out \<Rightarrow> distinct out \<and> set out = (conduct_rel st action)\<^sup>* `` set root_ids - set root_ids
   | Inl e \<Rightarrow> e = EdgesTruncated \<and> (\<exists>n. n \<in> (conduct_rel st action)\<^sup>* `` set root_ids
       \<and> 1000000 < length (matching_edges st n (Some CONTAINS) Out))"
proof (cases "root_ids = []")
  case False
  have "cone_inv (conduct_rel st action) (set root_ids) root_ids root_ids []" by (auto simp: cone_inv_def)
  from cone_loop_exact [OF this] False show ?thesis by (simp add: list_origin_descendants_def)
qed (simp add: list_origin_descendants_def)

text \<open>(C4) The light cone is exact: \<open>list_origin_descendants\<close> returns, without repetition, exactly the
  artifacts reachable from the seeds over origin containment edges whose propagate mask carries the
  action, the seeds excluded. It always ends, and raises only \<open>EdgesTruncated\<close>, only when a reachable
  container holds more edges than one read may return.\<close>

theorem light_cone_exact:
  "case list_origin_descendants st root_ids action of
     Inr out \<Rightarrow> distinct out \<and> set out = (conduct_rel st action)\<^sup>* `` set root_ids - set root_ids
   | Inl e \<Rightarrow> e = EdgesTruncated \<and> (\<exists>n. n \<in> (conduct_rel st action)\<^sup>* `` set root_ids
       \<and> 1000000 < length (matching_edges st n (Some CONTAINS) Out))"
  by (rule cone_exact)

text \<open>(C32) The upward walk always ends, yields no resource twice, and raises only \<open>EdgesTruncated\<close>, or
  \<open>OriginChainUnterminated\<close> after more than \<open>ceiling\<close> distinct resources; a cyclic lineage ends the
  chain without an exception.\<close>

theorem origin_chain_ends:
  "case origin_chain st artifact_id action root_id ceiling of
     (ys, err) \<Rightarrow> distinct ys \<and> ys \<noteq> [] \<and> hd ys = artifact_id
       \<and> (case err of
            None \<Rightarrow> True
          | Some e \<Rightarrow> e = EdgesTruncated \<or> (e = OriginChainUnterminated \<and> ceiling < length ys))"
proof -
  define cur where "cur = (case root_id of Some r \<Rightarrow> if r = [] then stored_root st artifact_id else r
      | None \<Rightarrow> stored_root st artifact_id)"
  define seen where "seen = (if cur = artifact_id then [artifact_id] else [artifact_id, cur])"
  obtain ys err where run: "chain_loop st action ceiling (rev seen) cur = (ys, err)" by fastforce
  with chain_loop_distinct [of st action ceiling "rev seen" cur] have "distinct ys" "set ys \<inter> set seen = {}" by simp_all
  moreover from run chain_loop_error [of st action ceiling "rev seen" cur]
  have "err = Some e \<Longrightarrow> e = EdgesTruncated \<or> e = OriginChainUnterminated \<and> ceiling < length seen + length ys" for e
    by simp
  moreover have "distinct seen" "seen \<noteq> []" "hd seen = artifact_id" by (simp_all add: seen_def)
  ultimately show ?thesis using run
    unfolding origin_chain_def cur_def [symmetric] seen_def [symmetric] Let_def
    by (auto split: option.splits)
qed

lemma cone_member:
  assumes "length (edges st) \<le> 1000000" "root \<noteq> r"
  shows "(\<exists>out. list_origin_descendants st [r] action = Inr out \<and> root \<in> set out) \<longleftrightarrow> (r, root) \<in> (conduct_rel st action)\<^sup>*"
proof -
  have "length (matching_edges st n (Some CONTAINS) Out) \<le> 1000000" for n
    using assms(1) by (auto simp: matching_edges_def intro: order_trans [OF length_filter_le])
  then have no: "\<not> 1000000 < length (matching_edges st n (Some CONTAINS) Out)" for n by (simp add: not_less)
  show ?thesis
    using cone_exact [where st = st and root_ids = "[r]" and action = action] assms(2) by (auto simp: no split: sum.splits)
qed

text \<open>The upward and the downward walk agree: on a readable store in which every artifact has one
  origin edge, a resource \<open>r\<close> is on the origin chain of an artifact exactly when the artifact's root is
  in the light cone of \<open>r\<close>, for every action, so a grant found by walking up is one that reaches by
  walking down and conversely.\<close>

theorem chain_and_cone_agree:
  assumes "healthy st" "single_origin st" "length (edges st) \<le> 1000000"
    and "origin_chain st artifact_id action (Some root) ceiling = (ys, None)"
    and "root \<noteq> []" "r \<noteq> []" "r \<noteq> artifact_id" "r \<noteq> root"
    and "artifact_id = root \<or> (artifact_id, root) \<notin> (conduct_rel st action)\<^sup>*"
  shows "r \<in> set ys \<longleftrightarrow> (\<exists>out. list_origin_descendants st [r] action = Inr out \<and> root \<in> set out)"
proof -
  define seen where "seen = rev (if root = artifact_id then [artifact_id] else [artifact_id, root])"
  obtain zs where run: "chain_loop st action ceiling seen root = (zs, None)" and ys: "ys = rev seen @ zs"
    using assms(4,5) by (auto simp: origin_chain_def seen_def Let_def split: prod.splits)
  have "r \<in> set ys \<longleftrightarrow> r \<in> set zs" using assms(7,8) by (auto simp: ys seen_def)
  moreover have "(r, root) \<in> (conduct_rel st action)\<^sup>*" if "r \<in> set zs"
    using chain_loop_sound [OF assms(1,5), of r action ceiling seen] that run by auto
  moreover have "r \<in> set zs" if rr: "(r, root) \<in> (conduct_rel st action)\<^sup>*"
  proof -
    have "{x. x \<noteq> [] \<and> (x, root) \<in> (conduct_rel st action)\<^sup>*} \<subseteq> set seen \<union> set (fst (chain_loop st action ceiling seen root))"
    proof (rule chain_loop_complete [OF assms(1,2,5)])
      fix p s
      assume "s \<in> set seen" "s \<in> {x. x \<noteq> [] \<and> (x, root) \<in> (conduct_rel st action)\<^sup>*}" "s \<noteq> root"
      with assms(9) show "p \<in> set seen" by (auto simp: seen_def split: if_splits)
    qed (use assms(5) run in \<open>auto simp: seen_def\<close>)
    with run rr assms(6-8) show ?thesis by (auto simp: seen_def split: if_splits)
  qed
  ultimately have "r \<in> set ys \<longleftrightarrow> (r, root) \<in> (conduct_rel st action)\<^sup>*" by blast
  also have "\<dots> \<longleftrightarrow> (\<exists>out. list_origin_descendants st [r] action = Inr out \<and> root \<in> set out)"
    using cone_member [OF assms(3), of root r action] assms(8) by simp
  finally show ?thesis .
qed

definition sample_edge :: "string \<Rightarrow> string \<Rightarrow> pyval \<Rightarrow> erow" where
  "sample_edge src dst prop = \<lparr> e_src = src, e_dst = dst, e_label = ''contains'', e_force = PNone,
     e_propagate = prop, e_is_origin = PInt 1, e_order_key = PNone, e_origin = ''o'', e_seq = 1, e_leaf = 0,
     e_props = [] \<rparr>"

definition sample_tree :: lattice where
  "sample_tree = empty_lattice ''o'' 1\<lparr> edges :=
     [(''1'', sample_edge ''home'' ''folder'' PNone), (''2'', sample_edge ''folder'' ''note'' (PStr ''[\"read\"]''))] \<rparr>"

lemma sample_tree_simps:
  "healthy sample_tree" "single_origin sample_tree" "length (edges sample_tree) \<le> 1000000"
  by (auto simp: sample_tree_def empty_lattice_def healthy_def single_origin_def sample_edge_def)

lemmas sample_simps = empty_lattice_def get_origin_parent_def edges_of_cases matching_edges_def edge_match_def
  sample_edge_def CONTAINS_def eprop_def e_col_def prop_mask_def dget_def

lemma sample_parents:
  "get_origin_parent sample_tree ''note'' = Inr (Some (''folder'', PList [PStr ''read'']))"
  "get_origin_parent sample_tree ''folder'' = Inr (Some (''home'', PNone))"
  "get_origin_parent sample_tree ''home'' = Inr None"
proof -
  have "json_loads ''[\"read\"]'' = Some (PList [PStr ''read''])" by code_simp
  then show "get_origin_parent sample_tree ''note'' = Inr (Some (''folder'', PList [PStr ''read'']))"
    by (simp add: sample_tree_def sample_simps)
qed (simp_all add: sample_tree_def sample_simps)

lemma sample_propagates: "propagates PNone ''read''" "propagates (PList [PStr ''read'']) ''read''"
  by code_simp+

lemma sample_chain: "origin_chain sample_tree ''note'' ''read'' (Some ''note'') 10000 = ([''note'', ''folder'', ''home''], None)"
  by (simp add: origin_chain_def chain_loop.simps sample_parents sample_propagates)

theorem chain_and_cone_agree_witness:
  "\<exists>out. list_origin_descendants sample_tree [''home''] ''read'' = Inr out \<and> ''note'' \<in> set out"
  using chain_and_cone_agree [OF sample_tree_simps sample_chain, of "''home''"] by simp

text \<open>The origin principal, the root under whose key an artifact's content is sealed: on an acyclic
  lineage \<open>get_origin_root\<close> answers the ancestor that has no origin parent, and every artifact on the
  way up resolves to the same principal, so an artifact and the collections it was created in share a
  key scope.\<close>

theorem origin_principal_shared:
  assumes "acyclic (parent_rel st)" "get_origin_root st n = Inr r" "(x, n) \<in> (parent_rel st)\<^sup>*"
  shows "get_origin_root st x = Inr r \<and> (r, x) \<in> (parent_rel st)\<^sup>* \<and> (p, r) \<notin> parent_rel st"
proof -
  from assms(3) have "get_origin_root st x = Inr r"
    by (induction rule: converse_rtrancl_induct) (use assms(2) origin_root_parent [OF assms(1)] in auto)
  with origin_root_top [OF assms(1)] show ?thesis by blast
qed

lemma sample_parent_rel: "parent_rel sample_tree \<subseteq> {(''folder'', ''note''), (''home'', ''folder'')}"
proof
  fix x assume "x \<in> parent_rel sample_tree"
  then obtain p n m where x: "x = (p, n)" and "get_origin_parent sample_tree n = Inr (Some (p, m))"
    by (auto simp: parent_rel_def)
  from this(2) obtain e where "e \<in> set (matching_edges sample_tree n (Some CONTAINS) In)" "p = e_src e"
    by (rule origin_parent_found)
  with x show "x \<in> {(''folder'', ''note''), (''home'', ''folder'')}"
    by (auto simp: matching_contains sample_tree_def empty_lattice_def sample_edge_def)
qed

lemma sample_acyclic: "acyclic (parent_rel sample_tree)"
proof (rule acyclic_subset [OF _ sample_parent_rel])
  have "wf (measure (\<lambda>n. if n = ''home'' then 0 else if n = ''folder'' then 1 else (2 :: nat)))" by simp
  then show "acyclic {(''folder'', ''note''), (''home'', ''folder'')}"
    by (rule wf_acyclic [OF wf_subset]) auto
qed

theorem origin_principal_shared_witness:
  "get_origin_root sample_tree ''folder'' = Inr ''home''"
proof -
  have "get_origin_root sample_tree ''note'' = Inr ''home''"
    by (simp add: get_origin_root_def get_origin_root_loop.simps sample_parents)
  moreover have "(''folder'', ''note'') \<in> (parent_rel sample_tree)\<^sup>*"
    by (rule r_into_rtrancl) (simp add: parent_rel_def sample_parents)
  ultimately show ?thesis using origin_principal_shared [OF sample_acyclic] by blast
qed

definition two_homes :: lattice where
  "two_homes = empty_lattice ''o'' 1\<lparr> edges :=
     [(''1'', sample_edge ''first'' ''note'' PNone), (''2'', sample_edge ''second'' ''note'' PNone)] \<rparr>"

text \<open>With two origin edges the two directions part: the downward walk follows every origin edge, the
  upward walk only the first one in edge-key order, so a grant on the second parent reaches the
  artifact in the light cone and is never consulted on its chain.\<close>

theorem second_origin_parent_unseen:
  "list_origin_descendants two_homes [''second''] ''read'' = Inr [''note'']
     \<and> fst (origin_chain two_homes ''note'' ''read'' (Some ''note'') 10000) = [''note'', ''first'']"
proof -
  have sort: "sort_key fst [(''1'', a), (''2'', b)] = [(''1'', a), (''2'', b)]" for a b :: erow
    by (simp add: sorted_sort_id)
  have p: "get_origin_parent two_homes ''note'' = Inr (Some (''first'', PNone))" "get_origin_parent two_homes ''first'' = Inr None"
    by (simp_all add: two_homes_def sample_simps sort)
  then have "fst (origin_chain two_homes ''note'' ''read'' (Some ''note'') 10000) = [''note'', ''first'']"
    by (simp add: origin_chain_def chain_loop.simps sample_propagates)
  moreover have "conducting two_homes ''read'' ''second'' = Inr [''note'']" "conducting two_homes ''read'' ''note'' = Inr []"
    by (simp_all add: two_homes_def sample_simps conducting_def sample_propagates)
  then have "list_origin_descendants two_homes [''second''] ''read'' = Inr [''note'']"
    by (simp add: list_origin_descendants_def cone_loop.simps cone_visit_def)
  ultimately show ?thesis by simp
qed

end
