(* ===== verification/Node_Seal.thy ===== *)
theory Node_Seal
  imports Store_State
begin

text \<open>
  Fields sealed under the node's own key (\<open>db/node_seal.py\<close>): a grant's invite address, name and notes,
  and the names people give links. The Fernet cipher and HMAC are third-party code and come in as the
  record \<open>node_key\<close>; what the module relies on is \<open>fernet_law\<close>, that a blob opens to the text it was made
  from. The main result is that unsealing undoes sealing on every field of the document, and that a
  blob sealed under another node's key is carried along untouched.
\<close>

section \<open>Definitions\<close>

record node_key =
  nk_key :: string
  nk_hmac :: "string \<Rightarrow> string \<Rightarrow> string"
  nk_encrypt :: "string \<Rightarrow> string"
  nk_decrypt :: "string \<Rightarrow> string option"

definition SEALED :: string where "SEALED = ''node_sealed''"
definition TOKEN_PREFIX :: string where "TOKEN_PREFIX = ''kt1:''"

definition fernet_law :: "node_key \<Rightarrow> bool" where
  "fernet_law K = (\<forall>s. nk_decrypt K (nk_encrypt K s) = Some s \<and> nk_encrypt K s \<noteq> [])"

text \<open>\<open>{**a, **b}\<close>, and the object built from parsed members: a later value replaces an earlier one in place.\<close>

definition dmerge :: "doc \<Rightarrow> doc \<Rightarrow> doc" where
  "dmerge a b = fold (\<lambda>(k, v) d. dset k v d) b a"

definition dpop :: "string \<Rightarrow> doc \<Rightarrow> doc" where
  "dpop k d = filter (\<lambda>(k', _). k' \<noteq> k) d"

definition blank :: "pyval \<Rightarrow> bool" where
  "blank v = (v = PNone \<or> v = PStr [])"

definition seal_open :: "node_key \<Rightarrow> string \<Rightarrow> doc result" where
  "seal_open K blob =
     (case nk_decrypt K blob of
        None \<Rightarrow> Inl InvalidToken
      | Some text \<Rightarrow>
          (case json_loads text of
             None \<Rightarrow> Inl ValueError
           | Some (PDict kvs) \<Rightarrow> Inr (dmerge [] kvs)
           | Some _ \<Rightarrow> Inr []))"

definition seal_fields :: "node_key \<Rightarrow> string list \<Rightarrow> doc \<Rightarrow> doc result" where
  "seal_fields K names d =
     (let plain = map (\<lambda>k. (k, dget d k)) (filter (\<lambda>k. \<not> blank (dget d k)) names);
          rest = fold dpop (map fst plain) d in
      if plain = [] then Inr d
      else
        rbind (if truthy (dget rest SEALED)
               then rbind (seal_open K (as_text (dget rest SEALED))) (\<lambda>opened. Inr (dmerge opened plain))
               else Inr plain) (\<lambda>plain.
          Inr (dset SEALED (PStr (nk_encrypt K (dump_value '', '' '': '' False (PDict plain)))) rest)))"

definition unseal_fields :: "node_key \<Rightarrow> doc \<Rightarrow> doc" where
  "unseal_fields K d =
     (let blob = dget d SEALED; rest = dpop SEALED d in
      if \<not> truthy blob then rest
      else
        (case seal_open K (as_text blob) of
           Inl _ \<Rightarrow> dset SEALED blob rest
         | Inr opened \<Rightarrow> fold (\<lambda>(k, v) d. if blank (dget d k) then dset k v d else d) opened rest))"

definition keyed_token :: "node_key \<Rightarrow> string \<Rightarrow> string \<Rightarrow> string" where
  "keyed_token K purpose v =
     TOKEN_PREFIX @ hex_text (nk_hmac K (nk_hmac K (nk_key K) (''agience.keyed-token.'' @ utf8 purpose)) (utf8 v))"

definition is_token :: "string \<Rightarrow> bool" where
  "is_token v = starts_with TOKEN_PREFIX v"

definition seal_value :: "node_key \<Rightarrow> string \<Rightarrow> string" where
  "seal_value K v = nk_encrypt K (utf8 v)"

text \<open>UTF-8 decoding, for the characters the model has (code points below 256).\<close>

fun utf8_decode :: "string \<Rightarrow> string option" where
  "utf8_decode [] = Some []"
| "utf8_decode (c # cs) =
     (let n = of_char c :: nat in
      if n < 128 then map_option (Cons c) (utf8_decode cs)
      else (case cs of
              [] \<Rightarrow> None
            | d # ds \<Rightarrow>
                (let m = of_char d :: nat in
                 if 194 \<le> n \<and> n \<le> 195 \<and> 128 \<le> m \<and> m < 192
                 then map_option (Cons (char_of ((n - 192) * 64 + (m - 128)))) (utf8_decode ds)
                 else None)))"

definition open_value :: "node_key \<Rightarrow> string \<Rightarrow> string option" where
  "open_value K blob = Option.bind (nk_decrypt K blob) utf8_decode"

lemma utf8_decode_char: "utf8_decode (utf8_char c @ r) = map_option (Cons c) (utf8_decode r)"
proof (cases "(of_char c :: nat) < 128")
  case False
  define n where "n = (of_char c :: nat)"
  have n: "n < 256" "\<not> n < 128" using False by (simp_all add: n_def)
  then have d: "194 \<le> 192 + n div 64" "192 + n div 64 \<le> 195" "128 + n mod 64 < 192" "192 + n div 64 < 256" "128 + n mod 64 < 256"
    by linarith+
  have nn: "n div 64 * 64 + n mod 64 = n" by simp
  have "char_of n = c" by (simp add: n_def)
  with n d nn show ?thesis
    by (simp add: utf8_char_def Let_def n_def [symmetric] of_char_of)
qed (simp add: utf8_char_def)

lemma utf8_roundtrip: "utf8_decode (utf8 s) = Some s"
  by (induction s) (simp_all add: utf8_def utf8_decode_char)

lemma open_seal_value: "fernet_law K \<Longrightarrow> open_value K (seal_value K v) = Some v"
  by (simp add: open_value_def seal_value_def fernet_law_def utf8_roundtrip)

section \<open>Text objects survive JSON\<close>

definition dump_member :: "string \<times> string \<Rightarrow> string" where
  "dump_member kv = dump_string (fst kv) @ '': '' @ dump_string (snd kv)"

lemma py_join_Cons: "xs \<noteq> [] \<Longrightarrow> py_join sep (x # xs) = x @ sep @ py_join sep xs"
  by (cases xs) simp_all

lemma skip_ws_member [simp]: "skip_ws (dump_member kv @ r) = dump_member kv @ r"
  by (simp add: dump_member_def)

lemma skip_ws_members: "kvs \<noteq> [] \<Longrightarrow> skip_ws (py_join '', '' (map dump_member kvs) @ r) = py_join '', '' (map dump_member kvs) @ r"
  by (cases kvs; cases "tl kvs") (simp_all add: py_join_Cons)

lemma parse_one_member:
  "parse_members (Suc (Suc n)) (dump_member (k, v) @ r) =
     (case skip_ws r of
        [] \<Rightarrow> None
      | c # cs \<Rightarrow>
          if c = CHR 0x7D then Some ([(k, PStr v)], cs)
          else if c = CHR '','' then map_option (\<lambda>(kvs, r'). ((k, PStr v) # kvs, r')) (parse_members (Suc n) (skip_ws cs))
          else None)"
proof -
  have "parse_string (concat (map escape_char k) @ CHR 0x22 # '': '' @ dump_string v @ r) = Some (k, '': '' @ dump_string v @ r)"
    by (rule parse_string_dump)
  moreover have "skip_ws ('': '' @ dump_string v @ r) = '': '' @ dump_string v @ r" by (simp add: skip_ws_def is_json_ws_def)
  ultimately show ?thesis
    by (simp add: parse_members.simps(2) [of "Suc n"] dump_member_def dump_string_def [of k] parse_value_string split: list.splits)
qed

lemma skip_ws_brace [simp]: "skip_ws (CHR 0x7D # r) = CHR 0x7D # r"
  by (simp add: skip_ws_def is_json_ws_def)

lemma parse_members_dump:
  "kvs \<noteq> [] \<Longrightarrow> length kvs < n \<Longrightarrow>
   parse_members n (py_join '', '' (map dump_member kvs) @ [CHR 0x7D]) = Some (map (apsnd PStr) kvs, [])"
proof (induction kvs arbitrary: n)
  case (Cons kv kvs)
  obtain k v where kv: "kv = (k, v)" by (cases kv)
  from Cons.prems obtain m where n: "n = Suc (Suc m)" by (cases n; cases "n - 1") auto
  show ?case
  proof (cases "kvs = []")
    case True
    then show ?thesis by (simp add: n kv parse_one_member)
  next
    case False
    with Cons have "parse_members (Suc m) (py_join '', '' (map dump_member kvs) @ [CHR 0x7D]) = Some (map (apsnd PStr) kvs, [])"
      by (simp add: n)
    with False show ?thesis
      by (simp add: n kv py_join_Cons parse_one_member skip_ws_members)
  qed
qed simp

lemma length_members: "length kvs \<le> length (py_join '', '' (map dump_member kvs))"
proof (induction kvs)
  case (Cons kv kvs)
  have "0 < length (dump_member kv)" by (simp add: dump_member_def dump_string_def)
  with Cons show ?case by (cases "kvs = []") (simp_all add: py_join_Cons Suc_le_eq)
qed simp

lemma members_start: "kvs \<noteq> [] \<Longrightarrow> \<exists>t. py_join '', '' (map dump_member kvs) = CHR 0x22 # t"
  by (cases kvs; cases "tl kvs") (auto simp: py_join_Cons dump_member_def dump_string_def)

lemma json_object_roundtrip:
  assumes "kvs \<noteq> []"
  shows "json_loads (dump_value '', '' '': '' False (PDict (map (apsnd PStr) kvs))) = Some (PDict (map (apsnd PStr) kvs))"
proof -
  define body where "body = py_join '', '' (map dump_member kvs)"
  have dump: "dump_value '', '' '': '' False (PDict (map (apsnd PStr) kvs)) = CHR 0x7B # body @ [CHR 0x7D]"
    by (simp add: body_def dump_member_def [abs_def] comp_def case_prod_beta')
  define f where "f = Suc (2 * length (CHR 0x7B # body @ [CHR 0x7D]))"
  obtain t where t: "body = CHR 0x22 # t" using members_start [OF assms] by (auto simp: body_def)
  have "length kvs < f" using length_members [of kvs] by (simp add: f_def body_def)
  from parse_members_dump [OF assms this] have
    "parse_members f (body @ [CHR 0x7D]) = Some (map (apsnd PStr) kvs, [])" by (simp add: body_def)
  then have "parse_value (json_fuel (CHR 0x7B # body @ [CHR 0x7D])) (CHR 0x7B # body @ [CHR 0x7D])
      = Some (PDict (map (apsnd PStr) kvs), [])"
    unfolding json_fuel_def f_def [symmetric]
    by (simp add: parse_value.simps(2) t skip_ws_def is_json_ws_def)
  moreover have "skip_ws (CHR 0x7B # body @ [CHR 0x7D]) = CHR 0x7B # body @ [CHR 0x7D]"
    by (simp add: skip_ws_def is_json_ws_def)
  ultimately show ?thesis unfolding dump json_loads_def by (simp add: skip_ws_def)
qed

section \<open>Sealing and unsealing\<close>

lemma dget_dpop [simp]: "dget (dpop k d) k' = (if k' = k then PNone else dget d k')"
  by (induction d) (auto simp: dpop_def dget_def)

lemma dget_dpops: "dget (fold dpop ks d) k = (if k \<in> set ks then PNone else dget d k)"
  by (induction ks arbitrary: d) auto

lemma dget_dmerge: "distinct (map fst b) \<Longrightarrow> dget (dmerge a b) k = (if k \<in> fst ` set b then dget b k else dget a k)"
proof (induction b arbitrary: a)
  case (Cons p b)
  obtain k' v where p: "p = (k', v)" by (cases p)
  from Cons have "dget (dmerge (dset k' v a) b) k = (if k \<in> fst ` set b then dget b k else dget (dset k' v a) k)" by simp
  moreover have "dget (p # b) k = (if k = k' then v else dget b k)" by (simp add: p dget_def)
  ultimately show ?case using Cons.prems by (auto simp: p dmerge_def)
qed (simp add: dmerge_def)

lemma fst_dset: "fst ` set (dset k v d) = insert k (fst ` set d)"
  by (simp add: dset_def dom_update)

lemma distinct_dset: "distinct (map fst d) \<Longrightarrow> distinct (map fst (dset k v d))"
  by (simp add: dset_def distinct_update)

lemma dmerge_keys: "distinct (map fst a) \<Longrightarrow> distinct (map fst (dmerge a b)) \<and> fst ` set (dmerge a b) = fst ` set a \<union> fst ` set b"
proof (induction b arbitrary: a)
  case (Cons p b)
  obtain k v where p: "p = (k, v)" by (cases p)
  from Cons.IH [OF distinct_dset [OF Cons.prems], of k v] show ?case by (auto simp: p dmerge_def fst_dset)
qed (simp add: dmerge_def)

lemma fold_restore:
  "distinct (map fst opened) \<Longrightarrow>
   dget (fold (\<lambda>(k, v) d. if blank (dget d k) then dset k v d else d) opened d) k
     = (if k \<in> fst ` set opened \<and> blank (dget d k) then dget opened k else dget d k)"
proof (induction opened arbitrary: d)
  case (Cons p opened)
  obtain k' v where p: "p = (k', v)" by (cases p)
  define d1 where "d1 = (if blank (dget d k') then dset k' v d else d)"
  have "dget (p # opened) k = (if k = k' then v else dget opened k)" by (simp add: p dget_def)
  with Cons.IH [of d1] Cons.prems show ?case by (auto simp: p d1_def)
qed simp

text \<open>What a well-formed input is: distinct field names, none of them the sealed slot, holding text or nothing.\<close>

definition sealable :: "string list \<Rightarrow> doc \<Rightarrow> bool" where
  "sealable names d = (distinct names \<and> SEALED \<notin> set names
     \<and> list_all (\<lambda>k. dget d k = PNone \<or> (\<exists>s. dget d k = PStr s)) names)"

lemma seal_open_plain:
  assumes "fernet_law K" "kvs \<noteq> []" "distinct (map fst kvs)"
  shows "\<exists>opened. seal_open K (nk_encrypt K (dump_value '', '' '': '' False (PDict (map (apsnd PStr) kvs)))) = Inr opened
    \<and> distinct (map fst opened) \<and> fst ` set opened = fst ` set kvs
    \<and> (\<forall>k \<in> fst ` set kvs. dget opened k = dget (map (apsnd PStr) kvs) k)"
proof -
  have "distinct (map fst (map (apsnd PStr) kvs))" using assms(3) by (simp add: comp_def)
  moreover have "fst ` set (map (apsnd PStr) kvs) = fst ` set kvs" by force
  ultimately show ?thesis
    using assms(1) json_object_roundtrip [OF assms(2)] dmerge_keys [of "[]" "map (apsnd PStr) kvs"]
    by (intro exI [of _ "dmerge [] (map (apsnd PStr) kvs)"]) (auto simp: seal_open_def fernet_law_def dget_dmerge)
qed

lemma seal_no_prior:
  assumes law: "fernet_law K" and d: "sealable names d" "dget d SEALED = PNone"
  shows "\<exists>d'. seal_fields K names d = Inr d' \<and> (\<forall>k. k \<noteq> SEALED \<longrightarrow> dget (unseal_fields K d') k = dget d k)
    \<and> dget (unseal_fields K d') SEALED = PNone
    \<and> (\<forall>k. k \<notin> set names \<and> k \<noteq> SEALED \<longrightarrow> dget d' k = dget d k)
    \<and> (\<forall>k \<in> set names. blank (dget d' k))"
proof -
  define held where "held = filter (\<lambda>k. \<not> blank (dget d k)) names"
  define kvs where "kvs = map (\<lambda>k. (k, as_text (dget d k))) held"
  have plain: "map (\<lambda>k. (k, dget d k)) held = map (apsnd PStr) kvs"
    using d(1) by (auto simp: kvs_def held_def sealable_def list_all_iff blank_def)
  have keys: "map fst kvs = held" by (simp add: kvs_def comp_def)
  have hs: "set held = {k \<in> set names. \<not> blank (dget d k)}" by (simp add: held_def)
  show ?thesis
  proof (cases "held = []")
    case True
    then have "seal_fields K names d = Inr d" "\<forall>k \<in> set names. blank (dget d k)" using hs
      by (simp_all add: seal_fields_def held_def [symmetric])
    with d(2) show ?thesis by (auto simp: unseal_fields_def)
  next
    case False
    define d' where "d' = dset SEALED (PStr (nk_encrypt K (dump_value '', '' '': '' False (PDict (map (apsnd PStr) kvs))))) (fold dpop held d)"
    from False keys have ne: "kvs \<noteq> []" by auto
    then have seal: "seal_fields K names d = Inr d'"
      using d by (simp add: seal_fields_def held_def [symmetric] plain d'_def dget_dpops keys comp_def Let_def)
    have "distinct (map fst kvs)" using keys d(1) by (simp add: held_def sealable_def)
    from seal_open_plain [OF law ne this] obtain opened where
      o: "seal_open K (nk_encrypt K (dump_value '', '' '': '' False (PDict (map (apsnd PStr) kvs)))) = Inr opened"
      "distinct (map fst opened)" "fst ` set opened = set held"
      "\<forall>k \<in> set held. dget opened k = dget (map (apsnd PStr) kvs) k"
      unfolding keys [symmetric] by auto
    have blob: "dget d' SEALED = PStr (nk_encrypt K (dump_value '', '' '': '' False (PDict (map (apsnd PStr) kvs))))"
      "truthy (dget d' SEALED)" using law by (simp_all add: d'_def fernet_law_def)
    have got: "dget (map (\<lambda>k. (k, dget d k)) held) k = dget d k" if "k \<in> set held" for k
      using that by (subst dget_def) (simp add: map_of_map_restrict)
    have rest: "dget d' k = (if k \<in> set held then PNone else dget d k)" if "k \<noteq> SEALED" for k
      using that by (simp add: d'_def dget_dpops)
    have un: "unseal_fields K d' = fold (\<lambda>(k, v) d. if blank (dget d k) then dset k v d else d) opened (dpop SEALED d')"
      using blob(2) o(1) unfolding unseal_fields_def blob(1) Let_def as_text.simps by simp
    have "dget (unseal_fields K d') k = (if k \<in> set held then dget opened k else dget d k)" if "k \<noteq> SEALED" for k
      unfolding un fold_restore [OF o(2)] o(3) using that rest by (auto simp: blank_def)
    with o(4) got have "k \<noteq> SEALED \<longrightarrow> dget (unseal_fields K d') k = dget d k" for k unfolding plain by auto
    moreover have "dget (unseal_fields K d') SEALED = PNone"
      unfolding un fold_restore [OF o(2)] o(3) using d(1) hs by (auto simp: sealable_def)
    moreover have "blank (dget d' k)" if "k \<in> set names" for k
    proof -
      from that d(1) have "k \<noteq> SEALED" by (auto simp: sealable_def)
      with rest that hs show ?thesis by (auto simp: blank_def)
    qed
    ultimately show ?thesis using seal hs rest by auto
  qed
qed

lemma unseal_foreign:
  assumes "dget d SEALED = PStr blob" "blob \<noteq> []" "seal_open K blob = Inl e"
  shows "dget (unseal_fields K d) k = dget d k"
  using assms by (simp add: unseal_fields_def Let_def)

section \<open>Correctness\<close>

text \<open>(C31) Sealing hides and unsealing restores: for a document whose sealed fields hold text, \<open>seal_fields\<close>
  succeeds, leaves none of those fields readable and every other field as it was, and \<open>unseal_fields\<close>
  under the same key gives back every field of the original document, with no sealed slot left.\<close>

theorem node_seal_roundtrip:
  assumes "fernet_law K" "sealable names d" "dget d SEALED = PNone"
  shows "\<exists>d'. seal_fields K names d = Inr d' \<and> (\<forall>k. k \<noteq> SEALED \<longrightarrow> dget (unseal_fields K d') k = dget d k)
    \<and> dget (unseal_fields K d') SEALED = PNone
    \<and> (\<forall>k. k \<notin> set names \<and> k \<noteq> SEALED \<longrightarrow> dget d' k = dget d k)
    \<and> (\<forall>k \<in> set names. blank (dget d' k))"
  by (rule seal_no_prior [OF assms])

definition sample_key :: node_key where
  "sample_key = \<lparr> nk_key = ''k'', nk_hmac = (\<lambda>k m. k @ m), nk_encrypt = (\<lambda>s. CHR ''g'' # rev s),
     nk_decrypt = (\<lambda>b. case b of [] \<Rightarrow> None | c # cs \<Rightarrow> if c = CHR ''g'' then Some (rev cs) else None) \<rparr>"

lemma sample_fernet: "fernet_law sample_key"
  by (simp add: fernet_law_def sample_key_def)

theorem node_seal_roundtrip_witness:
  "\<exists>d'. seal_fields sample_key [''name'', ''notes''] [(''id'', PStr ''g''), (''name'', PStr ''Ann'')] = Inr d'
     \<and> blank (dget d' ''name'') \<and> dget (unseal_fields sample_key d') ''name'' = PStr ''Ann''"
proof -
  let ?d = "[(''id'', PStr ''g''), (''name'', PStr ''Ann'')]"
  have "sealable [''name'', ''notes''] ?d" "dget ?d SEALED = PNone"
    by (simp_all add: sealable_def SEALED_def dget_def)
  from node_seal_roundtrip [OF sample_fernet this] obtain d' where
    "seal_fields sample_key [''name'', ''notes''] ?d = Inr d'" "blank (dget d' ''name'')"
    "\<forall>k. k \<noteq> SEALED \<longrightarrow> dget (unseal_fields sample_key d') k = dget ?d k" by auto
  then show ?thesis by (auto simp: SEALED_def dget_def)
qed

end
