(* ===== verification/Ledger.thy ===== *)
theory Ledger
  imports Grants Node_Seal Store
begin

text \<open>
  The authorization ledger of \<open>db/lattice_api.py\<close>: grants as documents of the lattice store. Grants are
  written through \<open>put_artifact\<close> with their private fields sealed under the node's key, looked up by an
  index seek that falls back to the exhaustive scan, and filtered by state and expiry at each read.
  The read light cone seed, the share-management view, the user upsert and the archive gate are here
  too.

  An entity is the grant and its \<open>_node_sealed\<close> attribute, the blob kept when this node cannot open it
  (\<open>PNone\<close> otherwise). Change events are not modelled. The decryption of artifact content is not under
  this module and is the argument \<open>decode\<close> of the one reader that returns artifacts.
\<close>

section \<open>Documents and entities\<close>

definition GRANT_CT :: string where "GRANT_CT = ''application/vnd.agience.grant+json''"

definition GRANT_SEALED_FIELDS :: "string list" where
  "GRANT_SEALED_FIELDS = [''target_entity'', ''name'', ''notes'']"

definition LATTICE_INTERNAL :: "string list" where
  "LATTICE_INTERNAL = [''_origin'', ''_seq'', ''_rev'', ''_fp'', ''_type'']"

fun strip_nones :: "pyval \<Rightarrow> pyval" where
  "strip_nones (PDict kvs) = PDict (map (\<lambda>(k, v). (k, strip_nones v)) (filter (\<lambda>(k, v). v \<noteq> PNone) kvs))"
| "strip_nones (PList vs) = PList (map strip_nones (filter (\<lambda>v. v \<noteq> PNone) vs))"
| "strip_nones v = v"

fun dict_items :: "pyval \<Rightarrow> doc" where
  "dict_items (PDict kvs) = kvs"
| "dict_items _ = []"

type_synonym grant_entity = "grant \<times> pyval"

text \<open>\<open>to_lattice_doc\<close> and \<open>from_lattice_doc\<close> on a grant.\<close>

definition to_lattice_doc :: "node_key \<Rightarrow> grant_entity \<Rightarrow> doc result" where
  "to_lattice_doc K ent =
     (let d = dset ''_type'' (PStr ''Grant'') (dict_items (strip_nones (PDict (Grant_to_dict (fst ent)))));
          d = (if truthy (snd ent) then dset SEALED (snd ent) d else d) in
      seal_fields K GRANT_SEALED_FIELDS d)"

definition from_lattice_doc :: "ambient \<Rightarrow> node_key \<Rightarrow> doc \<Rightarrow> grant_entity" where
  "from_lattice_doc amb K raw =
     (let d = unseal_fields K (filter (\<lambda>(k, _). k \<notin> set LATTICE_INTERNAL) raw);
          blob = dget d SEALED in
      (Grant_from_dict amb (dpop SEALED d), if truthy blob then blob else PNone))"

definition to_grant_doc :: "node_key \<Rightarrow> grant_entity \<Rightarrow> doc result" where
  "to_grant_doc K ent = rbind (to_lattice_doc K ent) (\<lambda>d. Inr (dset ''content_type'' (PStr GRANT_CT) d))"

text \<open>\<open>_doc_mask\<close>: the authority of a raw document. A missing column is \<open>False\<close>, an absent or unrecognized
  effect is not an allow.\<close>

definition doc_effect :: "doc \<Rightarrow> string" where
  "doc_effect d = norm_effect (as_text (py_or (dget d ''effect'') (PStr [])))"

definition doc_mask :: "doc \<Rightarrow> mask" where
  "doc_mask d = from_flags (\<lambda>f. truthy (dget d f)) (doc_effect d = EFFECT_ALLOW)"

section \<open>Reads\<close>

definition grant_docs :: "lattice \<Rightarrow> string option \<Rightarrow> doc list result" where
  "grant_docs st gst = list_artifacts st gst (Some GRANT_CT) None None None 0 False"

definition GRANT_SEEK_CEILING :: nat where "GRANT_SEEK_CEILING = 20000"

definition grant_docs_by :: "lattice \<Rightarrow> string \<Rightarrow> string \<Rightarrow> doc list result" where
  "grant_docs_by st field v =
     (if v = [] then Inr []
      else
        (let rows = (case list_by_doc_field st GRANT_CT field v (int GRANT_SEEK_CEILING) of
                       Inl _ \<Rightarrow> None | Inr ds \<Rightarrow> Some ds) in
         case rows of
           Some ds \<Rightarrow>
             if length ds < GRANT_SEEK_CEILING then Inr ds
             else rbind (list_artifacts st None (Some GRANT_CT) None None None 0 True)
                    (\<lambda>all. Inr (filter (\<lambda>d. dget d field = PStr v) all))
         | None \<Rightarrow> rbind (list_artifacts st None (Some GRANT_CT) None None None 0 True)
                    (\<lambda>all. Inr (filter (\<lambda>d. dget d field = PStr v) all))))"

definition replace_Z :: "string \<Rightarrow> string" where
  "replace_Z s = concat (map (\<lambda>c. if c = CHR ''Z'' then ''+00:00'' else [c]) s)"

definition unexpired :: "ambient \<Rightarrow> doc \<Rightarrow> bool" where
  "unexpired amb d =
     (let e = dget d ''expires_at'' in
      if \<not> truthy e then True
      else
        (case e of
           PStr s \<Rightarrow> (case parse_iso amb (replace_Z s) of Some t \<Rightarrow> now_us amb < t | None \<Rightarrow> now_iso amb < s)
         | _ \<Rightarrow> now_iso amb < as_text e))"

definition is_active_doc :: "ambient \<Rightarrow> doc \<Rightarrow> bool" where
  "is_active_doc amb d = (dget d ''state'' = PStr ''active'' \<and> unexpired amb d)"

definition get_grant_by_id :: "ambient \<Rightarrow> node_key \<Rightarrow> lattice \<Rightarrow> string \<Rightarrow> grant_entity option result" where
  "get_grant_by_id amb K st gid =
     rbind (get_artifact st gid) (\<lambda>raw.
       Inr (case raw of
              None \<Rightarrow> None
            | Some d \<Rightarrow> if dget d ''content_type'' \<noteq> PStr GRANT_CT then None else Some (from_lattice_doc amb K d)))"

definition get_active_grants_for_principal_resource ::
  "ambient \<Rightarrow> node_key \<Rightarrow> lattice \<Rightarrow> string \<Rightarrow> string \<Rightarrow> grant_entity list result" where
  "get_active_grants_for_principal_resource amb K st gid rid =
     rbind (grant_docs_by st ''grantee_id'' gid) (\<lambda>ds.
       Inr (map (from_lattice_doc amb K)
         (filter (\<lambda>d. dget d ''state'' = PStr ''active'' \<and> dget d ''resource_id'' = PStr rid \<and> unexpired amb d) ds)))"

definition get_active_grants_for_grantee ::
  "ambient \<Rightarrow> node_key \<Rightarrow> lattice \<Rightarrow> string \<Rightarrow> string \<Rightarrow> grant_entity list result" where
  "get_active_grants_for_grantee amb K st gid gtype =
     rbind (grant_docs_by st ''grantee_id'' gid) (\<lambda>ds.
       Inr (map (from_lattice_doc amb K)
         (filter (\<lambda>d. dget d ''state'' = PStr ''active'' \<and> dget d ''grantee_type'' = PStr gtype \<and> unexpired amb d) ds)))"

definition get_active_collection_ids_for_user :: "ambient \<Rightarrow> lattice \<Rightarrow> string \<Rightarrow> string list result" where
  "get_active_collection_ids_for_user amb st user_id =
     rbind (grant_docs_by st ''grantee_id'' user_id) (\<lambda>ds.
       (let docs = filter (\<lambda>d. dget d ''state'' = PStr ''active'' \<and> dget d ''grantee_type'' = PStr ''user''
                     \<and> truthy (dget d ''resource_id'') \<and> unexpired amb d) ds;
            masked = map (\<lambda>d. (dtext d ''resource_id'', doc_mask d)) docs;
            denied = map fst (filter (\<lambda>(_, m). is_deny m \<and> carries m ''read'') masked) in
        Inr (map fst (filter (\<lambda>(rid, m). allows m ''read'' \<and> rid \<notin> set denied) masked))))"

definition get_grants_for_collection :: "ambient \<Rightarrow> node_key \<Rightarrow> lattice \<Rightarrow> string \<Rightarrow> grant_entity list result" where
  "get_grants_for_collection amb K st cid =
     rbind (grant_docs_by st ''resource_id'' cid) (\<lambda>ds.
       Inr (map (from_lattice_doc amb K) (filter (\<lambda>d. state_of d \<noteq> STATE_ARCHIVED) ds)))"

definition hash_token :: "(string \<Rightarrow> string) \<Rightarrow> string \<Rightarrow> string" where
  "hash_token sha256 raw_token = hex_text (sha256 (utf8 raw_token))"

definition get_active_grants_by_key ::
  "(string \<Rightarrow> string) \<Rightarrow> ambient \<Rightarrow> node_key \<Rightarrow> lattice \<Rightarrow> string \<Rightarrow> grant_entity list result" where
  "get_active_grants_by_key sha256 amb K st token =
     get_active_grants_for_grantee amb K st (hash_token sha256 token) ''grant_key''"

definition get_active_grant_key_grants_for_collection ::
  "ambient \<Rightarrow> node_key \<Rightarrow> lattice \<Rightarrow> string \<Rightarrow> grant_entity list result" where
  "get_active_grant_key_grants_for_collection amb K st cid =
     rbind (grant_docs_by st ''resource_id'' cid) (\<lambda>ds.
       Inr (map (from_lattice_doc amb K)
         (filter (\<lambda>d. dget d ''state'' = PStr ''active'' \<and> dget d ''grantee_type'' = PStr ''grant_key'' \<and> unexpired amb d) ds)))"

fun containers_loop ::
  "lattice \<Rightarrow> (doc \<Rightarrow> 'a result) \<Rightarrow> string option \<Rightarrow> string list \<Rightarrow> 'a list result" where
  "containers_loop st decode content_type [] = Inr []"
| "containers_loop st decode content_type (cid # cids) =
     rbind (get_artifact st cid) (\<lambda>raw.
       case raw of
         None \<Rightarrow> containers_loop st decode content_type cids
       | Some d \<Rightarrow>
           (let ct = dget d ''content_type'' in
            if ct = PNone \<or> ct = PStr GRANT_CT \<or> (case content_type of None \<Rightarrow> False | Some c \<Rightarrow> ct \<noteq> PStr c)
            then containers_loop st decode content_type cids
            else rbind (decode d) (\<lambda>x. rbind (containers_loop st decode content_type cids) (\<lambda>xs. Inr (x # xs)))))"

definition get_containers_for_user ::
  "ambient \<Rightarrow> lattice \<Rightarrow> (doc \<Rightarrow> 'a result) \<Rightarrow> string \<Rightarrow> string option \<Rightarrow> 'a list result" where
  "get_containers_for_user amb st decode user_id content_type =
     rbind (get_active_collection_ids_for_user amb st user_id) (containers_loop st decode content_type)"

section \<open>Writes\<close>

definition create_grant :: "hashlib \<Rightarrow> node_key \<Rightarrow> grant_entity \<Rightarrow> lattice \<Rightarrow> lattice result" where
  "create_grant H K ent st =
     rbind (to_grant_doc K ent) (\<lambda>d. rbind (put_artifact H d True False st) (\<lambda>(_, st'). Inr st'))"

definition update_grant :: "hashlib \<Rightarrow> node_key \<Rightarrow> grant_entity \<Rightarrow> lattice \<Rightarrow> lattice result" where
  "update_grant H K ent st =
     rbind (to_grant_doc K ent) (\<lambda>d. rbind (put_artifact H d True False st) (\<lambda>(_, st'). Inr st'))"

definition flag_list :: "(string \<Rightarrow> bool) \<Rightarrow> (string \<times> bool) list" where
  "flag_list can = map (\<lambda>a. (''can_'' @ a, can a))
     [''create'', ''read'', ''update'', ''delete'', ''evict'', ''invoke'', ''add'', ''share'', ''admin'']"

definition upsert_user_collection_grant ::
  "hashlib \<Rightarrow> ambient \<Rightarrow> node_key \<Rightarrow> string \<Rightarrow> string \<Rightarrow> string \<Rightarrow> (string \<Rightarrow> bool) \<Rightarrow> string option \<Rightarrow> lattice
     \<Rightarrow> ((grant_entity \<times> bool) \<times> lattice) result" where
  "upsert_user_collection_grant H amb K user_id collection_id by_id can name st =
     rbind (get_active_grants_for_principal_resource amb K st user_id collection_id) (\<lambda>existing.
       (let new_flags = flag_list can in
        case find_first (\<lambda>e. grantee_type (fst e) = GRANTEE_USER) existing of
          Some (ug, blob) \<Rightarrow>
            (let changed = (list_ex (\<lambda>(k, v). get_flag ug k \<noteq> v) new_flags \<or> (name \<noteq> None \<and> gname ug \<noteq> name)) in
             if \<not> changed then Inr (((ug, blob), False), st)
             else
               (let ug = set_flags new_flags ug;
                    ug = (if name \<noteq> None then ug\<lparr> gname := name \<rparr> else ug) in
                rbind (update_grant H K (ug, blob) st) (\<lambda>st'. Inr (((ug, blob), True), st'))))
        | None \<Rightarrow>
            (let g = Grant_init amb (set_flags new_flags (GRANT_ARGS\<lparr> g_id := fresh_id amb,
                       resource_id := collection_id, grantee_type := GRANTEE_USER, grantee_id := user_id,
                       granted_by := by_id, gname := name \<rparr>)) in
             rbind (create_grant H K (g, PNone) st) (\<lambda>st'. Inr (((g, PNone), True), st')))))"

text \<open>\<open>archive_artifact\<close>, without the change event it announces.\<close>

definition archive_artifact ::
  "hashlib \<Rightarrow> ambient \<Rightarrow> node_key \<Rightarrow> string \<Rightarrow> string \<Rightarrow> lattice \<Rightarrow> (bool \<times> lattice) result" where
  "archive_artifact H amb K user_id artifact_id st =
     rbind (get_artifact st artifact_id) (\<lambda>raw.
       case raw of
         None \<Rightarrow> Inr (False, st)
       | Some raw \<Rightarrow>
           if \<not> truthy (dget raw ''collection_id'') then Inr (False, st)
           else
             rbind (get_active_grants_for_principal_resource amb K st user_id (dtext raw ''collection_id'')) (\<lambda>gs.
               if \<not> list_ex (\<lambda>e. can_delete (fst e)) gs then Inr (False, st)
               else rbind (put_artifact H (dset ''state'' (PStr STATE_ARCHIVED) raw) True False st)
                      (\<lambda>(_, st'). Inr (True, st'))))"

section \<open>Lemmas on the reads\<close>

definition grant_rows_by :: "lattice \<Rightarrow> string \<Rightarrow> string \<Rightarrow> doc list" where
  "grant_rows_by st field v =
     map (v_doc \<circ> snd) (rows_by_id st (\<lambda>r. v_ct r = Some GRANT_CT \<and> dget (v_doc r) field = PStr v))"

lemma filter_rows_by_id: "filter (q \<circ> snd) (rows_by_id st p) = rows_by_id st (\<lambda>r. p r \<and> q r)"
  by (simp add: rows_by_id_def filter_sort case_prod_beta' conj_commute)

lemma scan_rows:
  "rbind (list_artifacts st None (Some GRANT_CT) None None None 0 True) (\<lambda>all. Inr (filter (\<lambda>d. dget d field = PStr v) all))
     = Inr (grant_rows_by st field v)"
proof -
  have "list_artifacts st None (Some GRANT_CT) None None None 0 True
      = Inr (map (v_doc \<circ> snd) (rows_by_id st (\<lambda>r. v_ct r = Some GRANT_CT)))"
    by (simp add: list_artifacts_def live_states_def sql_limit_def)
  moreover have "filter (\<lambda>d. dget d field = PStr v) (map (v_doc \<circ> snd) (rows_by_id st (\<lambda>r. v_ct r = Some GRANT_CT)))
      = grant_rows_by st field v"
    using filter_rows_by_id [of "\<lambda>r. dget (v_doc r) field = PStr v" st "\<lambda>r. v_ct r = Some GRANT_CT"]
    by (simp add: filter_map grant_rows_by_def comp_def)
  ultimately show ?thesis by simp
qed

lemma grant_docs_by_eq: "grant_docs_by st field v = Inr (if v = [] then [] else grant_rows_by st field v)"
proof (cases "list_by_doc_field st GRANT_CT field v (int GRANT_SEEK_CEILING)")
  case (Inl e)
  then show ?thesis by (simp add: grant_docs_by_def scan_rows)
next
  case (Inr ds)
  then have "ds = sql_limit (Some (int GRANT_SEEK_CEILING)) (grant_rows_by st field v)"
    by (auto simp: list_by_doc_field_def grant_rows_by_def Let_def split: if_splits)
  moreover from this have "length ds < GRANT_SEEK_CEILING \<Longrightarrow> ds = grant_rows_by st field v"
    using sql_limit_exact [of "int GRANT_SEEK_CEILING" "grant_rows_by st field v"] by simp
  ultimately show ?thesis using Inr by (simp add: grant_docs_by_def scan_rows)
qed

lemma set_grant_rows_by:
  "set (grant_rows_by st field v) = v_doc ` {r \<in> snd ` set (vertices st). v_ct r = Some GRANT_CT \<and> dget (v_doc r) field = PStr v}"
  by (force simp: grant_rows_by_def rows_by_id_def)

section \<open>The grant document\<close>

definition strip_doc :: "doc \<Rightarrow> doc" where
  "strip_doc d = dict_items (strip_nones (PDict d))"

lemma strip_doc_simps [simp]:
  "strip_doc [] = []" "strip_doc ((k, v) # d) = (if v = PNone then strip_doc d else (k, strip_nones v) # strip_doc d)"
  by (simp_all add: strip_doc_def)

lemma dget_Cons: "dget [] k = PNone" "dget ((k', v) # d) k = (if k = k' then v else dget d k)"
  by (simp_all add: dget_def)

lemma dget_absent: "k \<notin> fst ` set d \<Longrightarrow> dget d k = PNone"
  by (metis (no_types, lifting) dget_def map_of_eq_None_iff option.simps(4))

lemma strip_doc_keys: "fst ` set (strip_doc d) \<subseteq> fst ` set d"
proof (induction d)
  case (Cons p d)
  then show ?case by (cases p; cases "snd p = PNone") (simp_all, blast+)
qed simp

lemma dget_strip:
  "distinct (map fst d) \<Longrightarrow> (\<And>k v. (k, v) \<in> set d \<Longrightarrow> strip_nones v = v) \<Longrightarrow> dget (strip_doc d) k = dget d k"
proof (induction d)
  case (Cons p d)
  obtain k' v where p: "p = (k', v)" by (cases p)
  from Cons.prems have "k' \<notin> fst ` set d" by (simp add: p)
  then have "dget (strip_doc d) k' = PNone" using strip_doc_keys [of d] by (blast intro: dget_absent)
  with Cons show ?case by (auto simp: p dget_Cons)
qed simp

lemma strip_scalar [simp]:
  "strip_nones (opt_val x) = opt_val x" "strip_nones (opt_bool_val b) = opt_bool_val b" "strip_nones (opt_int_val n) = opt_int_val n"
  by (auto simp: opt_val_def opt_bool_val_def opt_int_val_def split: option.splits)

lemma dget_grant_doc: "dget (strip_doc (Grant_to_dict g)) k = dget (Grant_to_dict g) k"
  by (rule dget_strip) (auto simp: Grant_to_dict_def)

lemma dflag_get: "dget d k \<noteq> PNone \<Longrightarrow> dflag d k b = truthy (dget d k)"
  by (auto simp: dget_def dflag_def split: option.splits)

lemma dtext_or_get: "dget d k \<noteq> PNone \<Longrightarrow> dtext_or d k b = as_text (dget d k)"
  by (auto simp: dget_def dtext_or_def split: option.splits)

text \<open>A document that agrees with \<open>to_dict\<close> on the grant's own keys decodes to the grant.\<close>

definition GRANT_KEYS :: "string list" where
  "GRANT_KEYS = map fst (Grant_to_dict GRANT_ARGS)"

lemma GRANT_KEYS_of: "set GRANT_KEYS = fst ` set (Grant_to_dict g)"
  by (simp add: GRANT_KEYS_def Grant_to_dict_def)

lemma from_dict_agrees:
  assumes "wf_grant g" "\<And>k. k \<in> set GRANT_KEYS \<Longrightarrow> dget d k = dget (Grant_to_dict g) k"
  shows "Grant_from_dict amb d = g"
proof -
  have "list_all (\<lambda>(k, v). dget d k = v) (Grant_to_dict g)"
  proof -
    have "distinct (map fst (Grant_to_dict g))" by (simp add: Grant_to_dict_def)
    then have "dget (Grant_to_dict g) k = v" if "(k, v) \<in> set (Grant_to_dict g)" for k v
      using that by (simp add: dget_def)
    with assms(2) show ?thesis unfolding GRANT_KEYS_of [of g] list_all_iff by force
  qed
  then have k: "list_all (\<lambda>(k, v). dget d k = v) (Grant_to_dict g)" .
  have "Grant_from_dict amb d = Grant_from_dict amb (Grant_to_dict g)"
    unfolding from_to_dict using k
    by (cases g) (simp add: Grant_to_dict_def Grant_from_dict_def dtext_def dflag_get dtext_or_get)
  then show ?thesis using assms(1) by (simp add: from_to_dict Grant_init_id)
qed

text \<open>What unsealing puts at a key depends on the sealed blob and on the value held there.\<close>

lemma seal_open_distinct: "seal_open K blob = Inr opened \<Longrightarrow> distinct (map fst opened)"
  using dmerge_keys [of "[]"] by (auto simp: seal_open_def split: option.splits pyval.splits)

lemma unseal_get:
  "dget (unseal_fields K d) k =
     (if \<not> truthy (dget d SEALED) then (if k = SEALED then PNone else dget d k)
      else case seal_open K (as_text (dget d SEALED)) of
             Inl _ \<Rightarrow> dget d k
           | Inr opened \<Rightarrow>
               (let v = (if k = SEALED then PNone else dget d k) in
                if k \<in> fst ` set opened \<and> blank v then dget opened k else v))"
  by (auto simp: unseal_fields_def Let_def fold_restore seal_open_distinct split: sum.splits)

lemma unseal_cong:
  "dget d1 SEALED = dget d2 SEALED \<Longrightarrow> dget d1 k = dget d2 k \<Longrightarrow>
   dget (unseal_fields K d1) k = dget (unseal_fields K d2) k"
  unfolding unseal_get by (cases "k = SEALED") (simp_all split: sum.splits)

lemma dget_internal: "dget (filter (\<lambda>(k, _). k \<notin> I) d) k = (if k \<in> I then PNone else dget d k)"
  by (induction d) (auto simp: dget_def)

lemma grant_doc_written:
  assumes "fernet_law K"
  obtains d where "to_grant_doc K (g, PNone) = Inr d"
    "\<And>k. k \<notin> set (SEALED # ''_type'' # ''content_type'' # GRANT_SEALED_FIELDS) \<Longrightarrow> dget d k = dget (Grant_to_dict g) k"
    "dget d ''content_type'' = PStr GRANT_CT"
    "\<And>k. k \<in> set GRANT_KEYS \<Longrightarrow> dget (unseal_fields K d) k = dget (Grant_to_dict g) k"
    "dget (unseal_fields K d) SEALED = PNone"
proof -
  define d0 where "d0 = dset ''_type'' (PStr ''Grant'') (strip_doc (Grant_to_dict g))"
  have g0: "dget d0 k = (if k = ''_type'' then PStr ''Grant'' else dget (Grant_to_dict g) k)" for k
    by (simp add: d0_def dget_grant_doc)
  have "sealable GRANT_SEALED_FIELDS d0" "dget d0 SEALED = PNone"
    by (simp_all add: sealable_def GRANT_SEALED_FIELDS_def SEALED_def g0 Grant_to_dict_def dget_Cons)
      (auto simp: opt_val_def split: option.splits)
  from seal_no_prior [OF assms this] obtain d1 where
    seal: "seal_fields K GRANT_SEALED_FIELDS d0 = Inr d1"
    "\<forall>k. k \<noteq> SEALED \<longrightarrow> dget (unseal_fields K d1) k = dget d0 k" "dget (unseal_fields K d1) SEALED = PNone"
    "\<forall>k. k \<notin> set GRANT_SEALED_FIELDS \<and> k \<noteq> SEALED \<longrightarrow> dget d1 k = dget d0 k" by blast
  define d where "d = dset ''content_type'' (PStr GRANT_CT) d1"
  have same: "dget (unseal_fields K d) k = dget (unseal_fields K d1) k" if "k \<noteq> ''content_type''" for k
    using that by (intro unseal_cong) (simp_all add: d_def SEALED_def)
  have keys: "SEALED \<notin> set GRANT_KEYS" "''_type'' \<notin> set GRANT_KEYS" "''content_type'' \<notin> set GRANT_KEYS"
    by (simp_all add: GRANT_KEYS_def Grant_to_dict_def SEALED_def)
  show thesis
  proof (rule that [of d])
    show "to_grant_doc K (g, PNone) = Inr d"
      using seal(1) by (simp add: to_grant_doc_def to_lattice_doc_def d_def strip_doc_def [symmetric] d0_def [symmetric] del: strip_nones.simps)
    show "dget d k = dget (Grant_to_dict g) k" if "k \<notin> set (SEALED # ''_type'' # ''content_type'' # GRANT_SEALED_FIELDS)" for k
      using that seal(4) by (simp add: d_def g0)
    show "dget (unseal_fields K d) k = dget (Grant_to_dict g) k" if "k \<in> set GRANT_KEYS" for k
    proof -
      from that keys have "k \<noteq> SEALED" "k \<noteq> ''_type''" "k \<noteq> ''content_type''" by auto
      with same seal(2) show ?thesis by (simp add: g0)
    qed
    show "dget (unseal_fields K d) SEALED = PNone" using same [of SEALED] seal(3) by (simp add: SEALED_def)
  qed (simp add: d_def)
qed

text \<open>A stored copy of a written grant document, with the store's own stamps on it, decodes to the grant.\<close>

lemma stored_grant_decodes:
  assumes "fernet_law K" "wf_grant g" "to_grant_doc K (g, PNone) = Inr d"
    and "\<And>k. k \<notin> {''_seq'', ''_origin'', TIME_CLAIM_KEY} \<Longrightarrow> dget raw k = dget d k"
  shows "from_lattice_doc amb K raw = (g, PNone)"
proof -
  from grant_doc_written [OF assms(1), of g] assms(3) have
    d: "\<And>k. k \<in> set GRANT_KEYS \<Longrightarrow> dget (unseal_fields K d) k = dget (Grant_to_dict g) k"
      "dget (unseal_fields K d) SEALED = PNone" by (metis sum.inject(2))+
  define r where "r = filter (\<lambda>(k, _). k \<notin> set LATTICE_INTERNAL) raw"
  have r: "dget r k = dget d k" if "k \<in> insert SEALED (set GRANT_KEYS)" for k
  proof -
    from that have "k \<notin> set LATTICE_INTERNAL" "k \<notin> {''_seq'', ''_origin'', TIME_CLAIM_KEY}"
      by (auto simp: GRANT_KEYS_def Grant_to_dict_def SEALED_def LATTICE_INTERNAL_def TIME_CLAIM_KEY_def)
    with assms(4) show ?thesis by (simp add: r_def dget_internal)
  qed
  have u: "dget (unseal_fields K r) k = dget (unseal_fields K d) k" if "k \<in> insert SEALED (set GRANT_KEYS)" for k
    using r that by (intro unseal_cong) auto
  have "SEALED \<notin> set GRANT_KEYS" by (simp add: GRANT_KEYS_def Grant_to_dict_def SEALED_def)
  with u d have "Grant_from_dict amb (dpop SEALED (unseal_fields K r)) = g"
    by (intro from_dict_agrees [OF assms(2)]) auto
  with u d(2) show ?thesis by (simp add: from_lattice_doc_def r_def [symmetric] Let_def)
qed

section \<open>Writing a grant\<close>

lemma grant_doc_plain:
  assumes "fernet_law K" "wf_grant g" "to_grant_doc K (g, PNone) = Inr d"
  shows "plain_doc d" "\<not> truthy (dget d ''content_ref'')" "dtext d ''id'' = g_id g"
proof -
  from grant_doc_written [OF assms(1), of g] assms(3) have
    k: "\<And>k. k \<notin> set (SEALED # ''_type'' # ''content_type'' # GRANT_SEALED_FIELDS) \<Longrightarrow> dget d k = dget (Grant_to_dict g) k"
    and ct: "dget d ''content_type'' = PStr GRANT_CT" by (metis sum.inject(2))+
  have v: "dget d ''id'' = PStr (g_id g)" "dget d ''status'' = PNone" "dget d ''content_ref'' = PNone" "dget d ''created_by'' = PNone"
    by (simp_all add: k SEALED_def GRANT_SEALED_FIELDS_def) (simp_all add: Grant_to_dict_def dget_Cons)
  then show "\<not> truthy (dget d ''content_ref'')" "dtext d ''id'' = g_id g" by (simp_all add: dtext_def)
  then show "plain_doc d" using v ct assms(2) by (simp add: plain_doc_def wf_grant_def dtext_def)
qed

text \<open>The ledger as a client sees it: a map from grant ids to documents.\<close>

definition ledger :: "lattice \<Rightarrow> string \<rightharpoonup> doc" where
  "ledger st gid =
     (case map_of (vertices st) gid of
        Some r \<Rightarrow> if v_ct r = Some GRANT_CT then Some (v_doc r) else None
      | None \<Rightarrow> None)"

lemma ledger_Some:
  "ledger st gid = Some d \<longleftrightarrow> (\<exists>r. map_of (vertices st) gid = Some r \<and> v_ct r = Some GRANT_CT \<and> v_doc r = d)"
  by (cases "map_of (vertices st) gid") (simp_all add: ledger_def)

lemma ran_ledger:
  assumes "vertices_keyed st"
  shows "ran (ledger st) = v_doc ` {r \<in> snd ` set (vertices st). v_ct r = Some GRANT_CT}"
proof -
  have "r \<in> snd ` set (vertices st) \<longleftrightarrow> (\<exists>k. map_of (vertices st) k = Some r)" for r
    using assms by (force simp: vertices_keyed_def map_of_eq_Some_iff)
  then have "v_doc ` {r \<in> snd ` set (vertices st). v_ct r = Some GRANT_CT}
      = {d. \<exists>r k. map_of (vertices st) k = Some r \<and> v_ct r = Some GRANT_CT \<and> v_doc r = d}" by blast
  also have "\<dots> = ran (ledger st)" unfolding ran_def ledger_Some by blast
  finally show ?thesis by simp
qed

lemma put_grant:
  assumes "fernet_law K" "wf_grant g"
  obtains d n st' where "to_grant_doc K (g, PNone) = Inr d" "create_grant H K (g, PNone) st = Inr st'"
    "doc_of st' = (doc_of st)(g_id g \<mapsto> stored_doc (doc_of st (g_id g)) d (st_origin st) n)"
    "ledger st' = (ledger st)(g_id g \<mapsto> stored_doc (doc_of st (g_id g)) d (st_origin st) n)"
    "vertices_keyed st \<longrightarrow> vertices_keyed st'"
proof -
  obtain d where d: "to_grant_doc K (g, PNone) = Inr d" by (rule grant_doc_written [OF assms(1), of g])
  note pl = grant_doc_plain [OF assms d]
  obtain r s where p: "put_artifact H d True False st = Inr (r, s)" by (rule put_plain [OF pl(1,2)])
  obtain n row where n: "r = stored_doc (doc_of st (dtext d ''id'')) d (st_origin st) n"
    "vertices s = AList.update (dtext d ''id'') row (vertices st)" "v_doc row = r" "bind_col (dget r ''content_type'') = Inr (v_ct row)"
    by (rule put_row [OF p pl(2)])
  have "dget r ''content_type'' = PStr GRANT_CT"
    using d by (auto simp: n(1) dget_stored_doc TIME_CLAIM_KEY_def to_grant_doc_def rbind_eq_Inr)
  with n(4) have "v_ct row = Some GRANT_CT" by (simp add: bind_col_def)
  then have "ledger s = (ledger st)(dtext d ''id'' \<mapsto> r)" by (simp add: fun_eq_iff ledger_def n)
  moreover have "doc_of s = (doc_of st)(dtext d ''id'' \<mapsto> r)" by (simp add: fun_eq_iff doc_of_def n)
  moreover have "create_grant H K (g, PNone) st = Inr s" by (simp add: create_grant_def d p)
  ultimately show thesis using d n pl(3) by (intro that [of d s n]) (simp_all add: vertices_keyed_def distinct_update)
qed

lemma stored_fresh: "k \<notin> {''_seq'', ''_origin'', TIME_CLAIM_KEY} \<Longrightarrow> dget (stored_doc None d origin n) k = dget d k"
  by (auto simp: stored_doc_def carry_time_def attribute_time_def Let_def)

section \<open>Correctness\<close>

text \<open>(C9) The grant lookup is exact at any size: \<open>_grant_docs_by\<close> returns, in id order, every stored grant
  whose field equals the value and nothing else, whether the index seek answered, saturated its
  ceiling or was refused; it never raises and never returns a clipped authorization answer.\<close>

theorem grant_lookup_exact:
  "\<exists>ds. grant_docs_by st field v = Inr ds
     \<and> (if v = [] then ds = []
        else ds = map (v_doc \<circ> snd) (rows_by_id st (\<lambda>r. v_ct r = Some GRANT_CT \<and> dget (v_doc r) field = PStr v)))"
  by (simp add: grant_docs_by_eq grant_rows_by_def)

text \<open>The active user grants of one principal, as the tables hold them.\<close>

definition user_grant_docs :: "ambient \<Rightarrow> lattice \<Rightarrow> string \<Rightarrow> doc set" where
  "user_grant_docs amb st user_id =
     {d \<in> v_doc ` {r \<in> snd ` set (vertices st). v_ct r = Some GRANT_CT}.
        dget d ''grantee_id'' = PStr user_id \<and> dget d ''state'' = PStr ''active'' \<and> dget d ''grantee_type'' = PStr ''user''
        \<and> truthy (dget d ''resource_id'') \<and> unexpired amb d}"

lemma deny_first_set:
  "set (map fst (filter (\<lambda>(r, m). A m \<and> r \<notin> fst ` set (filter (\<lambda>(_, m). D m) (map (\<lambda>d. (f d, g d)) ds))) (map (\<lambda>d. (f d, g d)) ds)))
     = {f d | d. d \<in> set ds \<and> A (g d) \<and> (\<forall>d' \<in> set ds. f d' = f d \<longrightarrow> \<not> D (g d'))}"
  by (auto simp: image_iff) metis+

lemma user_seed_exact:
  assumes "user_id \<noteq> []"
  shows "\<exists>rids. get_active_collection_ids_for_user amb st user_id = Inr rids
    \<and> set rids = {dtext d ''resource_id'' | d. d \<in> user_grant_docs amb st user_id
          \<and> doc_effect d = ''allow'' \<and> truthy (dget d ''can_read'')
          \<and> (\<forall>d' \<in> user_grant_docs amb st user_id. dtext d' ''resource_id'' = dtext d ''resource_id''
               \<longrightarrow> doc_effect d' = ''allow'' \<or> \<not> truthy (dget d' ''can_read''))}"
proof -
  define docs where "docs = filter (\<lambda>d. dget d ''state'' = PStr ''active'' \<and> dget d ''grantee_type'' = PStr ''user''
     \<and> truthy (dget d ''resource_id'') \<and> unexpired amb d) (grant_rows_by st ''grantee_id'' user_id)"
  have docs: "set docs = user_grant_docs amb st user_id"
    by (auto simp: docs_def user_grant_docs_def set_grant_rows_by)
  have mask: "allows (doc_mask d) ''read'' \<longleftrightarrow> doc_effect d = ''allow'' \<and> truthy (dget d ''can_read'')"
    "(is_deny (doc_mask d) \<longrightarrow> \<not> carries (doc_mask d) ''read'') \<longleftrightarrow> doc_effect d = ''allow'' \<or> \<not> truthy (dget d ''can_read'')" for d
    by (auto simp: doc_mask_def allows_def is_deny_def ACTIONS_def)
  let ?masked = "map (\<lambda>d. (dtext d ''resource_id'', doc_mask d)) docs"
  have "get_active_collection_ids_for_user amb st user_id
      = Inr (map fst (filter (\<lambda>(rid, m). allows m ''read'' \<and> rid \<notin> fst ` set (filter (\<lambda>(_, m). is_deny m \<and> carries m ''read'') ?masked)) ?masked))"
    using assms by (simp add: get_active_collection_ids_for_user_def grant_docs_by_eq docs_def Let_def)
  then show ?thesis
    by (simp add: docs [symmetric] mask
        deny_first_set [where A = "\<lambda>m. allows m ''read''" and D = "\<lambda>m. is_deny m \<and> carries m ''read''", simplified])
qed

text \<open>(C10) The seed of the read light cone is deny-first: a resource is in it exactly when some active,
  unexpired user grant of the principal allows reading it and no other one with the read bit has any
  effect but \<open>allow\<close>, in whatever order the store returns them. A document without the column counts
  for nothing; one whose effect is unrecognized counts as a deny.\<close>

theorem read_seed_deny_first:
  assumes "user_id \<noteq> []"
  shows "\<exists>rids. get_active_collection_ids_for_user amb st user_id = Inr rids
    \<and> set rids = {dtext d ''resource_id'' | d. d \<in> user_grant_docs amb st user_id
          \<and> doc_effect d = ''allow'' \<and> truthy (dget d ''can_read'')
          \<and> (\<forall>d' \<in> user_grant_docs amb st user_id. dtext d' ''resource_id'' = dtext d ''resource_id''
               \<longrightarrow> doc_effect d' = ''allow'' \<or> \<not> truthy (dget d' ''can_read''))}"
  by (rule user_seed_exact [OF assms])

text \<open>A store that holds one allow and one deny for the same user and resource, and an artifact in it.\<close>

definition grant_row :: "string \<Rightarrow> string \<Rightarrow> int \<Rightarrow> vrow" where
  "grant_row gid eff n = (sample_row gid n)\<lparr> v_ct := Some GRANT_CT, v_doc :=
     [(''id'', PStr gid), (''content_type'', PStr GRANT_CT), (''grantee_id'', PStr ''ann''), (''grantee_type'', PStr ''user''),
      (''resource_id'', PStr ''box''), (''state'', PStr ''active''), (''effect'', PStr eff),
      (''can_read'', PBool True), (''can_delete'', PBool True)] \<rparr>"

definition sample_ledger :: "string \<Rightarrow> lattice" where
  "sample_ledger eff = (empty_lattice ''o'' 4)\<lparr> vertices :=
     [(''g1'', grant_row ''g1'' eff 1),
      (''note'', (sample_row ''note'' 2)\<lparr> v_doc := [(''id'', PStr ''note''), (''collection_id'', PStr ''box'')] \<rparr>)] \<rparr>"

lemma sample_ledger_docs:
  "user_grant_docs sample_ambient (sample_ledger eff) ''ann'' = {v_doc (grant_row ''g1'' eff 1)}"
proof -
  have "v_ct (grant_row ''g1'' eff 1) = Some GRANT_CT" "v_ct (sample_row ''note'' 2\<lparr> v_doc := x \<rparr>) = None" for x
    by (simp_all add: grant_row_def sample_row_def)
  then have rows: "{r \<in> snd ` set (vertices (sample_ledger eff)). v_ct r = Some GRANT_CT} = {grant_row ''g1'' eff 1}"
    by (auto simp: sample_ledger_def)
  show ?thesis unfolding user_grant_docs_def rows by (auto simp: grant_row_def dget_Cons unexpired_def)
qed

theorem read_seed_deny_first_witness:
  "\<exists>rids. get_active_collection_ids_for_user sample_ambient (sample_ledger '' Allow '') ''ann'' = Inr rids \<and> set rids = {''box''}"
proof -
  have "doc_effect (v_doc (grant_row ''g1'' '' Allow '' 1)) = ''allow''"
    by code_simp
  moreover have "dtext (v_doc (grant_row ''g1'' '' Allow '' 1)) ''resource_id'' = ''box''"
    "truthy (dget (v_doc (grant_row ''g1'' '' Allow '' 1)) ''can_read'')"
    by (simp_all add: grant_row_def dtext_def dget_Cons)
  ultimately show ?thesis
    using read_seed_deny_first [of "''ann''" sample_ambient "sample_ledger '' Allow ''"]
    unfolding sample_ledger_docs by simp
qed

text \<open>A grant survives the ledger: creating a well-formed grant under a new id succeeds, reading it back
  by id gives the same grant field by field, its private fields unsealed, and no other document
  changes.\<close>

theorem grant_create_roundtrip:
  assumes "fernet_law K" "wf_grant g" "doc_of st (g_id g) = None"
  shows "\<exists>st'. create_grant H K (g, PNone) st = Inr st'
    \<and> (doc_fault st' (g_id g) \<or> get_grant_by_id amb K st' (g_id g) = Inr (Some (g, PNone)))
    \<and> (\<forall>aid. aid = g_id g \<or> doc_of st' aid = doc_of st aid)"
proof -
  obtain d n st' where d: "to_grant_doc K (g, PNone) = Inr d" and st': "create_grant H K (g, PNone) st = Inr st'"
    and w: "doc_of st' = (doc_of st)(g_id g \<mapsto> stored_doc (doc_of st (g_id g)) d (st_origin st) n)"
    by (rule put_grant [OF assms(1,2)])
  define raw where "raw = stored_doc None d (st_origin st) n"
  have doc: "doc_of st' = (doc_of st)(g_id g \<mapsto> raw)" using w assms(3) by (simp add: raw_def)
  have "from_lattice_doc amb K raw = (g, PNone)"
    unfolding raw_def by (rule stored_grant_decodes [OF assms(1,2) d stored_fresh])
  moreover have "dget raw ''content_type'' = PStr GRANT_CT"
    using d by (auto simp: raw_def stored_fresh TIME_CLAIM_KEY_def to_grant_doc_def rbind_eq_Inr)
  ultimately show ?thesis
    using st' doc by (intro exI [of _ st']) (simp add: get_grant_by_id_def get_artifact_def)
qed

theorem grant_create_roundtrip_witness:
  "\<exists>st'. create_grant sample_H sample_key (Grant_init sample_ambient (GRANT_ARGS\<lparr> gname := Some ''Ann'' \<rparr>), PNone)
     (empty_lattice ''o'' 4) = Inr st'"
proof -
  let ?g = "Grant_init sample_ambient (GRANT_ARGS\<lparr> gname := Some ''Ann'' \<rparr>)"
  have "wf_grant ?g" by (rule Grant_init_wf) (simp_all add: sample_ambient_def)
  moreover have "doc_of (empty_lattice ''o'' 4) (g_id ?g) = None" by (simp add: doc_of_def empty_lattice_def)
  ultimately show ?thesis using grant_create_roundtrip [OF sample_fernet] by blast
qed

section \<open>The user upsert\<close>

lemma wf_set_flags [simp]: "wf_grant (set_flags fs g) = wf_grant g" "wf_grant (g\<lparr> gname := x \<rparr>) = wf_grant g"
  by (simp_all add: wf_grant_def)

lemma wf_decoded: "fresh_id amb \<noteq> [] \<Longrightarrow> now_iso amb \<noteq> [] \<Longrightarrow> wf_grant (fst (from_lattice_doc amb K d))"
  by (simp add: from_lattice_doc_def Let_def Grant_from_dict_def Grant_init_wf)

lemma flag_list_keys: "map fst (flag_list can) = map (\<lambda>a. ''can_'' @ a) ACTIONS"
  by (simp add: flag_list_def ACTIONS_def)

lemma get_flag_list: "a \<in> set ACTIONS \<Longrightarrow> get_flag (set_flags (flag_list can) g) (''can_'' @ a) = can a"
proof -
  assume a: "a \<in> set ACTIONS"
  have "distinct (map fst (flag_list can))" unfolding flag_list_keys by (simp add: ACTIONS_def)
  moreover have "set (map fst (flag_list can)) \<subseteq> (\<lambda>a. ''can_'' @ a) ` set ACTIONS" unfolding flag_list_keys by simp
  moreover have "map_of (flag_list can) (''can_'' @ a) = Some (can a)" using a by (auto simp: flag_list_def ACTIONS_def)
  ultimately show ?thesis by (subst get_set_flags) simp_all
qed

lemma get_flag_name [simp]: "get_flag (g\<lparr> gname := x \<rparr>) f = get_flag g f"
  by (simp add: get_flag_def)

lemma flags_unchanged:
  assumes "\<not> list_ex (\<lambda>(k, v). get_flag g k \<noteq> v) (flag_list can)" "a \<in> set ACTIONS"
  shows "get_flag g (''can_'' @ a) = can a"
proof -
  have "(''can_'' @ a, can a) \<in> set (flag_list can)" using assms(2) by (auto simp: flag_list_def ACTIONS_def)
  with assms(1) show ?thesis by (fastforce simp: list_ex_iff)
qed

text \<open>A field that the raw document holds as text is the entity's field.\<close>

lemma decoded_field:
  assumes "dget d k = PStr v" "v \<noteq> []" "k \<notin> set LATTICE_INTERNAL" "k \<noteq> SEALED"
  shows "dget (dpop SEALED (unseal_fields K (filter (\<lambda>(k, _). k \<notin> set LATTICE_INTERNAL) d))) k = PStr v"
  using assms by (auto simp: unseal_get dget_internal blank_def Let_def split: sum.splits)

lemma decoded_place:
  assumes "dget d ''resource_id'' = PStr r" "r \<noteq> []" "dget d ''grantee_id'' = PStr u" "u \<noteq> []"
    "dget d ''state'' = PStr ''active''"
  shows "resource_id (fst (from_lattice_doc amb K d)) = r" "grantee_id (fst (from_lattice_doc amb K d)) = u"
    "gstate (fst (from_lattice_doc amb K d)) = ''active''"
  using decoded_field [OF assms(1,2), of K] decoded_field [OF assms(3,4), of K] decoded_field [OF assms(5), of K]
  by (simp_all add: from_lattice_doc_def Let_def Grant_from_dict_def Grant_init_def dtext_def dtext_or_get
      LATTICE_INTERNAL_def SEALED_def)

lemma written_mask:
  assumes "fernet_law K" "to_grant_doc K (g, PNone) = Inr d"
  shows "doc_mask (stored_doc p d origin n) = mask_of g"
    "dget (stored_doc p d origin n) ''resource_id'' = PStr (resource_id g)"
    "dget (stored_doc p d origin n) ''grantee_id'' = PStr (grantee_id g)"
    "dget (stored_doc p d origin n) ''state'' = PStr (gstate g)"
    "dget (stored_doc p d origin n) ''grantee_type'' = PStr (grantee_type g)"
    "dget (stored_doc p d origin n) ''expires_at'' = opt_val (expires_at g)"
    "dget (stored_doc p d origin n) ''effect'' = PStr (effect g)"
proof -
  from grant_doc_written [OF assms(1), of g] assms(2) have
    k: "\<And>k. k \<notin> set (SEALED # ''_type'' # ''content_type'' # GRANT_SEALED_FIELDS) \<Longrightarrow> dget d k = dget (Grant_to_dict g) k"
    by (metis sum.inject(2))
  let ?d = "stored_doc p d origin n"
  have flag: "truthy (dget ?d (''can_'' @ a)) = get_flag g (''can_'' @ a)" if "a \<in> set ACTIONS" for a
    using that by (auto simp: ACTIONS_def dget_stored_doc TIME_CLAIM_KEY_def k SEALED_def GRANT_SEALED_FIELDS_def
        Grant_to_dict_def dget_Cons get_flag_def)
  show ef: "dget ?d ''effect'' = PStr (effect g)"
    by (simp add: dget_stored_doc TIME_CLAIM_KEY_def k SEALED_def GRANT_SEALED_FIELDS_def) (simp add: Grant_to_dict_def dget_Cons)
  from ef have eff: "doc_effect ?d = effect_of g" by (auto simp: doc_effect_def effect_of_def py_or_def)
  show "doc_mask ?d = mask_of g"
    by (rule mask_eqI) (auto simp: doc_mask_def grant_is_allow_def eff flag simp del: append.simps)
  show "dget ?d ''resource_id'' = PStr (resource_id g)" "dget ?d ''grantee_id'' = PStr (grantee_id g)" "dget ?d ''state'' = PStr (gstate g)"
    "dget ?d ''grantee_type'' = PStr (grantee_type g)" "dget ?d ''expires_at'' = opt_val (expires_at g)"
    by (simp_all add: dget_stored_doc TIME_CLAIM_KEY_def k SEALED_def GRANT_SEALED_FIELDS_def) (simp_all add: Grant_to_dict_def dget_Cons)
qed

lemma update_is_create: "update_grant = create_grant"
  by (simp add: fun_eq_iff update_grant_def create_grant_def)

text \<open>What the caller of the upsert is told, and what the ledger then holds.\<close>

definition upsert_post ::
  "string \<Rightarrow> string \<Rightarrow> (string \<Rightarrow> bool) \<Rightarrow> lattice \<Rightarrow> grant \<Rightarrow> bool \<Rightarrow> lattice \<Rightarrow> bool" where
  "upsert_post user_id collection_id can st g changed st' =
     (list_all (\<lambda>a. get_flag g (''can_'' @ a) = can a) ACTIONS
      \<and> grantee_type g = GRANTEE_USER \<and> grantee_id g = user_id \<and> resource_id g = collection_id \<and> gstate g = STATE_ACTIVE
      \<and> (if changed
         then (\<exists>d. doc_of st' = (doc_of st)(g_id g \<mapsto> d) \<and> doc_mask d = mask_of g
                 \<and> dget d ''resource_id'' = PStr collection_id \<and> dget d ''grantee_id'' = PStr user_id
                 \<and> dget d ''state'' = PStr STATE_ACTIVE)
         else st' = st))"

lemma upsert_written:
  assumes "fernet_law K" "wf_grant g" "list_all (\<lambda>a. get_flag g (''can_'' @ a) = can a) ACTIONS"
    "grantee_type g = GRANTEE_USER" "grantee_id g = user_id" "resource_id g = collection_id" "gstate g = STATE_ACTIVE"
  shows "\<exists>st'. create_grant H K (g, PNone) st = Inr st' \<and> upsert_post user_id collection_id can st g True st'"
proof -
  obtain d n st' where d: "to_grant_doc K (g, PNone) = Inr d" "create_grant H K (g, PNone) st = Inr st'"
    "doc_of st' = (doc_of st)(g_id g \<mapsto> stored_doc (doc_of st (g_id g)) d (st_origin st) n)"
    by (rule put_grant [OF assms(1,2)])
  with written_mask [OF assms(1) d(1)] assms show ?thesis by (auto simp: upsert_post_def)
qed

lemma upsert_exact:
  assumes "fernet_law K" "fresh_id amb \<noteq> []" "now_iso amb \<noteq> []" "user_id \<noteq> []" "collection_id \<noteq> []"
    and "get_active_grants_for_principal_resource amb K st user_id collection_id = Inr es"
    and "list_all (\<lambda>e. snd e = PNone) es"
  shows "\<exists>g changed st'. upsert_user_collection_grant H amb K user_id collection_id by_id can name st
      = Inr (((g, PNone), changed), st') \<and> upsert_post user_id collection_id can st g changed st'"
proof (cases "find_first (\<lambda>e. grantee_type (fst e) = GRANTEE_USER) es")
  case None
  define g where "g = Grant_init amb (set_flags (flag_list can) (GRANT_ARGS\<lparr> g_id := fresh_id amb,
    resource_id := collection_id, grantee_type := GRANTEE_USER, grantee_id := user_id, granted_by := by_id, gname := name \<rparr>))"
  have "wf_grant g" using assms(2,3) by (simp add: g_def Grant_init_wf)
  moreover have "get_flag (Grant_init amb h) f = get_flag h f" for h f by (simp add: Grant_init_def Let_def get_flag_def)
  then have "list_all (\<lambda>a. get_flag g (''can_'' @ a) = can a) ACTIONS"
    unfolding list_all_iff g_def by (simp add: get_flag_list del: append.simps)
  moreover have "grantee_type g = GRANTEE_USER" "grantee_id g = user_id" "resource_id g = collection_id" "gstate g = STATE_ACTIVE"
    by (simp_all add: g_def Grant_init_def Let_def GRANT_ARGS_def)
  ultimately obtain st' where "create_grant H K (g, PNone) st = Inr st'" "upsert_post user_id collection_id can st g True st'"
    using upsert_written [OF assms(1)] by blast
  with None assms(6) show ?thesis
    by (auto simp: upsert_user_collection_grant_def Let_def g_def [symmetric])
next
  case (Some e)
  obtain ug where e: "e = (ug, PNone)" and ut: "grantee_type ug = GRANTEE_USER" and mem: "(ug, PNone) \<in> set es"
    using find_first_Some [OF Some] assms(7) by (cases e) (auto simp: list_all_iff)
  from mem assms(4,6) obtain d where d: "from_lattice_doc amb K d = (ug, PNone)" "dget d ''grantee_id'' = PStr user_id"
    "dget d ''resource_id'' = PStr collection_id" "dget d ''state'' = PStr ''active''"
    by (auto simp: get_active_grants_for_principal_resource_def grant_docs_by_eq set_grant_rows_by)
  have ug: "wf_grant ug" "grantee_id ug = user_id" "resource_id ug = collection_id" "gstate ug = STATE_ACTIVE"
    using wf_decoded [OF assms(2,3), of K d] decoded_place [OF d(3) assms(5) d(2) assms(4) d(4), of amb K] d(1) by simp_all
  show ?thesis
  proof (cases "list_ex (\<lambda>(k, v). get_flag ug k \<noteq> v) (flag_list can) \<or> (name \<noteq> None \<and> gname ug \<noteq> name)")
    case False
    then have "upsert_post user_id collection_id can st ug False st"
      using ug ut flags_unchanged [of ug can] by (auto simp: upsert_post_def list_all_iff)
    with False Some assms(6) show ?thesis by (auto simp: upsert_user_collection_grant_def Let_def e)
  next
    case True
    define g where "g = (if name \<noteq> None then (set_flags (flag_list can) ug)\<lparr> gname := name \<rparr> else set_flags (flag_list can) ug)"
    have "list_all (\<lambda>a. get_flag g (''can_'' @ a) = can a) ACTIONS"
      unfolding list_all_iff g_def by (simp add: get_flag_list del: append.simps)
    moreover have "wf_grant g" "grantee_type g = GRANTEE_USER" "grantee_id g = user_id" "resource_id g = collection_id"
      "gstate g = STATE_ACTIVE" using ug ut by (simp_all add: g_def)
    ultimately obtain st' where "create_grant H K (g, PNone) st = Inr st'" "upsert_post user_id collection_id can st g True st'"
      using upsert_written [OF assms(1)] by blast
    moreover have "upsert_user_collection_grant H amb K user_id collection_id by_id can name st
        = rbind (create_grant H K (g, PNone) st) (\<lambda>st'. Inr (((g, PNone), True), st'))"
      using True unfolding upsert_user_collection_grant_def assms(6) rbind_simps Let_def Some e update_is_create g_def
      by auto
    ultimately show ?thesis by (intro exI [of _ g] exI [of _ True] exI [of _ st']) simp
  qed
qed

text \<open>The user upsert grants exactly what was asked: when every active grant of the user on the resource
  can be opened on this node, it returns an active user grant on that resource whose nine flags are
  the requested ones. When it reports a change, the ledger holds that authority under the grant's id
  and no other document differs; when it reports none, the store is untouched.\<close>

theorem upsert_grants_exactly:
  assumes "fernet_law K" "fresh_id amb \<noteq> []" "now_iso amb \<noteq> []" "user_id \<noteq> []" "collection_id \<noteq> []"
    and "get_active_grants_for_principal_resource amb K st user_id collection_id = Inr es"
    and "list_all (\<lambda>e. snd e = PNone) es"
  shows "\<exists>g changed st'. upsert_user_collection_grant H amb K user_id collection_id by_id can name st
      = Inr (((g, PNone), changed), st') \<and> upsert_post user_id collection_id can st g changed st'"
  by (rule upsert_exact [OF assms])

theorem upsert_grants_exactly_witness:
  "\<exists>g st'. upsert_user_collection_grant sample_H sample_ambient sample_key ''ann'' ''box'' ''root'' (\<lambda>a. a = ''read'') None
      (empty_lattice ''o'' 4) = Inr (((g, PNone), True), st') \<and> get_flag g ''can_read'' \<and> \<not> get_flag g ''can_admin''"
proof -
  have e: "get_active_grants_for_principal_resource sample_ambient sample_key (empty_lattice ''o'' 4) ''ann'' ''box'' = Inr []"
    by (simp add: get_active_grants_for_principal_resource_def grant_docs_by_eq grant_rows_by_def rows_by_id_def empty_lattice_def)
  have a: "fresh_id sample_ambient \<noteq> []" "now_iso sample_ambient \<noteq> []" "''ann'' \<noteq> []" "''box'' \<noteq> []" "list_all (\<lambda>e. snd e = PNone) []"
    by (simp_all add: sample_ambient_def)
  obtain g c st' where u: "upsert_user_collection_grant sample_H sample_ambient sample_key ''ann'' ''box'' ''root'' (\<lambda>a. a = ''read'') None
      (empty_lattice ''o'' 4) = Inr (((g, PNone), c), st')"
    and post: "upsert_post ''ann'' ''box'' (\<lambda>a. a = ''read'') (empty_lattice ''o'' 4) g c st'"
    using upsert_grants_exactly [OF sample_fernet a(1-4) e] by fastforce
  have c
    using u by (auto simp: upsert_user_collection_grant_def e Let_def rbind_eq_Inr)
  moreover have "get_flag g ''can_read''" "\<not> get_flag g ''can_admin''"
    using post by (auto simp: upsert_post_def ACTIONS_def)
  ultimately show ?thesis using u by auto
qed

text \<open>The archive gate reads a flag and not an authority: one active grant of the user on the parent
  collection with the delete bit set is enough for \<open>archive_artifact\<close> to archive, whatever its effect,
  so a grant written to deny deletion authorizes it.\<close>

theorem archive_ignores_effect:
  assumes "\<not> doc_fault st aid" "doc_of st aid = Some raw" "plain_doc raw" "\<not> truthy (dget raw ''content_ref'')" "dtext raw ''id'' = aid"
    and "dget raw ''collection_id'' = PStr cid" "cid \<noteq> []"
    and "get_active_grants_for_principal_resource amb K st user_id cid = Inr es" "(g, b) \<in> set es" "can_delete g"
  shows "\<exists>st' d. archive_artifact H amb K user_id aid st = Inr (True, st') \<and> doc_of st' aid = Some d \<and> state_of d = STATE_ARCHIVED"
proof -
  define new where "new = dset ''state'' (PStr STATE_ARCHIVED) raw"
  have new: "plain_doc new" "\<not> truthy (dget new ''content_ref'')" "dtext new ''id'' = aid"
    using assms(3-5) by (simp_all add: new_def plain_doc_def dtext_def)
  obtain d st' where p: "put_artifact H new True False st = Inr (d, st')" by (rule put_plain [OF new(1,2)])
  obtain n where d: "d = stored_doc (doc_of st (dtext new ''id'')) new (st_origin st) n" by (rule put_stored [OF p new(2)])
  have "list_ex (\<lambda>e. can_delete (fst e)) es" using assms(9,10) by (force simp: list_ex_iff)
  then have "archive_artifact H amb K user_id aid st = Inr (True, st')"
    using assms(1,2,6-8) p by (simp add: archive_artifact_def get_artifact_def dtext_def new_def [symmetric])
  moreover have "dget d ''state'' = PStr STATE_ARCHIVED"
    by (simp add: d dget_stored_doc TIME_CLAIM_KEY_def) (simp add: new_def)
  ultimately show ?thesis
    using live.get_put [OF new(2) p] new(3) by (auto simp: state_of_def LEGACY_LIVE_STATES_def)
qed

theorem archive_ignores_effect_witness:
  "\<exists>st'. archive_artifact sample_H sample_ambient sample_key ''ann'' ''note'' (sample_ledger ''deny'') = Inr (True, st')"
proof -
  let ?st = "sample_ledger ''deny''" and ?raw = "[(''id'', PStr ''note''), (''collection_id'', PStr ''box'')]"
  have rows: "grant_rows_by ?st ''grantee_id'' ''ann'' = [v_doc (grant_row ''g1'' ''deny'' 1)]"
    by (simp add: grant_rows_by_def rows_by_id_def sample_ledger_def grant_row_def sample_row_def dget_Cons)
  obtain g b where gb: "from_lattice_doc sample_ambient sample_key (v_doc (grant_row ''g1'' ''deny'' 1)) = (g, b)" by fastforce
  have es: "get_active_grants_for_principal_resource sample_ambient sample_key ?st ''ann'' ''box'' = Inr [(g, b)]"
    by (simp add: get_active_grants_for_principal_resource_def grant_docs_by_eq rows gb)
      (simp add: grant_row_def dget_Cons unexpired_def)
  have "can_delete g"
    using gb by (auto simp: from_lattice_doc_def grant_row_def LATTICE_INTERNAL_def unseal_fields_def SEALED_def dget_Cons
        dpop_def Grant_from_dict_def Grant_init_def dflag_def Let_def)
  moreover have "\<not> doc_fault ?st ''note''" "doc_of ?st ''note'' = Some ?raw" "plain_doc ?raw" "\<not> truthy (dget ?raw ''content_ref'')"
    "dtext ?raw ''id'' = ''note''" "dget ?raw ''collection_id'' = PStr ''box''"
    by (simp_all add: sample_ledger_def empty_lattice_def doc_of_def plain_doc_def dtext_def dget_Cons)
  ultimately show ?thesis using archive_ignores_effect [of ?st "''note''" ?raw "''box''"] es by fastforce
qed

end
