(* ===== verification/Membership.thy ===== *)
theory Membership
  imports Ledger Origin_Walk "HOL-Library.Product_Lexorder"
begin

text \<open>
  Collections in \<open>db/lattice_api.py\<close>: membership is an edge from the container to the root, its label is
  the relation (\<open>contains\<close>, or a name a person gave, stored as a keyed token), and the order of a
  container is the order of the edges' text keys. The order keys (\<open>after_key\<close>, \<open>mid_key\<close>), the lineage
  readers that pick the current version for a collection, the membership writes, the reorder and the
  removal of links are here, over the graph operations of \<open>Store_Write\<close>.

  A function that may raise outside its \<open>try\<close> returns a \<open>result\<close>; one that reports a boolean returns it
  beside the new state. Decoding a document into an artifact entity (content decryption) is not part
  of this module: the lineage readers return the document.
\<close>

section \<open>Order keys\<close>

definition ALPH :: string where
  "ALPH = ''0123456789ABCDEFGHIJKLMNOPQRSTUVWXYZabcdefghijklmnopqrstuvwxyz''"

text \<open>\<open>str.find\<close> of one character: its first index, or \<open>-1\<close>.\<close>

definition alph_find :: "char \<Rightarrow> int" where
  "alph_find c = (if c \<in> set ALPH then int (length (takeWhile (\<lambda>x. x \<noteq> c) ALPH)) else - 1)"

definition after_key :: "string option \<Rightarrow> string" where
  "after_key a =
     (case a of
        None \<Rightarrow> ''U''
      | Some a \<Rightarrow>
          if a = [] then ''U''
          else (let n = alph_find (last a) in
                if n = - 1 \<or> n = int (length ALPH) - 1 then a @ ''U''
                else butlast a @ [ALPH ! nat (n + 1)]))"

function mid_loop :: "string \<Rightarrow> string \<Rightarrow> nat \<Rightarrow> string" where
  "mid_loop a b i =
     (let ca = (if i < length a then alph_find (a ! i) else alph_find (CHR ''U''));
          cb = (if i < length b then alph_find (b ! i) else int (length ALPH) - 1) in
      if ca + 1 < cb then (if i < length a then take i a else a) @ [ALPH ! nat ((ca + cb) div 2)]
      else if max (length a) (length b) + 4 < Suc i then a @ [ALPH ! 1]
      else mid_loop a b (Suc i))"
  by auto
termination
  by (relation "measure (\<lambda>(a, b, i). Suc (max (length a) (length b)) + 4 - i)") auto

declare mid_loop.simps [simp del]

definition mid_key :: "string option \<Rightarrow> string option \<Rightarrow> string" where
  "mid_key a b =
     (case (a, b) of
        (None, None) \<Rightarrow> ''U''
      | (_, None) \<Rightarrow> (case a of None \<Rightarrow> [] | Some a \<Rightarrow> a) @ ''U''
      | (_, Some b) \<Rightarrow> mid_loop (case a of None \<Rightarrow> [] | Some a \<Rightarrow> a) b 0)"

section \<open>Labels\<close>

definition SYSTEM_LABELS :: "string list" where
  "SYSTEM_LABELS = [CONTAINS, ''context'', ''authorizer'', ''link'']"

definition label_token :: "node_key \<Rightarrow> string \<Rightarrow> string" where
  "label_token K name = keyed_token K ''edge-label'' name"

definition stored_label :: "node_key \<Rightarrow> string option \<Rightarrow> string" where
  "stored_label K relationship =
     (case relationship of
        None \<Rightarrow> CONTAINS
      | Some r \<Rightarrow> if r = [] then CONTAINS else if r \<in> set SYSTEM_LABELS then r else label_token K r)"

fun split_dots :: "string \<Rightarrow> string list" where
  "split_dots [] = [[]]"
| "split_dots (c # cs) =
     (if c = CHR ''.'' then [] # split_dots cs
      else (case split_dots cs of [] \<Rightarrow> [[c]] | p # ps \<Rightarrow> (c # p) # ps))"

definition label_props :: "node_key \<Rightarrow> string option \<Rightarrow> doc" where
  "label_props K relationship =
     (case relationship of
        None \<Rightarrow> []
      | Some r \<Rightarrow>
          if r = [] \<or> r \<in> set SYSTEM_LABELS then []
          else
            (let parts = split_dots r in
             [(''label_sealed'', PStr (seal_value K r)),
              (''label_prefixes'', PList (map (\<lambda>i. PStr (label_token K (py_join ''.'' (take i parts)))) [1..<length parts]))]))"

definition shown_label :: "node_key \<Rightarrow> erow \<Rightarrow> string option" where
  "shown_label K e =
     (if e_label e = CONTAINS then None
      else if \<not> is_token (e_label e) then Some (e_label e)
      else
        (let sealed = eprop e ''label_sealed'' in
         if \<not> truthy sealed then Some (e_label e)
         else (case open_value K (as_text sealed) of None \<Rightarrow> Some (e_label e) | Some name \<Rightarrow> Some name)))"

section \<open>Lineage\<close>

definition get_latest_live_artifact :: "lattice \<Rightarrow> string \<Rightarrow> string option \<Rightarrow> doc option" where
  "get_latest_live_artifact st root_id collection_id =
     find_first (\<lambda>d. state_of d \<noteq> STATE_ARCHIVED
         \<and> (case collection_id of None \<Rightarrow> True | Some c \<Rightarrow> c = [] \<or> dget d ''collection_id'' = PStr c))
       (rev (versions_of st root_id))"

definition current_in :: "doc list \<Rightarrow> string \<Rightarrow> doc option" where
  "current_in docs collection_id =
     find_first (\<lambda>d. state_of d \<noteq> STATE_ARCHIVED \<and> dget d ''collection_id'' = PStr collection_id) (rev docs)"

definition get_current_in_collection :: "lattice \<Rightarrow> string \<Rightarrow> string \<Rightarrow> doc option" where
  "get_current_in_collection st collection_id root_id = current_in (versions_of st root_id) collection_id"

fun current_in_any :: "doc list \<Rightarrow> string list \<Rightarrow> doc option" where
  "current_in_any docs [] = None"
| "current_in_any docs (cid # cids) =
     (case current_in docs cid of Some d \<Rightarrow> Some d | None \<Rightarrow> current_in_any docs cids)"

definition get_current_in_any_collection :: "lattice \<Rightarrow> string \<Rightarrow> string list \<Rightarrow> doc option" where
  "get_current_in_any_collection st root_id collection_ids =
     (if collection_ids = [] then None
      else (let docs = versions_of st root_id in if docs = [] then None else current_in_any docs collection_ids))"

definition get_current_in_collection_many :: "lattice \<Rightarrow> string \<Rightarrow> string list \<Rightarrow> (string \<times> doc) list" where
  "get_current_in_collection_many st collection_id root_ids =
     List.map_filter (\<lambda>(rid, docs). map_option (Pair rid) (current_in docs collection_id)) (versions_of_many st root_ids)"

definition get_current_in_any_collection_many :: "lattice \<Rightarrow> string list \<Rightarrow> string list \<Rightarrow> (string \<times> doc) list" where
  "get_current_in_any_collection_many st root_ids collection_ids =
     (if collection_ids = [] then []
      else List.map_filter (\<lambda>(rid, docs). map_option (Pair rid) (current_in_any docs collection_ids)) (versions_of_many st root_ids))"

definition list_version_history :: "lattice \<Rightarrow> string \<Rightarrow> doc list" where
  "list_version_history st root_id = filter (\<lambda>d. state_of d \<noteq> STATE_ARCHIVED) (rev (versions_of st root_id))"

definition count_children :: "lattice \<Rightarrow> string \<Rightarrow> nat result" where
  "count_children st root_id = rbind (edges_of st root_id (Some CONTAINS) Out) (\<lambda>es. Inr (length es))"

definition has_children :: "lattice \<Rightarrow> string \<Rightarrow> bool result" where
  "has_children st root_id = rbind (edges_of_full st root_id (Some CONTAINS) Out 1 True) (\<lambda>es. Inr (es \<noteq> []))"

definition delete_versions :: "hashlib \<Rightarrow> doc list \<Rightarrow> string list \<times> lattice \<Rightarrow> string list \<times> lattice" where
  "delete_versions H vs acc =
     fold (\<lambda>v (deleted, st).
         let vid = dtext v ''id'' in
         if vid = [] then (deleted, st)
         else (case delete_artifact H vid st of Inl _ \<Rightarrow> (deleted, st) | Inr st' \<Rightarrow> (deleted @ [vid], st'))) vs acc"

definition delete_artifacts_by_root :: "hashlib \<Rightarrow> string \<Rightarrow> lattice \<Rightarrow> string list \<times> lattice" where
  "delete_artifacts_by_root H root_id st = delete_versions H (versions_of st root_id) ([], st)"

section \<open>Membership\<close>

definition ser_propagate :: "pyval \<Rightarrow> pyval" where
  "ser_propagate v = (case v of PList vs \<Rightarrow> PStr (dump_value '', '' '': '' False (PList vs)) | _ \<Rightarrow> v)"

definition membership_edges :: "lattice \<Rightarrow> string \<Rightarrow> erow list result" where
  "membership_edges st collection_id = edges_of st collection_id None Out"

definition get_last_order_key :: "lattice \<Rightarrow> string \<Rightarrow> string option result" where
  "get_last_order_key st collection_id =
     rbind (membership_edges st collection_id) (\<lambda>es.
       (let keys = map as_text (filter truthy (map (\<lambda>e. eprop e ''order_key'') es)) in
        Inr (if keys = [] then None else Some (fold max (tl keys) (hd keys)))))"

definition from_bytes_big :: "string \<Rightarrow> nat" where
  "from_bytes_big bs = fold (\<lambda>c n. 256 * n + of_char c) bs 0"

definition order_sequence :: "erow list \<Rightarrow> string list" where
  "order_sequence es =
     map snd (sort (map (\<lambda>e. (as_text (py_or (eprop e ''order_key'') (PStr [])), e_dst e)) es))"

definition order_fingerprint :: "(string \<Rightarrow> string) \<Rightarrow> lattice \<Rightarrow> string \<Rightarrow> nat result" where
  "order_fingerprint sha256 st collection_id =
     rbind (membership_edges st collection_id) (\<lambda>es.
       Inr (from_bytes_big (take 6 (sha256 (utf8 (py_join [CHR 0x0A] (order_sequence es)))))))"

definition add_artifact_to_collection ::
  "hashlib \<Rightarrow> node_key \<Rightarrow> string \<Rightarrow> string \<Rightarrow> string option \<Rightarrow> bool \<Rightarrow> pyval \<Rightarrow> string option \<Rightarrow> lattice
     \<Rightarrow> (bool \<times> lattice) result" where
  "add_artifact_to_collection H K collection_id root_id order_key origin propagate relationship st =
     rbind (case order_key of
              Some k \<Rightarrow> Inr k
            | None \<Rightarrow> rbind (get_last_order_key st collection_id) (\<lambda>k. Inr (after_key k))) (\<lambda>key.
       Inr (case add_edge H collection_id root_id (stored_label K relationship)
              ([(''order_key'', PStr key), (''is_origin'', PBool origin), (''propagate'', ser_propagate propagate),
                (''root_id'', PStr root_id)] @ label_props K relationship) True st of
              (Inl _, st') \<Rightarrow> (False, st')
            | (Inr _, st') \<Rightarrow> (True, st')))"

definition find_membership :: "lattice \<Rightarrow> string \<Rightarrow> string \<Rightarrow> erow option result" where
  "find_membership st collection_id root_id =
     rbind (membership_edges st collection_id) (\<lambda>es. Inr (find_first (\<lambda>e. e_dst e = root_id) es))"

definition remove_artifact_from_collection ::
  "hashlib \<Rightarrow> string \<Rightarrow> string \<Rightarrow> lattice \<Rightarrow> (bool \<times> lattice) result" where
  "remove_artifact_from_collection H collection_id root_id st =
     rbind (find_membership st collection_id root_id) (\<lambda>m.
       Inr (case m of
              None \<Rightarrow> (True, st)
            | Some e \<Rightarrow> (True, snd (delete_edge H collection_id root_id (e_label e) st))))"

definition link_named :: "node_key \<Rightarrow> string \<Rightarrow> erow \<Rightarrow> bool" where
  "link_named K relationship e =
     (e_label e \<noteq> CONTAINS
      \<and> (e_label e = relationship \<or> starts_with (relationship @ ''.'') (e_label e)
         \<or> e_label e = label_token K relationship
         \<or> (case eprop e ''label_prefixes'' of
               PList vs \<Rightarrow> PStr (label_token K relationship) \<in> set vs
             | _ \<Rightarrow> False)))"

fun unlink_all :: "hashlib \<Rightarrow> string \<Rightarrow> erow list \<Rightarrow> nat \<Rightarrow> lattice \<Rightarrow> nat \<times> lattice" where
  "unlink_all H src [] n st = (n, st)"
| "unlink_all H src (e # es) n st = unlink_all H src es (Suc n) (snd (delete_edge H src (e_dst e) (e_label e) st))"

definition remove_links :: "hashlib \<Rightarrow> node_key \<Rightarrow> string \<Rightarrow> string \<Rightarrow> lattice \<Rightarrow> (nat \<times> lattice) result" where
  "remove_links H K artifact_id relationship st =
     (if relationship = [] \<or> relationship = CONTAINS then Inr (0, st)
      else rbind (membership_edges st artifact_id) (\<lambda>es.
             Inr (unlink_all H artifact_id (filter (link_named K relationship) es) 0 st)))"

definition set_edge_order_key ::
  "hashlib \<Rightarrow> string \<Rightarrow> string \<Rightarrow> string \<Rightarrow> lattice \<Rightarrow> (bool \<times> lattice) result" where
  "set_edge_order_key H collection_id root_id new_order_key st =
     rbind (find_membership st collection_id root_id) (\<lambda>m.
       Inr (case m of
              None \<Rightarrow> (False, st)
            | Some e \<Rightarrow>
                (case add_edge H collection_id root_id (e_label e)
                   (dmerge (e_props e) [(''order_key'', PStr new_order_key), (''is_origin'', eprop e ''is_origin''),
                      (''propagate'', eprop e ''propagate'')]) True st of
                   (Inl _, st') \<Rightarrow> (False, st')
                 | (Inr _, st') \<Rightarrow> (True, st'))))"

fun reorder_loop :: "hashlib \<Rightarrow> string \<Rightarrow> string list \<Rightarrow> string option \<Rightarrow> nat \<Rightarrow> lattice \<Rightarrow> (nat \<times> lattice) result" where
  "reorder_loop H collection_id [] prev updated st = Inr (updated, st)"
| "reorder_loop H collection_id (rid # rids) prev updated st =
     (let key = after_key prev in
      rbind (set_edge_order_key H collection_id rid key st) (\<lambda>(ok, st').
        reorder_loop H collection_id rids (Some key) (if ok then Suc updated else updated) st'))"

definition reorder_collection_artifacts :: "hashlib \<Rightarrow> string \<Rightarrow> string list \<Rightarrow> lattice \<Rightarrow> (nat \<times> lattice) result" where
  "reorder_collection_artifacts H collection_id ordered_root_ids st =
     reorder_loop H collection_id ordered_root_ids None 0 st"

text \<open>\<open>list_collection_artifacts\<close>: the version shown for one member, and the listing in order.\<close>

definition last_opt :: "'a list \<Rightarrow> 'a option" where
  "last_opt xs = (if xs = [] then None else Some (last xs))"

definition opt_or :: "'a option \<Rightarrow> 'a option \<Rightarrow> 'a option" where
  "opt_or x y = (case x of None \<Rightarrow> y | Some _ \<Rightarrow> x)"

definition member_version :: "doc list \<Rightarrow> string \<Rightarrow> bool \<Rightarrow> doc option" where
  "member_version versions collection_id include_archived =
     (let in_coll = filter (\<lambda>v. dget v ''collection_id'' = PStr collection_id) versions;
          live = filter (\<lambda>v. state_of v \<noteq> STATE_ARCHIVED) versions;
          newest = (if in_coll = [] then versions else in_coll) in
      opt_or (current_in versions collection_id)
        (opt_or (last_opt live) (if include_archived then last_opt newest else None)))"

definition member_entry :: "node_key \<Rightarrow> (doc \<Rightarrow> doc) \<Rightarrow> erow \<Rightarrow> doc \<Rightarrow> doc" where
  "member_entry K decrypt e chosen =
     (let d = decrypt (filter (\<lambda>(k, _). k \<notin> set LATTICE_INTERNAL) chosen) in
      dset ''relationship'' (opt_val (shown_label K e))
        (dset ''propagate'' (prop_mask e)
          (dset ''origin'' (PBool (truthy (eprop e ''is_origin'')))
            (dset ''order_key'' (eprop e ''order_key'') d))))"

definition list_collection_artifacts ::
  "node_key \<Rightarrow> (doc \<Rightarrow> doc) \<Rightarrow> lattice \<Rightarrow> string \<Rightarrow> bool \<Rightarrow> doc list result" where
  "list_collection_artifacts K decrypt st collection_id include_archived =
     rbind (membership_edges st collection_id) (\<lambda>es.
       Inr (sort_key (\<lambda>d. (dget d ''order_key'' = PNone, as_text (py_or (dget d ''order_key'') (PStr []))))
         (List.map_filter (\<lambda>e.
            case member_version (versions_of st (e_dst e)) collection_id include_archived of
              None \<Rightarrow> None
            | Some chosen \<Rightarrow>
                if \<not> include_archived \<and> state_of chosen = STATE_ARCHIVED then None
                else Some (member_entry K decrypt e chosen)) es)))"

definition count_other_containers_for_root :: "lattice \<Rightarrow> string \<Rightarrow> string \<Rightarrow> nat result" where
  "count_other_containers_for_root st root_id excluding =
     rbind (edges_of st root_id None In) (\<lambda>es. Inr (length (filter (\<lambda>e. e_src e \<noteq> excluding) es)))"

definition get_edge :: "node_key \<Rightarrow> lattice \<Rightarrow> string \<Rightarrow> string \<Rightarrow> doc option result" where
  "get_edge K st collection_id root_id =
     rbind (find_membership st collection_id root_id) (\<lambda>m.
       Inr (map_option (\<lambda>e.
          [(''root_id'', PStr root_id), (''order_key'', eprop e ''order_key''),
           (''origin'', PBool (truthy (eprop e ''is_origin''))), (''propagate'', prop_mask e),
           (''relationship'', opt_val (shown_label K e)), (''relation'', opt_val (shown_label K e))]) m))"

fun add_batch ::
  "hashlib \<Rightarrow> node_key \<Rightarrow> string \<Rightarrow> (string \<times> string option) list \<Rightarrow> bool \<Rightarrow> pyval \<Rightarrow> bool \<Rightarrow> lattice \<Rightarrow> (bool \<times> lattice) result"
where
  "add_batch H K collection_id [] origin propagate ok_all st = Inr (ok_all, st)"
| "add_batch H K collection_id ((rid, order_key) # ps) origin propagate ok_all st =
     rbind (add_artifact_to_collection H K collection_id rid order_key origin propagate None st) (\<lambda>(ok, st').
       add_batch H K collection_id ps origin propagate (ok_all \<and> ok) st')"

definition add_artifacts_to_collection_batch ::
  "hashlib \<Rightarrow> node_key \<Rightarrow> string \<Rightarrow> (string \<times> string option) list \<Rightarrow> bool \<Rightarrow> pyval \<Rightarrow> lattice \<Rightarrow> (bool \<times> lattice) result" where
  "add_artifacts_to_collection_batch H K collection_id pairs origin propagate st =
     add_batch H K collection_id pairs origin propagate True st"

fun remove_edges_loop :: "hashlib \<Rightarrow> string \<Rightarrow> erow list \<Rightarrow> nat \<Rightarrow> lattice \<Rightarrow> nat \<times> lattice" where
  "remove_edges_loop H root_id [] removed st = (removed, st)"
| "remove_edges_loop H root_id (e # es) removed st =
     (case delete_edge H (e_src e) root_id (e_label e) st of
        (gone, st') \<Rightarrow> remove_edges_loop H root_id es (if gone then Suc removed else removed) st')"

definition remove_all_edges_for_root :: "hashlib \<Rightarrow> string \<Rightarrow> lattice \<Rightarrow> (nat \<times> lattice) result" where
  "remove_all_edges_for_root H root_id st =
     (case edges_of st root_id None In of
        Inl EdgesTruncated \<Rightarrow> Inl EdgesTruncated
      | Inl _ \<Rightarrow> Inr (0, st)
      | Inr es \<Rightarrow> Inr (remove_edges_loop H root_id es 0 st))"

text \<open>\<open>get_relationship_target\<close>: the stored label first, then the plain one.\<close>

definition get_relationship_target :: "node_key \<Rightarrow> lattice \<Rightarrow> string \<Rightarrow> string \<Rightarrow> string option result" where
  "get_relationship_target K st from_root_id relationship =
     (let first = (\<lambda>label rest.
            case edges_of st from_root_id (Some label) Out of
              Inl EdgesTruncated \<Rightarrow> Inl EdgesTruncated
            | Inl _ \<Rightarrow> Inr None
            | Inr (e # _) \<Rightarrow> Inr (Some (e_dst e))
            | Inr [] \<Rightarrow> rest) in
      if stored_label K (Some relationship) = relationship then first relationship (Inr None)
      else first (stored_label K (Some relationship)) (first relationship (Inr None)))"

section \<open>Order of keys\<close>

lemma less_append [simp]: "(xs :: string) < xs @ y # ys"
  by (induction xs) simp_all

lemma butlast_less: "xs \<noteq> [] \<Longrightarrow> last xs < c \<Longrightarrow> (xs :: string) < butlast xs @ [c]"
  by (induction xs) auto

lemma ALPH_length: "length ALPH = 62"
  by (simp add: ALPH_def)

lemma ALPH_sorted: "i < j \<Longrightarrow> j < 62 \<Longrightarrow> ALPH ! i < ALPH ! j"
proof -
  have "sorted_wrt (<) ALPH" unfolding ALPH_def by code_simp
  then show "i < j \<Longrightarrow> j < 62 \<Longrightarrow> ALPH ! i < ALPH ! j" by (simp add: sorted_wrt_iff_nth_less ALPH_length)
qed

lemma alph_find_cases:
  obtains "alph_find c = - 1" | i where "i < 62" "alph_find c = int i" "ALPH ! i = c"
proof (cases "c \<in> set ALPH")
  case True
  define i where "i = length (takeWhile (\<lambda>x. x \<noteq> c) ALPH)"
  have "takeWhile (\<lambda>x. x \<noteq> c) ALPH \<noteq> ALPH" using True by (metis set_takeWhileD)
  then have "i < length ALPH"
    unfolding i_def by (metis le_neq_implies_less length_takeWhile_le takeWhile_eq_take take_all_iff nle_le)
  moreover from this have "ALPH ! i = c" using nth_length_takeWhile [of "\<lambda>x. x \<noteq> c" ALPH] by (simp add: i_def)
  ultimately show thesis using True that(2) [of i] by (simp add: alph_find_def i_def ALPH_length)
qed (simp add: alph_find_def that(1))

lemma after_key_less: "a < after_key (Some a)"
proof (cases "a = []")
  case False
  show ?thesis
  proof (rule alph_find_cases [of "last a"])
    assume "alph_find (last a) = - 1"
    with False show ?thesis by (simp add: after_key_def)
  next
    fix i assume i: "i < 62" "alph_find (last a) = int i" "ALPH ! i = last a"
    show ?thesis
    proof (cases "i = 61")
      case True
      with False i show ?thesis by (simp add: after_key_def ALPH_length)
    next
      case F: False
      with i have "last a < ALPH ! Suc i" using ALPH_sorted [of i "Suc i"] by simp
      moreover have "after_key (Some a) = butlast a @ [ALPH ! Suc i]"
        using False F i by (simp add: after_key_def ALPH_length nat_add_distrib)
      ultimately show ?thesis using butlast_less [OF False] by simp
    qed
  qed
qed (simp add: after_key_def)

lemma fold_max_start: "y \<le> fold max xs (y :: string)"
  by (induction xs arbitrary: y) (auto intro: order_trans [OF max.cobounded2])

lemma fold_max_upper: "x \<in> set xs \<Longrightarrow> x \<le> fold max xs (y :: string)"
proof (induction xs arbitrary: y)
  case (Cons z xs)
  then show ?case using fold_max_start [of "max z y" xs] by (cases "x = z") auto
qed simp

lemma last_order_key_upper:
  assumes "get_last_order_key st cid = Inr k" "membership_edges st cid = Inr es" "e \<in> set es" "truthy (eprop e ''order_key'')"
  shows "\<exists>m. k = Some m \<and> as_text (eprop e ''order_key'') \<le> m"
proof -
  define keys where "keys = map as_text (filter truthy (map (\<lambda>e. eprop e ''order_key'') es))"
  have "as_text (eprop e ''order_key'') \<in> set keys" using assms(3,4) by (simp add: keys_def)
  moreover from this obtain h t where "keys = h # t" by (cases keys) auto
  moreover from assms(1,2) have "k = (if keys = [] then None else Some (fold max (tl keys) (hd keys)))"
    unfolding get_last_order_key_def keys_def by (simp add: Let_def split: if_splits)
  ultimately show ?thesis using fold_max_upper fold_max_start by auto
qed

section \<open>One edge write\<close>

definition edges_filed :: "hashlib \<Rightarrow> lattice \<Rightarrow> bool" where
  "edges_filed H st = (distinct (map fst (edges st))
     \<and> list_all (\<lambda>(key, r). key = edge_key H (e_src r) (e_dst r) (e_label r)) (edges st))"

lemma filed_lookup: "edges_filed H st \<Longrightarrow> r \<in> snd ` set (edges st) \<Longrightarrow>
    map_of (edges st) (edge_key H (e_src r) (e_dst r) (e_label r)) = Some r"
  by (auto simp: edges_filed_def list_all_iff intro!: map_of_is_SomeI)

text \<open>The row an accepted edge write leaves.\<close>

definition written_row :: "hashlib \<Rightarrow> string \<Rightarrow> string \<Rightarrow> string \<Rightarrow> doc \<Rightarrow> erow option \<Rightarrow> int \<Rightarrow> lattice \<Rightarrow> erow" where
  "written_row H s d l props old n st =
     \<lparr> e_src = (case old of None \<Rightarrow> s | Some r \<Rightarrow> e_src r), e_dst = (case old of None \<Rightarrow> d | Some r \<Rightarrow> e_dst r),
       e_label = (case old of None \<Rightarrow> l | Some r \<Rightarrow> e_label r), e_force = dget props ''force'',
       e_propagate = dget props ''propagate'', e_is_origin = norm_is_origin (dget props ''is_origin''),
       e_order_key = dget props ''order_key'', e_origin = st_origin st, e_seq = n,
       e_leaf = leaf_of H (hex_text (edge_key H s d l)) (st_leaves st), e_props = edge_blob props \<rparr>"

lemma fault_fields [simp]:
  "edge_fault (bump m x st) = edge_fault st" "edge_fault (vacate o' st) = edge_fault st" "edge_fault (xor_leaf l v st) = edge_fault st"
  by (simp_all add: bump_def vacate_def xor_leaf_def)

lemma add_edge_effect:
  assumes "text_props props" "s \<noteq> []" "d \<noteq> []" "l \<noteq> []"
  obtains st' n where "add_edge H s d l props True st = (Inr (), st')"
    "edges st' = AList.update (edge_key H s d l) (written_row H s d l props (map_of (edges st) (edge_key H s d l)) n st) (edges st)"
    "vertices st' = vertices st" "edge_fault st' = edge_fault st"
proof -
  obtain n st1 where a: "st_allocate st = (n, st1)" by fastforce
  then have st1: "edges st1 = edges st" "vertices st1 = vertices st" "st_leaves st1 = st_leaves st" "st_origin st1 = st_origin st"
    "edge_fault st1 = edge_fault st" by (auto simp: st_allocate_def Let_def)
  have b: "bind_text (dget props k) = Inr (dget props k)" if "k \<in> {''force'', ''propagate'', ''order_key''}" for k
    using assms(1) that by (auto simp: text_props_def)
  obtain st2 where w: "write_edge H s d l props (st_origin st) n st1 = Inr st2"
    "edges st2 = AList.update (edge_key H s d l) (written_row H s d l props (map_of (edges st) (edge_key H s d l)) n st) (edges st)"
    "vertices st2 = vertices st" "edge_fault st2 = edge_fault st"
    by (auto simp: write_edge_def Let_def b written_row_def st1 split: option.splits)
  have "add_edge H s d l props True st = (Inr (), st2)"
    using a w(1) assms(2-4)
    by (simp add: add_edge_def add_edges_def chunks.simps add_chunk_def add_one_def)
  with w(2-4) show thesis by (intro that)
qed

lemma membership_InrD:
  "membership_edges st cid = Inr es \<Longrightarrow> set es = {r \<in> snd ` set (edges st). e_src r = cid}"
  by (force simp: membership_edges_def set_matching_edges edge_match_def dest!: edges_of_InrD)

lemma find_membership_Some:
  assumes "find_membership st cid rid = Inr (Some e)"
  shows "e \<in> snd ` set (edges st)" "e_src e = cid" "e_dst e = rid"
proof -
  from assms obtain es where es: "membership_edges st cid = Inr es" "find_first (\<lambda>e. e_dst e = rid) es = Some e"
    by (auto simp: find_membership_def rbind_eq_Inr)
  with find_first_Some [OF es(2)] membership_InrD [OF es(1)] show "e \<in> snd ` set (edges st)" "e_src e = cid" "e_dst e = rid"
    by auto
qed

text \<open>An edge whose columns hold what the binding stores: text or null.\<close>

definition text_edge :: "erow \<Rightarrow> bool" where
  "text_edge e = (list_all (\<lambda>k. bind_text (e_col e k) = Inr (e_col e k)) [''force'', ''propagate'', ''order_key'']
     \<and> list_all (\<lambda>k. dget (e_props e) k = PNone) PROMOTED)"

lemma eprop_promoted: "text_edge e \<Longrightarrow> k \<in> set PROMOTED \<Longrightarrow> eprop e k = e_col e k"
  by (auto simp: eprop_def text_edge_def list_all_iff)

lemma set_order_effect:
  assumes filed: "edges_filed H st" and found: "find_membership st cid rid = Inr (Some e)"
    and ne: "cid \<noteq> []" "rid \<noteq> []" "e_label e \<noteq> []" and te: "text_edge e"
  obtains st' row where "set_edge_order_key H cid rid k st = Inr (True, st')"
    "edges st' = AList.update (edge_key H cid rid (e_label e)) row (edges st)"
    "map_of (edges st) (edge_key H cid rid (e_label e)) = Some e" "edge_fault st' = edge_fault st"
    "e_src row = cid" "e_dst row = rid" "e_label row = e_label e" "e_order_key row = PStr k"
    "e_propagate row = e_propagate e" "e_is_origin row = norm_is_origin (e_is_origin e)" "e_force row = PNone"
proof -
  define props where "props = dmerge (e_props e) [(''order_key'', PStr k), (''is_origin'', eprop e ''is_origin''), (''propagate'', eprop e ''propagate'')]"
  note f = find_membership_Some [OF found]
  have g: "dget props ''order_key'' = PStr k" "dget props ''is_origin'' = e_is_origin e" "dget props ''propagate'' = e_propagate e"
    "dget props ''force'' = PNone"
    using te eprop_promoted [OF te]
    by (simp_all add: props_def dget_dmerge dget_Cons PROMOTED_def e_col_def text_edge_def)
  have "text_props props" using te by (simp add: text_props_def g text_edge_def e_col_def)
  then obtain st' n where st': "add_edge H cid rid (e_label e) props True st = (Inr (), st')"
    "edges st' = AList.update (edge_key H cid rid (e_label e))
       (written_row H cid rid (e_label e) props (map_of (edges st) (edge_key H cid rid (e_label e))) n st) (edges st)"
    "edge_fault st' = edge_fault st"
    by (rule add_edge_effect [OF _ ne])
  have old: "map_of (edges st) (edge_key H cid rid (e_label e)) = Some e" using filed_lookup [OF filed f(1)] f(2,3) by simp
  have "set_edge_order_key H cid rid k st = Inr (True, st')"
    using found st'(1) by (simp add: set_edge_order_key_def props_def)
  then show thesis
    using st'(2,3) old f(2,3) g
    by (intro that [of st' "written_row H cid rid (e_label e) props (Some e) n st"]) (simp_all add: written_row_def)
qed

section \<open>Rewriting an edge in place\<close>

text \<open>An update at an existing key keeps every row where it was, so the reads that go by edge key see the
  same sequence with one row replaced.\<close>

definition replace_row :: "string \<Rightarrow> erow \<Rightarrow> string \<times> erow \<Rightarrow> string \<times> erow" where
  "replace_row k row p = (if fst p = k then (k, row) else p)"

lemma fst_replace [simp]: "fst (replace_row k row p) = fst p"
  by (simp add: replace_row_def)

lemma update_replace: "distinct (map fst al) \<Longrightarrow> map_of al k = Some r \<Longrightarrow> AList.update k row al = map (replace_row k row) al"
proof (induction al)
  case (Cons p al)
  obtain k' x where p: "p = (k', x)" by (cases p)
  show ?case
  proof (cases "k' = k")
    case True
    with Cons.prems have "map (replace_row k row) al = al"
      by (intro map_idI) (auto simp: p replace_row_def)
    moreover have "replace_row k row p = (k, row)" using True by (simp add: p replace_row_def)
    ultimately show ?thesis using True by (simp add: p)
  qed (use Cons in \<open>simp add: p replace_row_def\<close>)
qed simp

lemma insort_replace: "insort_key fst (replace_row k row p) (map (replace_row k row) xs) = map (replace_row k row) (insort_key fst p xs)"
  by (induction xs) simp_all

lemma sort_replace: "sort_key fst (map (replace_row k row) xs) = map (replace_row k row) (sort_key fst xs)"
  by (induction xs) (simp_all add: insort_replace)

definition same_place :: "erow \<Rightarrow> erow \<Rightarrow> bool" where
  "same_place e row = (e_src row = e_src e \<and> e_dst row = e_dst e \<and> e_label row = e_label e)"

lemma find_first_map: "find_first P (map f xs) = map_option f (find_first (P \<circ> f) xs)"
  by (induction xs) auto

lemma find_membership_replace:
  assumes filed: "edges_filed H st" and old: "map_of (edges st) k = Some e" and same: "same_place e row"
    and st': "edges st' = AList.update k row (edges st)" "edge_fault st' = edge_fault st"
  shows "find_membership st' cid rid = rbind (find_membership st cid rid) (\<lambda>m. Inr (map_option (\<lambda>x. if x = e then row else x) m))"
proof -
  define g where "g = (\<lambda>x. if x = e then row else x)"
  define ps where "ps = sort_key fst (filter (\<lambda>(_, r). edge_match cid None Out r) (edges st))"
  have d: "distinct (map fst (edges st))" using filed by (simp add: edges_filed_def)
  have ke: "(k, e) \<in> set (edges st)" using old by (rule map_of_SomeD)
  have r: "snd (replace_row k row p) = g (snd p)" if "p \<in> set (edges st)" for p
  proof -
    have key: "a = edge_key H (e_src x) (e_dst x) (e_label x)" if "(a, x) \<in> set (edges st)" for a x
      using filed that unfolding edges_filed_def list_all_iff by blast
    obtain a x where p: "p = (a, x)" by (cases p)
    have "a = k \<longleftrightarrow> x = e"
      using key [of a x] key [OF ke] eq_key_imp_eq_value [OF d, of a x e] that ke unfolding p by blast
    with p have "fst p = k \<longleftrightarrow> snd p = e" by simp
    then show ?thesis by (simp add: replace_row_def g_def)
  qed
  have m: "edge_match cid None Out (g x) = edge_match cid None Out x" "e_dst (g x) = e_dst x" for x
    using same by (simp_all add: g_def edge_match_def same_place_def)
  have "filter (\<lambda>(_, r). edge_match cid None Out r) (map (replace_row k row) (edges st))
      = map (replace_row k row) (filter (\<lambda>(_, r). edge_match cid None Out r) (edges st))"
    unfolding filter_map comp_def case_prod_beta'
    by (rule arg_cong [where f = "map _"], rule filter_cong) (simp_all add: r m)
  then have me: "matching_edges st cid None Out = map snd ps" "matching_edges st' cid None Out = map g (map snd ps)"
    using r by (auto simp: matching_edges_def ps_def st' update_replace [OF d old] sort_replace)
  have "find_first (\<lambda>e. e_dst e = rid) (map g (map snd ps)) = map_option g (find_first (\<lambda>e. e_dst e = rid) (map snd ps))"
    unfolding find_first_map [of _ g] comp_def m by simp
  then show ?thesis
    using st'(2) by (simp add: find_membership_def membership_edges_def edges_of_cases me rbind_def g_def)
qed

lemma replace_filed:
  assumes "edges_filed H st" "map_of (edges st) k = Some e" "same_place e row" "edges st' = AList.update k row (edges st)"
  shows "edges_filed H st'"
proof -
  have "(k, e) \<in> set (edges st)" using assms(2) by (rule map_of_SomeD)
  then show ?thesis
    using assms by (auto simp: edges_filed_def list_all_iff same_place_def dest!: set_update_cases)
qed

lemma after_keys_increase: "sorted_wrt (<) (map (\<lambda>i. ((\<lambda>k. after_key (Some k)) ^^ i) x) [0..<n])"
proof -
  have "((\<lambda>k. after_key (Some k)) ^^ i) x < ((\<lambda>k. after_key (Some k)) ^^ j) x" if "i < j" for i j
    using that by (induction j) (auto simp: less_Suc_eq intro: after_key_less less_trans)
  then show ?thesis by (simp add: sorted_wrt_iff_nth_less)
qed

text \<open>The members a reorder can move: one readable edge each, with columns as the store binds them.\<close>

definition movable :: "lattice \<Rightarrow> string \<Rightarrow> string \<Rightarrow> bool" where
  "movable st cid rid = (rid \<noteq> [] \<and> (case find_membership st cid rid of
     Inr (Some e) \<Rightarrow> text_edge e \<and> e_label e \<noteq> [] | _ \<Rightarrow> False))"

definition next_keys :: "string \<Rightarrow> nat \<Rightarrow> string list" where
  "next_keys k n = map (\<lambda>i. ((\<lambda>k. after_key (Some k)) ^^ i) k) [0..<n]"

lemma next_keys_Suc: "next_keys k (Suc n) = k # next_keys (after_key (Some k)) n"
  unfolding next_keys_def upt_conv_Cons [OF zero_less_Suc] list.map
  using funpow_swap1 [of "\<lambda>k. after_key (Some k)"] by (simp add: map_Suc_upt [symmetric] comp_def del: upt_Suc)

lemma next_keys_sorted: "sorted_wrt (<) (next_keys k n)"
  unfolding next_keys_def by (rule after_keys_increase)

definition has_order :: "lattice \<Rightarrow> string \<Rightarrow> string \<Rightarrow> string \<Rightarrow> bool" where
  "has_order st cid rid k = (case find_membership st cid rid of
     Inr (Some e) \<Rightarrow> e_order_key e = PStr k | _ \<Rightarrow> False)"

lemma reorder_loop_effect:
  "edges_filed H st \<Longrightarrow> cid \<noteq> [] \<Longrightarrow> distinct rids \<Longrightarrow> list_all (movable st cid) rids \<Longrightarrow>
   \<exists>st'. reorder_loop H cid rids prev u st = Inr (u + length rids, st')
     \<and> list_all2 (has_order st' cid) rids (next_keys (after_key prev) (length rids))
     \<and> (\<forall>r. r \<in> set rids \<or> find_membership st' cid r = find_membership st cid r)"
proof (induction rids arbitrary: prev u st)
  case Nil
  then show ?case by (simp add: next_keys_def)
next
  case (Cons rid rids)
  from Cons.prems(4) obtain e where e: "find_membership st cid rid = Inr (Some e)" "text_edge e" "e_label e \<noteq> []" "rid \<noteq> []"
    by (auto simp: movable_def split: sum.splits option.splits)
  obtain st1 row where st1: "set_edge_order_key H cid rid (after_key prev) st = Inr (True, st1)"
    "edges st1 = AList.update (edge_key H cid rid (e_label e)) row (edges st)"
    "map_of (edges st) (edge_key H cid rid (e_label e)) = Some e" "edge_fault st1 = edge_fault st"
    "e_src row = cid" "e_dst row = rid" "e_label row = e_label e" "e_order_key row = PStr (after_key prev)"
    by (rule set_order_effect [OF Cons.prems(1) e(1) Cons.prems(2) e(4,3,2)])
  have sp: "same_place e row" using find_membership_Some [OF e(1)] st1(5-7) by (simp add: same_place_def)
  note fm = find_membership_replace [OF Cons.prems(1) st1(3) sp st1(2,4)]
  have other: "find_membership st1 cid r = find_membership st cid r" if "r \<noteq> rid" for r
    unfolding fm using that find_membership_Some(3) [of st cid r] find_membership_Some(3) [OF e(1)]
    by (cases "find_membership st cid r") (auto split: option.splits intro!: option.map_ident_strong)
  have self: "find_membership st1 cid rid = Inr (Some row)" unfolding fm e(1) by simp
  have "list_all (movable st1 cid) rids"
    using Cons.prems(3,4) other unfolding list_all_iff movable_def by (metis distinct.simps(2) list.set_intros(2))
  with Cons.IH [OF replace_filed [OF Cons.prems(1) st1(3) sp st1(2)] Cons.prems(2)] Cons.prems(3)
  obtain st' where st': "reorder_loop H cid rids (Some (after_key prev)) (Suc u) st1 = Inr (Suc u + length rids, st')"
    "list_all2 (has_order st' cid) rids (next_keys (after_key (Some (after_key prev))) (length rids))"
    "\<forall>r. r \<in> set rids \<or> find_membership st' cid r = find_membership st1 cid r" by fastforce
  have "has_order st' cid rid (after_key prev)"
    using st'(3) Cons.prems(3) self st1(8) by (auto simp: has_order_def)
  moreover have "\<forall>r. r \<in> set (rid # rids) \<or> find_membership st' cid r = find_membership st cid r"
    using st'(3) other by auto
  ultimately show ?case using st1(1) st'(1,2) by (simp add: next_keys_Suc)
qed

section \<open>Correctness\<close>

text \<open>An order key is always followed: \<open>after_key\<close> returns a key strictly greater than the one it is
  given, in the code-point order the store sorts by, for every text. So the keys a reorder assigns
  along a sequence increase strictly, and the key an append computes is above every key in use.\<close>

theorem after_key_increases: "a < after_key (Some a) \<and> [] < after_key None"
  using after_key_less [of a] by (simp add: after_key_def)

text \<open>\<open>mid_key\<close> does not return a key between its arguments: before the first key an append ever
  assigns, and between a key and its extension, it returns a key above both.\<close>

theorem mid_key_not_between:
  "''U'' < mid_key None (Some ''U'') \<and> ''A1'' < mid_key (Some ''A'') (Some ''A1'') \<and> ''A'' < ''A1''"
  by (simp add: mid_key_def mid_loop.simps alph_find_def ALPH_def)

text \<open>(C30) A reorder arranges the members in the requested sequence: on a list of distinct members it updates
  one edge for each, and afterwards the order keys of their edges, read in that sequence, increase
  strictly; no other member's edge changes.\<close>

theorem reorder_arranges:
  assumes "edges_filed H st" "cid \<noteq> []" "distinct rids" "list_all (movable st cid) rids"
  shows "\<exists>st' ks. reorder_collection_artifacts H cid rids st = Inr (length rids, st')
    \<and> list_all2 (has_order st' cid) rids ks \<and> sorted_wrt (<) ks
    \<and> (\<forall>r. r \<in> set rids \<or> find_membership st' cid r = find_membership st cid r)"
  using reorder_loop_effect [OF assms, of None 0] next_keys_sorted
  unfolding reorder_collection_artifacts_def by fastforce

definition sample_box :: "pyval \<Rightarrow> lattice" where
  "sample_box force = (empty_lattice ''o'' 4)\<lparr> edges :=
     map (\<lambda>d. (edge_key sample_H ''box'' d ''contains'',
            (sample_edge ''box'' d PNone)\<lparr> e_order_key := PStr ''U'', e_force := force \<rparr>)) [''x'', ''y''] \<rparr>"

lemma sample_box_ok:
  assumes "force = PNone \<or> (\<exists>s. force = PStr s)"
  shows "edges_filed sample_H (sample_box force)" "list_all (movable (sample_box force) ''box'') [''y'', ''x'']"
    "d \<in> {''x'', ''y''} \<Longrightarrow> find_membership (sample_box force) ''box'' d
       = Inr (Some ((sample_edge ''box'' d PNone)\<lparr> e_order_key := PStr ''U'', e_force := force \<rparr>))"
proof -
  have key: "edge_key sample_H ''box'' d ''contains'' = ''box'' @ [NUL] @ d @ [NUL] @ ''contains''" if "d \<in> {''x'', ''y''}" for d
    using that by (auto simp: edge_key_def sample_H_def utf8_def utf8_char_def NUL_def)
  have me: "matching_edges (sample_box force) ''box'' None Out
      = map (\<lambda>d. (sample_edge ''box'' d PNone)\<lparr> e_order_key := PStr ''U'', e_force := force \<rparr>) [''x'', ''y'']"
    by (simp add: matching_edges_def sample_box_def edge_match_def sample_edge_def empty_lattice_def key)
  show find: "d \<in> {''x'', ''y''} \<Longrightarrow> find_membership (sample_box force) ''box'' d
      = Inr (Some ((sample_edge ''box'' d PNone)\<lparr> e_order_key := PStr ''U'', e_force := force \<rparr>))" for d
    by (auto simp: find_membership_def membership_edges_def edges_of_cases me)
      (auto simp: sample_box_def empty_lattice_def sample_edge_def)
  show "edges_filed sample_H (sample_box force)"
    by (simp add: edges_filed_def sample_box_def key) (simp add: sample_edge_def key)
  show "list_all (movable (sample_box force) ''box'') [''y'', ''x'']"
    using assms by (auto simp: movable_def find text_edge_def sample_edge_def e_col_def PROMOTED_def dget_Cons)
qed

theorem reorder_arranges_witness:
  "\<exists>st' k1 k2. reorder_collection_artifacts sample_H ''box'' [''y'', ''x''] (sample_box PNone) = Inr (2, st')
     \<and> has_order st' ''box'' ''y'' k1 \<and> has_order st' ''box'' ''x'' k2 \<and> k1 < k2"
proof -
  have ok: "edges_filed sample_H (sample_box PNone)" "list_all (movable (sample_box PNone) ''box'') [''y'', ''x'']"
    using sample_box_ok(1,2) [of PNone] by blast+
  obtain st' ks where r: "reorder_collection_artifacts sample_H ''box'' [''y'', ''x''] (sample_box PNone) = Inr (length [''y'', ''x''], st')"
    "list_all2 (has_order st' ''box'') [''y'', ''x''] ks" "sorted_wrt (<) ks"
    using reorder_arranges [OF ok(1) _ _ ok(2)] by fastforce
  from r(2) obtain k1 k2 where "ks = [k1, k2]" by (auto simp: list_all2_Cons1)
  with r show ?thesis by auto
qed

text \<open>Moving a member loses its \<open>force\<close>: rewriting an edge with a new order key keeps its label, its
  propagate mask and its origin mark, but writes a null \<open>force\<close> column, whatever the edge held.\<close>

theorem reorder_drops_force:
  assumes "edges_filed H st" "find_membership st cid rid = Inr (Some e)" "cid \<noteq> []" "rid \<noteq> []" "e_label e \<noteq> []" "text_edge e"
  shows "\<exists>st' row. set_edge_order_key H cid rid k st = Inr (True, st')
    \<and> map_of (edges st') (edge_key H cid rid (e_label e)) = Some row
    \<and> e_order_key row = PStr k \<and> e_label row = e_label e \<and> e_propagate row = e_propagate e
    \<and> truthy (e_is_origin row) = truthy (e_is_origin e) \<and> e_force row = PNone"
proof -
  obtain st' row where "set_edge_order_key H cid rid k st = Inr (True, st')"
    "edges st' = AList.update (edge_key H cid rid (e_label e)) row (edges st)"
    "e_label row = e_label e" "e_order_key row = PStr k" "e_propagate row = e_propagate e"
    "e_is_origin row = norm_is_origin (e_is_origin e)" "e_force row = PNone"
    by (rule set_order_effect [OF assms])
  then show ?thesis by (auto simp: norm_is_origin_def)
qed

theorem reorder_drops_force_witness:
  "\<exists>st' row. set_edge_order_key sample_H ''box'' ''x'' ''V'' (sample_box (PStr ''f'')) = Inr (True, st')
     \<and> map_of (edges (st' :: lattice)) (edge_key sample_H ''box'' ''x'' ''contains'') = Some row \<and> e_force row = PNone"
proof -
  let ?e = "(sample_edge ''box'' ''x'' PNone)\<lparr> e_order_key := PStr ''U'', e_force := PStr ''f'' \<rparr>"
  have "find_membership (sample_box (PStr ''f'')) ''box'' ''x'' = Inr (Some ?e)" using sample_box_ok(3) by blast
  moreover have "edges_filed sample_H (sample_box (PStr ''f''))" using sample_box_ok(1) by blast
  moreover have "e_label ?e = ''contains''" "text_edge ?e"
    by (simp_all add: sample_edge_def text_edge_def e_col_def PROMOTED_def dget_Cons)
  ultimately show ?thesis using reorder_drops_force [of sample_H "sample_box (PStr ''f'')" "''box''" "''x''" ?e "''V''"] by auto
qed

lemma stored_label_nonempty: "stored_label K rel \<noteq> []"
  by (auto simp: stored_label_def CONTAINS_def label_token_def keyed_token_def TOKEN_PREFIX_def split: option.splits)

lemma label_props_keys: "k \<in> set PROMOTED \<Longrightarrow> dget (label_props K rel) k = PNone"
  by (auto simp: label_props_def PROMOTED_def dget_Cons Let_def split: option.splits)

text \<open>An append goes last: adding a root without an order key writes its edge with a key strictly above
  every key in use in the collection, with the requested propagate mask and origin mark, and leaves
  every vertex alone.\<close>

theorem append_goes_last:
  assumes "membership_edges st cid = Inr es" "cid \<noteq> []" "rid \<noteq> []" "propagate = PNone \<or> (\<exists>vs. propagate = PList vs)"
  shows "\<exists>st' row key. add_artifact_to_collection H K cid rid None origin propagate rel st = Inr (True, st')
    \<and> map_of (edges st') (edge_key H cid rid (stored_label K rel)) = Some row
    \<and> e_order_key row = PStr key \<and> list_all (\<lambda>e. truthy (eprop e ''order_key'') \<longrightarrow> as_text (eprop e ''order_key'') < key) es
    \<and> e_is_origin row = PInt (of_bool origin) \<and> e_propagate row = ser_propagate propagate \<and> vertices st' = vertices st"
proof -
  obtain k where k: "get_last_order_key st cid = Inr k" using assms(1) by (simp add: get_last_order_key_def Let_def)
  define key where "key = after_key k"
  define props where "props = [(''order_key'', PStr key), (''is_origin'', PBool origin), (''propagate'', ser_propagate propagate),
      (''root_id'', PStr rid)] @ label_props K rel"
  have g: "dget props ''order_key'' = PStr key" "dget props ''is_origin'' = PBool origin" "dget props ''propagate'' = ser_propagate propagate"
    "dget props ''force'' = PNone"
    using label_props_keys [of "''force''" K rel] by (simp_all add: props_def dget_Cons PROMOTED_def)
  have "text_props props" using assms(4) by (auto simp: text_props_def g ser_propagate_def)
  then obtain st' n where st': "add_edge H cid rid (stored_label K rel) props True st = (Inr (), st')"
    "edges st' = AList.update (edge_key H cid rid (stored_label K rel))
       (written_row H cid rid (stored_label K rel) props (map_of (edges st) (edge_key H cid rid (stored_label K rel))) n st) (edges st)"
    "vertices st' = vertices st"
    by (rule add_edge_effect [OF _ assms(2,3) stored_label_nonempty])
  have "as_text (eprop e ''order_key'') < key" if "e \<in> set es" "truthy (eprop e ''order_key'')" for e
    using last_order_key_upper [OF k assms(1) that] after_key_less by (fastforce simp: key_def intro: le_less_trans)
  moreover have "add_artifact_to_collection H K cid rid None origin propagate rel st = Inr (True, st')"
    using st'(1) by (simp add: add_artifact_to_collection_def k key_def [symmetric] props_def)
  ultimately show ?thesis
    using st'(2,3) by (auto simp: list_all_iff written_row_def g norm_is_origin_def)
qed

theorem append_goes_last_witness:
  "\<exists>st' row key. add_artifact_to_collection sample_H sample_key ''box'' ''new'' None True PNone None (sample_box PNone) = Inr (True, st')
     \<and> map_of (edges (st' :: lattice)) (edge_key sample_H ''box'' ''new'' ''contains'') = Some row \<and> e_order_key row = PStr key"
proof -
  have "membership_edges (sample_box PNone) ''box'' = Inr (matching_edges (sample_box PNone) ''box'' None Out)"
    using sample_box_ok(3) [of PNone "''x''"]
    by (auto simp: find_membership_def membership_edges_def edges_of_cases rbind_def split: if_splits)
  from append_goes_last [OF this, of "''new''" PNone sample_H sample_key True None] show ?thesis
    by (auto simp: stored_label_def CONTAINS_def)
qed

text \<open>A refused membership is reported as done: with an empty root id the edge write raises inside its
  savepoint, the exception is absorbed by the batch, and \<open>add_artifact_to_collection\<close> returns true with
  the store unchanged.\<close>

theorem refused_membership_reported:
  "add_artifact_to_collection H K cid [] (Some key) origin propagate rel st = Inr (True, st)"
  by (simp add: add_artifact_to_collection_def add_edge_def add_edges_def chunks.simps add_chunk_def add_one_def)

lemma map_filter_versions:
  assumes "f [] = None"
  shows "List.map_filter (\<lambda>(rid, docs). map_option (Pair rid) (f docs)) (versions_of_many st ids)
    = List.map_filter (\<lambda>rid. map_option (Pair rid) (f (versions_of st rid))) (clean_ids ids)"
proof -
  have "List.map_filter (\<lambda>(rid, docs). map_option (Pair rid) (f docs)) (filter (\<lambda>(_, ds). ds \<noteq> []) (map (\<lambda>rid. (rid, versions_of st rid)) xs))
      = List.map_filter (\<lambda>rid. map_option (Pair rid) (f (versions_of st rid))) xs" for xs
    using assms by (induction xs) (auto simp: List.map_filter_simps split: option.splits)
  then show ?thesis by (simp add: versions_of_many_eq)
qed

lemma current_in_any_Nil: "current_in_any [] cids = None"
  by (induction cids) (simp_all add: current_in_def)

text \<open>The plural lineage readers are the singular ones: over a page of roots
  \<open>get_current_in_collection_many\<close> and \<open>get_current_in_any_collection_many\<close> return, for each distinct
  non-empty root in the caller's order, exactly what the one-root readers return for it, and nothing
  for a root that has none.\<close>

theorem plural_lineage_agrees:
  "get_current_in_collection_many st cid ids
     = List.map_filter (\<lambda>rid. map_option (Pair rid) (get_current_in_collection st cid rid)) (clean_ids ids)
   \<and> get_current_in_any_collection_many st ids cids
     = List.map_filter (\<lambda>rid. map_option (Pair rid) (get_current_in_any_collection st rid cids)) (clean_ids ids)"
proof
  show "get_current_in_collection_many st cid ids
      = List.map_filter (\<lambda>rid. map_option (Pair rid) (get_current_in_collection st cid rid)) (clean_ids ids)"
    unfolding get_current_in_collection_many_def get_current_in_collection_def
    by (rule map_filter_versions) (simp add: current_in_def)
  have any: "get_current_in_any_collection st rid cids = (if cids = [] then None else current_in_any (versions_of st rid) cids)" for rid
    by (simp add: get_current_in_any_collection_def Let_def current_in_any_Nil)
  have none: "List.map_filter (\<lambda>rid. None) xs = []" for xs :: "string list" by (induction xs) (simp_all add: List.map_filter_simps)
  show "get_current_in_any_collection_many st ids cids
      = List.map_filter (\<lambda>rid. map_option (Pair rid) (get_current_in_any_collection st rid cids)) (clean_ids ids)"
  proof (cases "cids = []")
    case True
    then show ?thesis by (simp add: get_current_in_any_collection_many_def get_current_in_any_collection_def Let_def none)
  next
    case False
    then show ?thesis
      using map_filter_versions [of "\<lambda>docs. current_in_any docs cids" st ids]
      by (simp add: get_current_in_any_collection_many_def any current_in_any_Nil)
  qed
qed

text \<open>A link's name survives its sealing: an edge whose label and props are the stored form of a name a
  person gave shows that name, a system label shows itself, and containment shows none.\<close>

theorem label_roundtrip:
  assumes "fernet_law K" "e_label e = stored_label K (Some r)"
    and "e_props e = [(''root_id'', PStr root)] @ label_props K (Some r)"
  shows "shown_label K e = (if r = [] \<or> r = CONTAINS then None else Some r)"
proof (cases "r = [] \<or> r \<in> set SYSTEM_LABELS")
  case True
  then show ?thesis
    using assms(2) by (auto simp: shown_label_def stored_label_def SYSTEM_LABELS_def CONTAINS_def is_token_def TOKEN_PREFIX_def)
next
  case False
  then have lab: "e_label e = label_token K r" "r \<noteq> CONTAINS" using assms(2) by (auto simp: stored_label_def SYSTEM_LABELS_def)
  have tok: "is_token (e_label e)" "e_label e \<noteq> CONTAINS"
    by (simp_all add: lab is_token_def label_token_def keyed_token_def TOKEN_PREFIX_def CONTAINS_def)
  have "eprop e ''label_sealed'' = PStr (seal_value K r)"
    using False assms(3) by (simp add: eprop_def e_col_def label_props_def dget_Cons Let_def)
  moreover have "seal_value K r \<noteq> []" using assms(1) by (simp add: seal_value_def fernet_law_def)
  ultimately show ?thesis
    using False tok lab(2) open_seal_value [OF assms(1)] by (simp add: shown_label_def)
qed

theorem label_roundtrip_witness:
  "shown_label sample_key ((sample_edge ''a'' ''b'' PNone)\<lparr> e_label := stored_label sample_key (Some ''step1.out''),
     e_props := [(''root_id'', PStr ''b'')] @ label_props sample_key (Some ''step1.out'') \<rparr>) = Some ''step1.out''"
  using label_roundtrip [OF sample_fernet, of "(sample_edge ''a'' ''b'' PNone)\<lparr> e_label := stored_label sample_key (Some ''step1.out''),
     e_props := [(''root_id'', PStr ''b'')] @ label_props sample_key (Some ''step1.out'') \<rparr>" "''step1.out''" "''b''"]
  by (simp add: CONTAINS_def)

end
