(* ===== verification/Access.thy ===== *)
theory Access
  imports Ledger Origin_Walk
begin

text \<open>
  The access decision of \<open>db/access.py\<close>: which collections a grant gates, the read light cone of a
  principal as collection ids, publicity (born public and made public), the read decision, the closed
  invoke decision for actuation, the minting helpers and the one-time backfill of grants from the
  flag scheme.

  The Python code collects ids in sets; the model keeps lists and the theorems speak of their
  elements. The store is the bundle with a graph: the branch of \<open>_descendants\<close> for a store without one
  is not modelled. An id that the code passes through \<open>str\<close> is text.
\<close>

section \<open>Definitions\<close>

definition PUBLIC_PRINCIPAL :: string where "PUBLIC_PRINCIPAL = ''public''"

definition COLLECTION_CONTENT_TYPE :: string where
  "COLLECTION_CONTENT_TYPE = ''application/vnd.agience.collection+json''"

definition grant_mask :: "doc \<Rightarrow> mask" where
  "grant_mask d = from_flags (\<lambda>f. truthy (dget d f)) (norm_effect (as_text (py_or (dget d ''effect'') (PStr []))) = EFFECT_ALLOW)"

text \<open>One indexed statement: the collection rows with an origin containment edge from \<open>parent\<close>. A refused
  statement answers nothing.\<close>

definition collection_children :: "lattice \<Rightarrow> string \<Rightarrow> string list" where
  "collection_children st parent =
     (if edge_fault st parent then []
      else map fst (filter (\<lambda>(aid, r). v_ct r = Some COLLECTION_CONTENT_TYPE
             \<and> list_ex (\<lambda>(_, e). e_dst e = aid \<and> e_label e = CONTAINS \<and> e_is_origin e = PInt 1 \<and> e_src e = parent) (edges st))
           (vertices st)))"

definition child_visit :: "string \<Rightarrow> cone \<Rightarrow> cone" where
  "child_visit cid c =
     (case c of (seen, out, frontier) \<Rightarrow> if cid \<in> set seen then c else (cid # seen, out @ [cid], frontier @ [cid]))"

lemma fold_child_visit:
  "\<exists>new. fold child_visit cids (seen, out, frontier) = (rev new @ seen, out @ new, frontier @ new)
     \<and> distinct new \<and> set new = set cids - set seen"
proof (induction cids arbitrary: seen out frontier)
  case (Cons c cids)
  show ?case
  proof (cases "c \<in> set seen")
    case True
    with Cons [of seen out frontier] show ?thesis by (auto simp: child_visit_def insert_Diff_if)
  next
    case False
    from Cons [of "c # seen" "out @ [c]" "frontier @ [c]"] obtain new where
      new: "fold child_visit cids (c # seen, out @ [c], frontier @ [c]) = (rev new @ c # seen, (out @ [c]) @ new, (frontier @ [c]) @ new)"
      "distinct new" "set new = set cids - set (c # seen)" by blast
    have "set (c # new) = set (c # cids) - set seen" "distinct (c # new)" using new False by auto
    moreover from False have "child_visit c (seen, out, frontier) = (c # seen, out @ [c], frontier @ [c])" by (simp add: child_visit_def)
    ultimately show ?thesis using new(1) by (intro exI [of _ "c # new"]) simp
  qed
qed simp

lemma children_are_vertices: "set (collection_children st parent) \<subseteq> fst ` set (vertices st)"
  by (auto simp: collection_children_def)

text \<open>\<open>_descendants\<close>: a stack, popped at its end.\<close>

function descendants_loop :: "lattice \<Rightarrow> string list \<Rightarrow> string list \<Rightarrow> string list \<Rightarrow> string list" where
  "descendants_loop st frontier seen out =
     (if frontier = [] then out
      else
        (case fold child_visit (collection_children st (last frontier)) (seen, out, butlast frontier) of
           (seen', out', frontier') \<Rightarrow> descendants_loop st frontier' seen' out'))"
  by auto
termination
proof (relation "measure (\<lambda>(st, frontier, seen, out). 2 * card (fst ` set (vertices st) - set seen) + length frontier)")
  fix st :: lattice and frontier seen out :: "string list" and x seen' out' frontier'
  assume f: "frontier \<noteq> []"
    and c: "(seen', x) = fold child_visit (collection_children st (last frontier)) (seen, out, butlast frontier)"
      "(out', frontier') = x"
  obtain new where new: "seen' = rev new @ seen" "frontier' = butlast frontier @ new" "distinct new"
    "set new = set (collection_children st (last frontier)) - set seen"
    using fold_child_visit [of "collection_children st (last frontier)" seen out "butlast frontier"] c by auto
  define V where "V = fst ` set (vertices st) - set seen"
  have fin: "finite V" by (simp add: V_def)
  have sub: "set new \<subseteq> V" using new(4) children_are_vertices unfolding V_def by blast
  have "fst ` set (vertices st) - set seen' = V - set new" using new(1) by (auto simp: V_def)
  moreover have "card (V - set new) = card V - length new"
    using card_Diff_subset [OF _ sub] distinct_card [OF new(3)] by simp
  moreover have "length new \<le> card V" using card_mono [OF fin sub] distinct_card [OF new(3)] by simp
  ultimately have "card (fst ` set (vertices st) - set seen') + length new = card (fst ` set (vertices st) - set seen)"
    unfolding V_def by simp
  then show "((st, frontier', seen', out'), st, frontier, seen, out)
      \<in> measure (\<lambda>(st, frontier, seen, out). 2 * card (fst ` set (vertices st) - set seen) + length frontier)"
    using f new(2) by (cases frontier rule: rev_cases) auto
qed simp

declare descendants_loop.simps [simp del]

definition descendants :: "lattice \<Rightarrow> string \<Rightarrow> string list" where
  "descendants st rid = descendants_loop st [rid] [rid] []"

definition grounding_of :: "doc \<Rightarrow> string option" where
  "grounding_of art =
     (if art = [] then None
      else if truthy (dget art ''collection_id'') then Some (dtext art ''collection_id'')
      else if truthy (dget art ''origin_root'') then Some (dtext art ''origin_root'')
      else None)"

definition gated_collections :: "ambient \<Rightarrow> lattice \<Rightarrow> string list result" where
  "gated_collections amb st =
     rbind (grant_docs st (Some ''active'')) (\<lambda>ds.
       Inr (concat (map (\<lambda>d.
         if \<not> truthy (dget d ''resource_id'') \<or> \<not> carries (grant_mask d) ''read'' \<or> \<not> unexpired amb d then []
         else dtext d ''resource_id'' # descendants st (dtext d ''resource_id'')) ds)))"

definition reachable_collections :: "ambient \<Rightarrow> lattice \<Rightarrow> string \<Rightarrow> string list result" where
  "reachable_collections amb st who =
     (if who = [] then Inr []
      else rbind (get_active_collection_ids_for_user amb st who) (\<lambda>rids.
             Inr (concat (map (\<lambda>rid. rid # descendants st rid) rids))))"

definition set_default :: "string \<Rightarrow> string \<Rightarrow> (string \<times> string) list \<Rightarrow> (string \<times> string) list" where
  "set_default v k m = (case map_of m k of None \<Rightarrow> m @ [(k, v)] | Some _ \<Rightarrow> m)"

definition owner_pass :: "lattice \<Rightarrow> bool \<Rightarrow> doc \<Rightarrow> (string \<times> string) list \<Rightarrow> (string \<times> string) list" where
  "owner_pass st allow_pass d owners =
     (if \<not> truthy (dget d ''resource_id'') \<or> \<not> truthy (dget d ''grantee_id'') then owners
      else if \<not> carries (grant_mask d) ''read'' \<or> is_allow (grant_mask d) \<noteq> allow_pass then owners
      else if dtext d ''grantee_id'' = PUBLIC_PRINCIPAL then owners
      else fold (set_default (dtext d ''grantee_id''))
             (dtext d ''resource_id'' # descendants st (dtext d ''resource_id'')) owners)"

definition gated_owner_map :: "ambient \<Rightarrow> lattice \<Rightarrow> (string \<times> string) list result" where
  "gated_owner_map amb st =
     rbind (grant_docs st (Some ''active'')) (\<lambda>ds.
       (let docs = filter (unexpired amb) ds in
        Inr (fold (owner_pass st False) docs (fold (owner_pass st True) docs []))))"

definition in_reach :: "doc \<Rightarrow> string list \<Rightarrow> bool" where
  "in_reach art reach =
     ((case grounding_of art of None \<Rightarrow> False | Some g \<Rightarrow> g \<in> set reach)
      \<or> as_text (py_or (dget art ''id'') (PStr [])) \<in> set reach)"

definition is_made_public :: "ambient \<Rightarrow> lattice \<Rightarrow> doc \<Rightarrow> bool result" where
  "is_made_public amb st art =
     rbind (reachable_collections amb st PUBLIC_PRINCIPAL) (\<lambda>reach. Inr (in_reach art reach))"

definition is_public :: "ambient \<Rightarrow> lattice \<Rightarrow> doc \<Rightarrow> bool result" where
  "is_public amb st art =
     (case grounding_of art of
        None \<Rightarrow> Inr True
      | Some g \<Rightarrow> rbind (gated_collections amb st) (\<lambda>gated.
          if g \<notin> set gated then Inr True else is_made_public amb st art))"

definition can_read_doc :: "ambient \<Rightarrow> lattice \<Rightarrow> doc \<Rightarrow> string \<Rightarrow> bool result" where
  "can_read_doc amb st art who =
     (if art = [] then Inr False
      else rbind (is_public amb st art) (\<lambda>pub.
             if pub then Inr True
             else rbind (reachable_collections amb st who) (\<lambda>reach. Inr (in_reach art reach))))"

text \<open>The flag scheme, read by the backfill alone.\<close>

definition flagged :: "doc \<Rightarrow> bool" where
  "flagged x =
     (truthy (dget x ''no_share'')
      \<or> py_lower (py_strip (as_text (py_or (dget x ''visibility'') (PStr [])))) = ''private''
      \<or> py_lower (py_strip (as_text (py_or (dget x ''kind'') (PStr [])))) = ''private'')"

definition flag_private :: "doc \<Rightarrow> bool" where
  "flag_private d = (flagged d \<or> (case dget d ''context'' of PDict ctx \<Rightarrow> flagged ctx | _ \<Rightarrow> False))"

definition list_by_content_type :: "lattice \<Rightarrow> string \<Rightarrow> int \<Rightarrow> bool \<Rightarrow> doc list \<times> bool" where
  "list_by_content_type st content_type cap include_archived =
     (let cap = nat (max 0 cap);
          docs = take (Suc cap) (map (v_doc \<circ> snd) (rows_by_id st (\<lambda>r. v_ct r = Some content_type
                   \<and> (include_archived \<or> dget (v_doc r) ''state'' \<noteq> PStr STATE_ARCHIVED)))) in
      (take cap docs, length docs \<le> cap))"

definition grant_read ::
  "hashlib \<Rightarrow> ambient \<Rightarrow> node_key \<Rightarrow> string \<Rightarrow> string \<Rightarrow> string \<Rightarrow> lattice \<Rightarrow> lattice result" where
  "grant_read H amb K rid grantee by_id st =
     rbind (upsert_user_collection_grant H amb K grantee rid by_id (\<lambda>a. a = ''read'') None st) (\<lambda>(_, st'). Inr st')"

definition grant_invoke ::
  "hashlib \<Rightarrow> ambient \<Rightarrow> node_key \<Rightarrow> string \<Rightarrow> string \<Rightarrow> string \<Rightarrow> lattice \<Rightarrow> lattice result" where
  "grant_invoke H amb K rid grantee by_id st =
     rbind (upsert_user_collection_grant H amb K grantee rid by_id (\<lambda>a. a = ''invoke'') None st) (\<lambda>(_, st'). Inr st')"

definition mint_owner_read_grant ::
  "hashlib \<Rightarrow> ambient \<Rightarrow> node_key \<Rightarrow> string \<Rightarrow> string \<Rightarrow> lattice \<Rightarrow> lattice result" where
  "mint_owner_read_grant H amb K cid owner st = grant_read H amb K cid owner owner st"

text \<open>Each minted grant takes a fresh id, so the backfill is given one ambient per collection it mints
  for.\<close>

fun backfill_loop ::
  "hashlib \<Rightarrow> node_key \<Rightarrow> string list \<Rightarrow> doc list \<Rightarrow> ambient list \<Rightarrow> nat \<Rightarrow> lattice \<Rightarrow> (nat \<times> lattice) result" where
  "backfill_loop H K already [] ambs minted st = Inr (minted, st)"
| "backfill_loop H K already (c # cs) ambs minted st =
     (let ctx = (case dget c ''context'' of PDict ctx \<Rightarrow> ctx | _ \<Rightarrow> []);
          owner = py_or (dget c ''owner'') (dget ctx ''owner'') in
      if c = [] \<or> \<not> flag_private c \<or> \<not> truthy (dget c ''id'') \<or> \<not> truthy owner \<or> dtext c ''id'' \<in> set already
      then backfill_loop H K already cs ambs minted st
      else (case ambs of
              [] \<Rightarrow> Inl StoreFault
            | amb # ambs \<Rightarrow> rbind (mint_owner_read_grant H amb K (dtext c ''id'') (as_text owner) st) (\<lambda>st'.
                backfill_loop H K already cs ambs (Suc minted) st')))"

definition backfill_grants_from_flags ::
  "hashlib \<Rightarrow> ambient \<Rightarrow> ambient list \<Rightarrow> node_key \<Rightarrow> int \<Rightarrow> lattice \<Rightarrow> ((nat \<times> nat) \<times> lattice) result" where
  "backfill_grants_from_flags H amb ambs K cap st =
     rbind (gated_collections amb st) (\<lambda>already.
       (let cols = fst (list_by_content_type st COLLECTION_CONTENT_TYPE cap False) in
        rbind (backfill_loop H K already cols ambs 0 st) (\<lambda>(minted, st'). Inr ((minted, length cols), st'))))"

text \<open>Invoke, closed by default.\<close>

definition speaks_invoke :: "ambient \<Rightarrow> string \<Rightarrow> doc \<Rightarrow> bool" where
  "speaks_invoke amb who d =
     (dget d ''grantee_id'' = PStr who \<and> dget d ''grantee_type'' = PStr ''user''
      \<and> truthy (dget d ''resource_id'') \<and> unexpired amb d \<and> carries (grant_mask d) ''invoke'')"

definition invoke_sink :: "ambient \<Rightarrow> lattice \<Rightarrow> string \<Rightarrow> bool \<Rightarrow> doc list \<Rightarrow> string list" where
  "invoke_sink amb st who allow ds =
     concat (map (\<lambda>d. dtext d ''resource_id'' # descendants st (dtext d ''resource_id''))
       (filter (\<lambda>d. speaks_invoke amb who d \<and> is_allow (grant_mask d) = allow) ds))"

definition invokable_resources :: "ambient \<Rightarrow> lattice \<Rightarrow> string \<Rightarrow> string list result" where
  "invokable_resources amb st who =
     (if who = [] then Inr []
      else rbind (grant_docs st (Some ''active'')) (\<lambda>ds.
             Inr (filter (\<lambda>r. r \<notin> set (invoke_sink amb st who False ds)) (invoke_sink amb st who True ds))))"

definition may_invoke :: "ambient \<Rightarrow> lattice \<Rightarrow> string \<Rightarrow> string \<Rightarrow> bool result" where
  "may_invoke amb st rid who =
     (if who = [] \<or> rid = [] then Inr False
      else rbind (invokable_resources amb st who) (\<lambda>rs. Inr (rid \<in> set rs)))"

definition may_discharge :: "ambient \<Rightarrow> lattice \<Rightarrow> string \<Rightarrow> string \<Rightarrow> string option \<Rightarrow> bool result" where
  "may_discharge amb st who organon crystal_sha =
     rbind (invokable_resources amb st who) (\<lambda>reach.
       Inr (reach \<noteq> [] \<and> ((case crystal_sha of None \<Rightarrow> False | Some s \<Rightarrow> s \<in> set reach) \<or> organon \<in> set reach)))"

text \<open>Retrieval: without a store nothing is visible.\<close>

definition visible_to :: "ambient \<Rightarrow> lattice option \<Rightarrow> string \<Rightarrow> doc \<Rightarrow> bool result" where
  "visible_to amb store person art =
     (if art = [] then Inr False
      else (case store of None \<Rightarrow> Inr False | Some st \<Rightarrow> can_read_doc amb st art person))"

fun filter_visible :: "ambient \<Rightarrow> lattice option \<Rightarrow> string \<Rightarrow> doc list \<Rightarrow> doc list result" where
  "filter_visible amb store person [] = Inr []"
| "filter_visible amb store person (a # rows) =
     rbind (visible_to amb store person a) (\<lambda>v.
       rbind (filter_visible amb store person rows) (\<lambda>rest. Inr (if v then a # rest else rest)))"

section \<open>The collections a grant gates\<close>

definition child_rel :: "lattice \<Rightarrow> (string \<times> string) set" where
  "child_rel st = {(p, c). c \<in> set (collection_children st p)}"

abbreviation gated_by :: "lattice \<Rightarrow> string \<Rightarrow> string set" where
  "gated_by st rid \<equiv> (child_rel st)\<^sup>* `` {rid}"

lemma cone_inv_done:
  assumes "cone_inv R roots [] seen out"
  shows "distinct out \<and> set out = R\<^sup>* `` roots - roots"
proof -
  from assms have inv: "set seen = roots \<union> set out" "distinct out" "roots \<inter> set out = {}" "set seen \<subseteq> R\<^sup>* `` roots"
    "R `` set seen \<subseteq> set seen" unfolding cone_inv_def list.set Diff_empty by blast+
  from inv(1,5) have "R\<^sup>* `` roots \<subseteq> set seen" by (intro closed_rtrancl) blast+
  with inv show ?thesis by blast
qed

lemma cone_inv_pop:
  assumes "cone_inv R roots frontier seen out" "set frontier = insert n (set fr)"
    and new: "distinct new" "set new = R `` {n} - set seen"
  shows "cone_inv R roots (fr @ new) (rev new @ seen) (out @ new)"
proof -
  from assms(1,2) have inv: "set seen = roots \<union> set out" "distinct out" "roots \<inter> set out = {}" "insert n (set fr) \<subseteq> set seen"
    "set seen \<subseteq> R\<^sup>* `` roots" "R `` (set seen - insert n (set fr)) \<subseteq> set seen"
    unfolding cone_inv_def by (metis assms(2))+
  have "set new \<subseteq> R\<^sup>* `` roots" using inv(4,5) new(2) by (blast intro: rtrancl_into_rtrancl)
  moreover have "R `` (set new \<union> set seen - (set fr \<union> set new)) \<subseteq> set new \<union> set seen" using inv(6) new(2) by blast
  moreover have "distinct (out @ new)" using inv(1,2) new by auto
  moreover have "roots \<inter> set (out @ new) = {}" "set (rev new @ seen) = roots \<union> set (out @ new)" "set (fr @ new) \<subseteq> set (rev new @ seen)"
    using inv new(2) by auto
  moreover have "set (rev new @ seen) \<subseteq> R\<^sup>* `` roots" using calculation(1) inv(5) by simp
  ultimately show ?thesis unfolding cone_inv_def by simp
qed

lemma descendants_loop_exact:
  assumes "cone_inv (child_rel st) roots frontier seen out"
  shows "distinct (descendants_loop st frontier seen out)
    \<and> set (descendants_loop st frontier seen out) = (child_rel st)\<^sup>* `` roots - roots"
  using assms
proof (induction st frontier seen out rule: descendants_loop.induct)
  case (1 st frontier seen out)
  show ?case
  proof (cases frontier rule: rev_cases)
    case Nil
    with cone_inv_done 1(2) show ?thesis by (simp add: descendants_loop.simps)
  next
    case (snoc fr n)
    obtain new where new: "fold child_visit (collection_children st n) (seen, out, fr) = (rev new @ seen, out @ new, fr @ new)"
      "distinct new" "set new = set (collection_children st n) - set seen"
      using fold_child_visit [of "collection_children st n" seen out fr] by blast
    have "set (collection_children st n) = child_rel st `` {n}" by (auto simp: child_rel_def)
    with new have "cone_inv (child_rel st) roots (fr @ new) (rev new @ seen) (out @ new)"
      by (intro cone_inv_pop [OF 1(2)]) (simp_all add: snoc)
    from 1(1) [OF _ _ refl this] new(1) snoc show ?thesis by (simp add: descendants_loop.simps [of st "fr @ [n]"])
  qed
qed

lemma set_descendants: "set (descendants st rid) = gated_by st rid - {rid}"
  and distinct_descendants: "distinct (descendants st rid)"
proof -
  have "cone_inv (child_rel st) {rid} [rid] [rid] []" by (auto simp: cone_inv_def)
  from descendants_loop_exact [OF this]
  show "set (descendants st rid) = gated_by st rid - {rid}" "distinct (descendants st rid)"
    by (simp_all add: descendants_def)
qed

lemma set_gated_by [simp]: "insert rid (set (descendants st rid)) = gated_by st rid"
  by (auto simp: set_descendants)

text \<open>The active grant documents.\<close>

definition active_docs :: "lattice \<Rightarrow> doc set" where
  "active_docs st = {d \<in> v_doc ` {r \<in> snd ` set (vertices st). v_ct r = Some GRANT_CT}. dget d ''state'' = PStr ''active''}"

lemma grant_docs_active:
  obtains ds where "grant_docs st (Some ''active'') = Inr ds" "set ds = active_docs st"
proof -
  have "live_states (Some ''active'') = Some [''active'']" by (simp add: live_states_def)
  then have "grant_docs st (Some ''active'')
      = Inr (map (v_doc \<circ> snd) (rows_by_id st (\<lambda>r. v_ct r = Some GRANT_CT \<and> dget (v_doc r) ''state'' = PStr ''active'')))"
    by (simp add: grant_docs_def list_artifacts_def sql_limit_def)
  then show thesis by (rule that) (force simp: active_docs_def rows_by_id_def)
qed

lemma grant_mask_simps [simp]: "grant_mask = doc_mask"
  by (simp add: fun_eq_iff grant_mask_def doc_mask_def doc_effect_def)

lemma gated_collections_set:
  obtains ids where "gated_collections amb st = Inr ids"
    "set ids = (\<Union>d \<in> {d \<in> active_docs st. truthy (dget d ''resource_id'') \<and> carries (doc_mask d) ''read'' \<and> unexpired amb d}.
        gated_by st (dtext d ''resource_id''))"
proof -
  obtain ds where ds: "grant_docs st (Some ''active'') = Inr ds" "set ds = active_docs st" by (rule grant_docs_active)
  show thesis
    by (rule that [of "concat (map (\<lambda>d. if \<not> truthy (dget d ''resource_id'') \<or> \<not> carries (doc_mask d) ''read'' \<or> \<not> unexpired amb d
        then [] else dtext d ''resource_id'' # descendants st (dtext d ''resource_id'')) ds)"])
      (auto simp: gated_collections_def ds split: if_splits)
qed

text \<open>Whom the ledger seeds: the resources a principal may read by its own grants, deny first.\<close>

definition read_seed :: "ambient \<Rightarrow> lattice \<Rightarrow> string \<Rightarrow> string set" where
  "read_seed amb st who = {dtext d ''resource_id'' | d. d \<in> user_grant_docs amb st who
      \<and> doc_effect d = ''allow'' \<and> truthy (dget d ''can_read'')
      \<and> (\<forall>d' \<in> user_grant_docs amb st who. dtext d' ''resource_id'' = dtext d ''resource_id''
           \<longrightarrow> doc_effect d' = ''allow'' \<or> \<not> truthy (dget d' ''can_read''))}"

definition reach_spec :: "ambient \<Rightarrow> lattice \<Rightarrow> string \<Rightarrow> string set" where
  "reach_spec amb st who = (if who = [] then {} else (child_rel st)\<^sup>* `` read_seed amb st who)"

definition gate_spec :: "ambient \<Rightarrow> lattice \<Rightarrow> string set" where
  "gate_spec amb st = (child_rel st)\<^sup>* `` {dtext d ''resource_id'' | d. d \<in> active_docs st
      \<and> truthy (dget d ''resource_id'') \<and> carries (doc_mask d) ''read'' \<and> unexpired amb d}"

definition touches :: "doc \<Rightarrow> string set \<Rightarrow> bool" where
  "touches art S = ((\<exists>g. grounding_of art = Some g \<and> g \<in> S) \<or> as_text (py_or (dget art ''id'') (PStr [])) \<in> S)"

lemma set_expand: "set (concat (map (\<lambda>rid. rid # descendants st rid) rids)) = (child_rel st)\<^sup>* `` set rids"
  by (induction rids) (auto simp: set_descendants)

lemma reachable_collections_set:
  obtains ids where "reachable_collections amb st who = Inr ids" "set ids = reach_spec amb st who"
proof (cases "who = []")
  case True
  then show thesis by (intro that [of "[]"]) (simp_all add: reachable_collections_def reach_spec_def)
next
  case False
  from user_seed_exact [OF this] obtain rids where
    "get_active_collection_ids_for_user amb st who = Inr rids" "set rids = read_seed amb st who"
    unfolding read_seed_def by blast
  with False show thesis
    by (intro that [of "concat (map (\<lambda>rid. rid # descendants st rid) rids)"])
      (simp_all only: reachable_collections_def reach_spec_def set_expand rbind_simps if_False)
qed

lemma in_reach_touches: "in_reach art ids = touches art (set ids)"
  by (auto simp: in_reach_def touches_def split: option.splits)

lemma Image_seeds: "(\<Union>d \<in> {d \<in> A. P d}. R `` {f d}) = R `` {f d | d. d \<in> A \<and> P d}"
  by blast

lemma gated_spec:
  obtains ids where "gated_collections amb st = Inr ids" "set ids = gate_spec amb st"
  by (rule gated_collections_set) (simp add: gate_spec_def Image_seeds)

section \<open>Correctness\<close>

lemma can_read_exact:
  assumes "art \<noteq> []"
  shows "can_read_doc amb st art who = Inr (
      grounding_of art = None \<or> the (grounding_of art) \<notin> gate_spec amb st
      \<or> touches art (reach_spec amb st PUBLIC_PRINCIPAL) \<or> touches art (reach_spec amb st who))"
proof -
  obtain pub where pub: "reachable_collections amb st PUBLIC_PRINCIPAL = Inr pub" "set pub = reach_spec amb st PUBLIC_PRINCIPAL"
    by (rule reachable_collections_set)
  obtain mine where mine: "reachable_collections amb st who = Inr mine" "set mine = reach_spec amb st who"
    by (rule reachable_collections_set)
  obtain gated where gated: "gated_collections amb st = Inr gated" "set gated = gate_spec amb st" by (rule gated_spec)
  show ?thesis
    using assms pub mine gated by (cases "grounding_of art") (simp_all add: can_read_doc_def is_public_def is_made_public_def in_reach_touches)
qed


lemma no_grants_spec:
  assumes "user_grant_docs amb st who = {}"
  shows "reach_spec amb st who = {}"
  using assms by (simp add: reach_spec_def read_seed_def)

lemma sample_gated: "''box'' \<in> gate_spec sample_ambient (sample_ledger ''allow'')"
proof -
  let ?d = "v_doc (grant_row ''g1'' ''allow'' 1)"
  have "?d \<in> user_grant_docs sample_ambient (sample_ledger ''allow'') ''ann''" by (simp add: sample_ledger_docs)
  then have "?d \<in> active_docs (sample_ledger ''allow'')" "truthy (dget ?d ''resource_id'')" "unexpired sample_ambient ?d"
    unfolding user_grant_docs_def active_docs_def by blast+
  moreover have "carries (doc_mask ?d) ''read''" "dtext ?d ''resource_id'' = ''box''"
    by (simp_all add: doc_mask_def grant_row_def dtext_def dget_Cons ACTIONS_def)
  ultimately have "''box'' \<in> {dtext d ''resource_id'' | d. d \<in> active_docs (sample_ledger ''allow'')
      \<and> truthy (dget d ''resource_id'') \<and> carries (doc_mask d) ''read'' \<and> unexpired sample_ambient d}"
    by (intro CollectI exI [of _ ?d]) simp
  then show ?thesis unfolding gate_spec_def by (rule ImageI [OF rtrancl_refl])
qed

lemma sample_no_grants:
  assumes "who \<noteq> ''ann''"
  shows "user_grant_docs sample_ambient (sample_ledger eff) who = {}"
proof -
  have "dget (v_doc (grant_row ''g1'' eff 1)) ''grantee_id'' = PStr ''ann''" "v_ct (sample_row ''note'' 2\<lparr> v_doc := x \<rparr>) = None" for x
    by (simp_all add: grant_row_def dget_Cons sample_row_def)
  with assms show ?thesis by (auto simp: user_grant_docs_def sample_ledger_def)
qed


definition invoke_spec :: "ambient \<Rightarrow> lattice \<Rightarrow> string \<Rightarrow> bool \<Rightarrow> string set" where
  "invoke_spec amb st who allow = (child_rel st)\<^sup>* `` {dtext d ''resource_id'' | d. d \<in> active_docs st
      \<and> (speaks_invoke amb who d \<and> is_allow (doc_mask d) = allow)}"

lemma invoke_sink_set: "set ds = active_docs st \<Longrightarrow> set (invoke_sink amb st who allow ds) = invoke_spec amb st who allow"
proof -
  assume ds: "set ds = active_docs st"
  have "set (invoke_sink amb st who allow ds) = (child_rel st)\<^sup>* `` ((\<lambda>d. dtext d ''resource_id'') `
      {d \<in> set ds. speaks_invoke amb who d \<and> is_allow (doc_mask d) = allow})"
    using set_expand [of st "map (\<lambda>d. dtext d ''resource_id'') (filter (\<lambda>d. speaks_invoke amb who d \<and> is_allow (doc_mask d) = allow) ds)"]
    by (simp add: invoke_sink_def comp_def)
  moreover have "f ` {d \<in> A. P d} = {f d | d. d \<in> A \<and> P d}" for f :: "doc \<Rightarrow> string" and A P by blast
  ultimately show ?thesis by (simp add: invoke_spec_def ds)
qed

text \<open>Invocation is closed by default and deny first: \<open>may_invoke\<close> always answers, and it answers yes
  exactly when an active, unexpired user grant of the principal that allows invoking reaches the
  resource over nested collections and no grant of the principal that names invoking without allowing
  it does. Without a principal or a resource the answer is no.\<close>

theorem invoke_deny_first:
  "may_invoke amb st rid who = Inr (who \<noteq> [] \<and> rid \<noteq> []
     \<and> rid \<in> invoke_spec amb st who True \<and> rid \<notin> invoke_spec amb st who False)"
proof -
  obtain ds where ds: "grant_docs st (Some ''active'') = Inr ds" "set ds = active_docs st" by (rule grant_docs_active)
  show ?thesis by (simp add: may_invoke_def invokable_resources_def ds(1) invoke_sink_set [OF ds(2)])
qed

definition remask :: "pyval \<Rightarrow> lattice \<Rightarrow> lattice" where
  "remask v st = st\<lparr> edges := map (\<lambda>(k, e). (k, e\<lparr> e_propagate := v \<rparr>)) (edges st) \<rparr>"

lemma remask_children: "collection_children (remask v st) = collection_children st"
  by (simp add: fun_eq_iff collection_children_def remask_def list_ex_iff case_prod_beta' comp_def)

lemma remask_specs:
  "reach_spec amb (remask v st) who = reach_spec amb st who" "gate_spec amb (remask v st) = gate_spec amb st"
proof -
  have c: "child_rel (remask v st) = child_rel st" by (simp add: child_rel_def remask_children)
  have "vertices (remask v st) = vertices st" by (simp add: remask_def)
  then have "user_grant_docs amb (remask v st) who = user_grant_docs amb st who" "active_docs (remask v st) = active_docs st"
    by (simp_all add: user_grant_docs_def active_docs_def)
  with c show "reach_spec amb (remask v st) who = reach_spec amb st who" "gate_spec amb (remask v st) = gate_spec amb st"
    by (simp_all add: reach_spec_def read_seed_def gate_spec_def)
qed

text \<open>The publicity decision reads no propagate mask: rewriting the propagate column of every edge of the
  store changes neither what the commons reaches nor any read decision, although a column that carries
  nothing empties the light cone \<open>check_access\<close> walks.\<close>

theorem publicity_ignores_propagate:
  "is_made_public amb (remask v st) art = is_made_public amb st art
   \<and> can_read_doc amb (remask v st) art who = can_read_doc amb st art who
   \<and> conduct_rel (remask (PStr ''[]'') st) action = {}"
proof (intro conjI)
  have "is_made_public amb s art = Inr (touches art (reach_spec amb s PUBLIC_PRINCIPAL))" for s
    by (rule reachable_collections_set [of amb s PUBLIC_PRINCIPAL]) (simp add: is_made_public_def in_reach_touches)
  then show "is_made_public amb (remask v st) art = is_made_public amb st art" by (simp add: remask_specs)
  show "can_read_doc amb (remask v st) art who = can_read_doc amb st art who"
    by (cases "art = []") (simp_all add: can_read_doc_def [of _ _ "[]"] can_read_exact remask_specs)
  have "json_loads ''[]'' = Some (PList [])" by code_simp
  then have "prop_mask (e\<lparr> e_propagate := PStr ''[]'' \<rparr>) = PList []" for e by (simp add: prop_mask_def eprop_def e_col_def)
  moreover have "\<not> propagates (PList []) action"
    by (simp add: propagates_def allows_def)
  ultimately have "\<not> conducts action (e\<lparr> e_propagate := PStr ''[]'' \<rparr>)" for e by (simp add: conducts_def)
  then show "conduct_rel (remask (PStr ''[]'') st) action = {}" by (auto simp: conduct_rel_def remask_def)
qed

text \<open>The owner map: its keys and the pass order.\<close>

lemma set_default_keys [simp]: "fst ` set (fold (set_default v) ks m) = fst ` set m \<union> set ks"
proof (induction ks arbitrary: m)
  case (Cons k ks)
  have "fst ` set (set_default v k m) = insert k (fst ` set m)"
    by (auto simp: set_default_def map_of_eq_None_iff split: option.splits intro: rev_image_eqI dest: map_of_SomeD)
  with Cons show ?case by simp
qed simp

lemma set_default_distinct: "distinct (map fst m) \<Longrightarrow> distinct (map fst (fold (set_default v) ks m))"
proof (induction ks arbitrary: m)
  case (Cons k ks)
  have "distinct (map fst (set_default v k m))"
    using Cons.prems by (auto simp: set_default_def map_of_eq_None_iff split: option.splits)
  with Cons.IH show ?case by simp
qed simp

lemma set_default_values: "set (fold (set_default v) ks m) \<subseteq> set m \<union> set ks \<times> {v}"
proof (induction ks arbitrary: m)
  case (Cons k ks)
  have "set (set_default v k m) \<subseteq> set m \<union> {(k, v)}" by (auto simp: set_default_def split: option.splits)
  with Cons [of "set_default v k m"] show ?case by auto
qed simp

lemma set_default_keeps: "set m \<subseteq> set (fold (set_default v) ks m)"
proof (induction ks arbitrary: m)
  case (Cons k ks)
  have "set m \<subseteq> set (set_default v k m)" by (auto simp: set_default_def split: option.splits)
  with Cons [of "set_default v k m"] show ?case by auto
qed simp

definition owns :: "bool \<Rightarrow> doc \<Rightarrow> bool" where
  "owns allow d = (truthy (dget d ''resource_id'') \<and> truthy (dget d ''grantee_id'') \<and> carries (doc_mask d) ''read''
     \<and> is_allow (doc_mask d) = allow \<and> dtext d ''grantee_id'' \<noteq> PUBLIC_PRINCIPAL)"

lemma owner_pass_eq: "owner_pass st allow d m = (if owns allow d
    then fold (set_default (dtext d ''grantee_id'')) (dtext d ''resource_id'' # descendants st (dtext d ''resource_id'')) m else m)"
  by (auto simp: owner_pass_def owns_def)

lemma owner_pass_effect:
  "fst ` set (fold (owner_pass st allow) ds m) = fst ` set m \<union> (\<Union>d \<in> {d \<in> set ds. owns allow d}. gated_by st (dtext d ''resource_id''))
   \<and> (distinct (map fst m) \<longrightarrow> distinct (map fst (fold (owner_pass st allow) ds m)))
   \<and> set m \<subseteq> set (fold (owner_pass st allow) ds m)
   \<and> set (fold (owner_pass st allow) ds m) \<subseteq> set m \<union> (\<Union>d \<in> {d \<in> set ds. owns allow d}. gated_by st (dtext d ''resource_id'') \<times> {dtext d ''grantee_id''})"
proof (induction ds arbitrary: m)
  case (Cons d ds)
  define m' where "m' = owner_pass st allow d m"
  let ?G = "gated_by st (dtext d ''resource_id'')"
  have step: "fst ` set m' = fst ` set m \<union> (if owns allow d then ?G else {})" "distinct (map fst m) \<longrightarrow> distinct (map fst m')"
    "set m \<subseteq> set m'" "set m' \<subseteq> set m \<union> (if owns allow d then ?G \<times> {dtext d ''grantee_id''} else {})"
    using set_default_values [of "dtext d ''grantee_id''" "dtext d ''resource_id'' # descendants st (dtext d ''resource_id'')" m]
      set_default_keeps [of m "dtext d ''grantee_id''" "dtext d ''resource_id'' # descendants st (dtext d ''resource_id'')"]
    by (auto simp only: m'_def owner_pass_eq set_default_keys set_default_distinct list.set set_gated_by split: if_splits)
  have sel: "{x \<in> set (d # ds). owns allow x} = (if owns allow d then insert d {x \<in> set ds. owns allow x} else {x \<in> set ds. owns allow x})"
    by auto
  show ?case
    unfolding sel fold_simps m'_def [symmetric] using Cons [of m'] step by (cases "owns allow d") (auto 0 4)
qed simp

definition owner_docs :: "ambient \<Rightarrow> lattice \<Rightarrow> bool \<Rightarrow> doc set" where
  "owner_docs amb st allow = {d \<in> active_docs st. unexpired amb d \<and> owns allow d}"

text \<open>The owner map is exact: it names an owner, once, for the collections reached by an active unexpired
  read grant, of either effect, held by some principal other than the commons; the owner is the holder
  of an allow grant whenever one reaches the collection. A collection gated only by the commons' grant
  is gated and has no entry.\<close>

theorem owner_map_exact:
  "\<exists>m. gated_owner_map amb st = Inr m \<and> distinct (map fst m)
     \<and> fst ` set m = (\<Union>d \<in> owner_docs amb st True \<union> owner_docs amb st False. gated_by st (dtext d ''resource_id''))
     \<and> (\<forall>x who d. map_of m x = Some who \<and> d \<in> owner_docs amb st True \<and> x \<in> gated_by st (dtext d ''resource_id'')
          \<longrightarrow> (\<exists>d' \<in> owner_docs amb st True. x \<in> gated_by st (dtext d' ''resource_id'') \<and> who = dtext d' ''grantee_id''))"
proof -
  obtain ds where ds: "grant_docs st (Some ''active'') = Inr ds" "set ds = active_docs st" by (rule grant_docs_active)
  define us where "us = filter (unexpired amb) ds"
  define m1 where "m1 = fold (owner_pass st True) us []"
  define m2 where "m2 = fold (owner_pass st False) us m1"
  have us: "{d \<in> set us. owns b d} = owner_docs amb st b" for b by (auto simp: us_def ds(2) owner_docs_def)
  note p1 = owner_pass_effect [of st True us "[]", folded m1_def, unfolded us]
  note p2 = owner_pass_effect [of st False us m1, folded m2_def, unfolded us]
  have run: "gated_owner_map amb st = Inr m2"
    by (simp add: gated_owner_map_def ds(1) us_def [symmetric] m1_def [symmetric] m2_def [symmetric])
  have dist: "distinct (map fst m2)" using p1 p2 by simp
  have "\<exists>d' \<in> owner_docs amb st True. x \<in> gated_by st (dtext d' ''resource_id'') \<and> who = dtext d' ''grantee_id''"
    if "map_of m2 x = Some who" "d \<in> owner_docs amb st True" "x \<in> gated_by st (dtext d ''resource_id'')" for x who d
  proof -
    from that(2,3) p1 have "x \<in> fst ` set m1" by auto
    then obtain w where w: "(x, w) \<in> set m1" by auto
    with p2 have "(x, w) \<in> set m2" by blast
    with that(1) dist have "w = who" by simp
    with w p1 show ?thesis by auto
  qed
  moreover have "fst ` set m2 = (\<Union>d \<in> owner_docs amb st True \<union> owner_docs amb st False. gated_by st (dtext d ''resource_id''))"
    using p1 p2 by (simp add: Un_ac)
  ultimately show ?thesis using run dist by (intro exI [of _ m2]) blast
qed

theorem owner_map_exact_witness:
  "\<exists>m. gated_owner_map sample_ambient (sample_ledger ''allow'') = Inr m \<and> map_of m ''box'' = Some ''ann''"
proof -
  let ?d = "v_doc (grant_row ''g1'' ''allow'' 1)" and ?st = "sample_ledger ''allow''"
  have "active_docs ?st = {?d}"
  proof -
    have "v_ct (grant_row ''g1'' ''allow'' 1) = Some GRANT_CT" "v_ct (sample_row ''note'' 2\<lparr> v_doc := x \<rparr>) = None" for x
      by (simp_all add: grant_row_def sample_row_def)
    then have "{r \<in> snd ` set (vertices ?st). v_ct r = Some GRANT_CT} = {grant_row ''g1'' ''allow'' 1}" by (auto simp: sample_ledger_def)
    then show ?thesis unfolding active_docs_def by (auto simp: grant_row_def dget_Cons)
  qed
  moreover have "owns True ?d" "unexpired sample_ambient ?d"
    by (simp_all add: owns_def unexpired_def doc_mask_def grant_row_def dtext_def dget_Cons ACTIONS_def PUBLIC_PRINCIPAL_def doc_effect_def
        norm_effect_def py_or_def) (code_simp)+
  ultimately have od: "owner_docs sample_ambient ?st True = {?d}" by (auto simp: owner_docs_def)
  have rid: "dtext ?d ''resource_id'' = ''box''" "dtext ?d ''grantee_id'' = ''ann''" by (simp_all add: grant_row_def dtext_def dget_Cons)
  obtain m where m: "gated_owner_map sample_ambient ?st = Inr m" "''box'' \<in> fst ` set m"
    "\<forall>x who d. map_of m x = Some who \<and> d \<in> owner_docs sample_ambient ?st True \<and> x \<in> gated_by ?st (dtext d ''resource_id'')
        \<longrightarrow> (\<exists>d' \<in> owner_docs sample_ambient ?st True. x \<in> gated_by ?st (dtext d' ''resource_id'') \<and> who = dtext d' ''grantee_id'')"
    using owner_map_exact [of sample_ambient ?st] od rid(1) by auto
  from m(2) obtain who where "map_of m ''box'' = Some who" by (metis map_of_eq_None_iff not_None_eq)
  with m(3) od rid have "map_of m ''box'' = Some ''ann''" by auto
  with m(1) show ?thesis by blast
qed

lemma upsert_mints:
  assumes "fernet_law K" "fresh_id amb \<noteq> []" "now_iso amb \<noteq> []" "vertices_keyed st"
    and "get_active_grants_for_principal_resource amb K st who rid = Inr []"
  obtains e d st' where "upsert_user_collection_grant H amb K who rid by_id can None st = Inr (e, st')"
    "ledger st' = (ledger st)(fresh_id amb \<mapsto> d)" "vertices_keyed st'" "dget d ''resource_id'' = PStr rid"
    "dget d ''grantee_id'' = PStr who" "dget d ''state'' = PStr ''active''" "dget d ''grantee_type'' = PStr ''user''"
    "dget d ''expires_at'' = PNone" "doc_effect d = ''allow''" "\<forall>a \<in> set ACTIONS. carries (doc_mask d) a = can a"
proof -
  define g where "g = Grant_init amb (set_flags (flag_list can) (GRANT_ARGS\<lparr> g_id := fresh_id amb,
    resource_id := rid, grantee_type := GRANTEE_USER, grantee_id := who, granted_by := by_id, gname := None \<rparr>))"
  have g: "wf_grant g" using assms(2,3) by (simp add: g_def Grant_init_wf)
  have fl: "get_flag g (''can_'' @ a) = can a" if "a \<in> set ACTIONS" for a
    using get_flag_list [OF that, of can] by (simp add: g_def Grant_init_def Let_def get_flag_def del: append.simps)
  have f: "g_id g = fresh_id amb" "resource_id g = rid" "grantee_id g = who" "gstate g = ''active''" "grantee_type g = ''user''"
    "expires_at g = None" "effect g = ''allow''"
    using assms(2) by (simp_all add: g_def Grant_init_def Let_def GRANT_ARGS_def str_or_def)
  obtain d n st' where p: "to_grant_doc K (g, PNone) = Inr d" "create_grant H K (g, PNone) st = Inr st'"
    "ledger st' = (ledger st)(g_id g \<mapsto> stored_doc (doc_of st (g_id g)) d (st_origin st) n)"
    "vertices_keyed st \<longrightarrow> vertices_keyed st'" by (rule put_grant [OF assms(1) g])
  note w = written_mask [OF assms(1) p(1)]
  show thesis
  proof (rule that [OF _ p(3) [unfolded f(1)]])
    show "upsert_user_collection_grant H amb K who rid by_id can None st = Inr (((g, PNone), True), st')"
      by (simp add: upsert_user_collection_grant_def assms(5) g_def [symmetric] p(2))
  qed (use w f fl p(4) assms(4) in \<open>simp_all add: opt_val_def doc_effect_def py_or_def del: append.simps\<close>)
qed

lemma active_docs_ledger: "vertices_keyed st \<Longrightarrow> active_docs st = {d \<in> ran (ledger st). dget d ''state'' = PStr ''active''}"
  by (simp add: active_docs_def ran_ledger)

lemma user_grant_docs_ledger:
  "vertices_keyed st \<Longrightarrow> user_grant_docs amb st who = {d \<in> ran (ledger st). dget d ''grantee_id'' = PStr who
     \<and> dget d ''state'' = PStr ''active'' \<and> dget d ''grantee_type'' = PStr ''user'' \<and> truthy (dget d ''resource_id'') \<and> unexpired amb d}"
  by (simp add: user_grant_docs_def ran_ledger)

lemma no_active_grants:
  assumes "get_active_grants_for_principal_resource amb K st who rid = Inr []" "who \<noteq> []" "vertices_keyed st"
    and "d \<in> ran (ledger st)" "dget d ''grantee_id'' = PStr who" "dget d ''state'' = PStr ''active''" "unexpired amb d"
  shows "dget d ''resource_id'' \<noteq> PStr rid"
proof
  assume "dget d ''resource_id'' = PStr rid"
  moreover have "d \<in> set (grant_rows_by st ''grantee_id'' who)" using assms(3-5) by (auto simp: set_grant_rows_by ran_ledger)
  ultimately have "from_lattice_doc amb K d \<in> set []"
    using assms(1,2,6,7) by (auto simp: get_active_grants_for_principal_resource_def grant_docs_by_eq filter_empty_conv)
  then show False by simp
qed

text \<open>Minting the owner's read grant makes a collection private: the first grant of the owner on it is
  written, after which a document grounded in the collection is public only if the commons was granted
  it, and the owner reads it.\<close>

theorem mint_makes_private:
  assumes "fernet_law K" "fresh_id amb \<noteq> []" "now_iso amb \<noteq> []" "vertices_keyed st" "cid \<noteq> []" "owner \<noteq> []"
    and "get_active_grants_for_principal_resource amb K st owner cid = Inr []"
    and "grounding_of art = Some cid"
  shows "\<exists>st'. mint_owner_read_grant H amb K cid owner st = Inr st'
    \<and> is_public amb st' art = is_made_public amb st' art \<and> can_read_doc amb st' art owner = Inr True"
proof -
  obtain e d st' where up: "upsert_user_collection_grant H amb K owner cid owner (\<lambda>a. a = ''read'') None st = Inr (e, st')"
    and led: "ledger st' = (ledger st)(fresh_id amb \<mapsto> d)" "vertices_keyed st'"
    and d: "dget d ''resource_id'' = PStr cid" "dget d ''grantee_id'' = PStr owner" "dget d ''state'' = PStr ''active''"
      "dget d ''grantee_type'' = PStr ''user''" "dget d ''expires_at'' = PNone" "doc_effect d = ''allow''"
      "\<forall>a \<in> set ACTIONS. carries (doc_mask d) a = (a = ''read'')"
    by (rule upsert_mints [OF assms(1-4,7), where H = H and by_id = owner and can = "\<lambda>a. a = ''read''"])
  have "''read'' \<in> set ACTIONS" by (simp add: ACTIONS_def)
  with d(7) have rd: "carries (doc_mask d) ''read''" by blast
  then have rd': "truthy (dget d ''can_read'')" by (simp add: doc_mask_def ACTIONS_def)
  have un: "unexpired amb d" "dtext d ''resource_id'' = cid" "truthy (dget d ''resource_id'')"
    using d(1,5) assms(5) by (simp_all add: unexpired_def dtext_def)
  have ran: "ran (ledger st') \<subseteq> insert d (ran (ledger st))" "d \<in> ran (ledger st')"
    unfolding led(1) by (auto simp: ran_def)
  have "d \<in> active_docs st'" using led(2) ran(2) d(3) by (simp add: active_docs_ledger)
  with rd un have "cid \<in> {dtext d ''resource_id'' | d. d \<in> active_docs st'
      \<and> truthy (dget d ''resource_id'') \<and> carries (doc_mask d) ''read'' \<and> unexpired amb d}" by (intro CollectI exI [of _ d]) simp
  then have gated: "cid \<in> gate_spec amb st'" unfolding gate_spec_def by (rule ImageI [OF rtrancl_refl])
  have mine: "d' = d" if "d' \<in> user_grant_docs amb st' owner" "dtext d' ''resource_id'' = cid" for d'
  proof (rule ccontr)
    assume "d' \<noteq> d"
    have d': "d' \<in> ran (ledger st')" "dget d' ''grantee_id'' = PStr owner" "dget d' ''state'' = PStr ''active''" "unexpired amb d'"
      using that(1) led(2) by (simp_all add: user_grant_docs_ledger)
    with ran(1) \<open>d' \<noteq> d\<close> have "dget d' ''resource_id'' \<noteq> PStr cid"
      using no_active_grants [OF assms(7,6,4), of d'] by blast
    with that(2) assms(5) show False by (cases "dget d' ''resource_id''") (simp_all add: dtext_def)
  qed
  have "d \<in> user_grant_docs amb st' owner" using led(2) ran(2) d un by (simp add: user_grant_docs_ledger)
  with mine d(6) rd' un(2) have "cid \<in> read_seed amb st' owner" unfolding read_seed_def by blast
  with assms(6) have "cid \<in> reach_spec amb st' owner" unfolding reach_spec_def by auto
  with assms(8) have "touches art (reach_spec amb st' owner)" unfolding touches_def by blast
  moreover have "art \<noteq> []" using assms(8) by (auto simp: grounding_of_def)
  ultimately have "can_read_doc amb st' art owner = Inr True" by (simp add: can_read_exact)
  moreover obtain ids where "gated_collections amb st' = Inr ids" "set ids = gate_spec amb st'" by (rule gated_spec)
  with gated assms(8) have "is_public amb st' art = is_made_public amb st' art" by (simp add: is_public_def)
  moreover have "mint_owner_read_grant H amb K cid owner st = Inr st'" by (simp add: mint_owner_read_grant_def grant_read_def up)
  ultimately show ?thesis by blast
qed

theorem mint_makes_private_witness:
  "\<exists>st'. mint_owner_read_grant sample_H sample_ambient sample_key ''box'' ''ann'' (empty_lattice ''o'' 4) = Inr st'
    \<and> can_read_doc sample_ambient st' [(''id'', PStr ''note''), (''collection_id'', PStr ''box'')] ''ann'' = Inr True"
proof -
  have "get_active_grants_for_principal_resource sample_ambient sample_key (empty_lattice ''o'' 4) ''ann'' ''box'' = Inr []"
    by (simp add: get_active_grants_for_principal_resource_def grant_docs_by_eq grant_rows_by_def rows_by_id_def empty_lattice_def)
  moreover have "grounding_of [(''id'', PStr ''note''), (''collection_id'', PStr ''box'')] = Some ''box''"
    by (simp add: grounding_of_def dget_Cons dtext_def)
  moreover have "fresh_id sample_ambient \<noteq> []" "now_iso sample_ambient \<noteq> []" "vertices_keyed (empty_lattice ''o'' 4)"
    by (simp_all add: sample_ambient_def vertices_keyed_def empty_lattice_def)
  ultimately show ?thesis
    using mint_makes_private [OF sample_fernet, of sample_ambient "empty_lattice ''o'' 4" "''box''" "''ann''"] by blast
qed

text \<open>Granting invocation takes reading away: on a resource the grantee already reads, \<open>grant_invoke\<close> rewrites
  the same grant with all nine flags, so the stored grant no longer carries the read bit.\<close>

theorem invoke_grant_takes_read:
  assumes "fernet_law K" "fresh_id amb \<noteq> []" "now_iso amb \<noteq> []"
    and "get_active_grants_for_principal_resource amb K st who rid = Inr es"
    and "find_first (\<lambda>e. grantee_type (fst e) = GRANTEE_USER) es = Some (ug, PNone)" "can_read ug"
  shows "\<exists>st' d. grant_invoke H amb K rid who by_id st = Inr st' \<and> ledger st' = (ledger st)(g_id ug \<mapsto> d)
    \<and> carries (doc_mask d) ''invoke'' \<and> \<not> carries (doc_mask d) ''read''"
proof -
  let ?ug = "set_flags (flag_list (\<lambda>a. a = ''invoke'')) ug"
  have "(ug, PNone) \<in> set es" using find_first_Some [OF assms(5)] by simp
  then obtain raw where "from_lattice_doc amb K raw = (ug, PNone)"
    using assms(4) by (cases "who = []") (auto simp: get_active_grants_for_principal_resource_def grant_docs_by_eq)
  with wf_decoded [OF assms(2,3), of K raw] have wf: "wf_grant ?ug" by simp
  obtain d n st' where p: "to_grant_doc K (?ug, PNone) = Inr d" "create_grant H K (?ug, PNone) st = Inr st'"
    "ledger st' = (ledger st)(g_id ?ug \<mapsto> stored_doc (doc_of st (g_id ?ug)) d (st_origin st) n)"
    by (rule put_grant [OF assms(1) wf])
  have "list_ex (\<lambda>(k, v). get_flag ug k \<noteq> v) (flag_list (\<lambda>a. a = ''invoke''))"
    using assms(6) by (simp add: flag_list_def get_flag_def)
  then have "grant_invoke H amb K rid who by_id st = Inr st'"
    using p(2) by (simp add: grant_invoke_def upsert_user_collection_grant_def assms(4,5) update_is_create)
  moreover have "carries (mask_of ?ug) a = (a = ''invoke'')" if "a \<in> set ACTIONS" for a
    using get_flag_list [OF that, of "\<lambda>a. a = ''invoke''" ug] that by simp
  then have "carries (mask_of ?ug) ''invoke''" "\<not> carries (mask_of ?ug) ''read''"
    by (simp_all add: ACTIONS_def del: mask_of_simps)
  ultimately show ?thesis using p(3) written_mask(1) [OF assms(1) p(1)] by auto
qed

theorem invoke_grant_takes_read_witness:
  "\<exists>st' d. grant_invoke sample_H sample_ambient sample_key ''box'' ''ann'' ''root'' (sample_ledger ''allow'') = Inr st'
    \<and> ledger st' ''g1'' = Some d \<and> carries (doc_mask d) ''invoke'' \<and> \<not> carries (doc_mask d) ''read''"
proof -
  let ?st = "sample_ledger ''allow''" and ?raw = "v_doc (grant_row ''g1'' ''allow'' 1)"
  have rows: "grant_rows_by ?st ''grantee_id'' ''ann'' = [?raw]"
    by (simp add: grant_rows_by_def rows_by_id_def sample_ledger_def grant_row_def sample_row_def dget_Cons)
  obtain g b where gb: "from_lattice_doc sample_ambient sample_key ?raw = (g, b)" by fastforce
  have es: "get_active_grants_for_principal_resource sample_ambient sample_key ?st ''ann'' ''box'' = Inr [(g, b)]"
    by (simp add: get_active_grants_for_principal_resource_def grant_docs_by_eq rows gb)
      (simp add: grant_row_def dget_Cons unexpired_def)
  have g: "g_id g = ''g1''" "can_read g" "grantee_type g = GRANTEE_USER" "b = PNone"
    using gb by (auto simp: from_lattice_doc_def grant_row_def LATTICE_INTERNAL_def unseal_fields_def SEALED_def dget_Cons
        dpop_def Grant_from_dict_def Grant_init_def dflag_def Let_def dtext_def str_or_def)
  have "fresh_id sample_ambient \<noteq> []" "now_iso sample_ambient \<noteq> []" by (simp_all add: sample_ambient_def)
  from invoke_grant_takes_read [OF sample_fernet this es, of g sample_H "''root''"] g show ?thesis by auto
qed

end
