(* ===== verification/Grant_Service.thy ===== *)
theory Grant_Service
  imports Ledger
begin

text \<open>
  \<open>services/grant_service.py\<close>: what a user holds on a resource, the issuer clamp every minting path
  goes through, and the invite flow (create, reissue, claim, inspect).

  The claim token that \<open>secrets\<close> draws is the argument \<open>raw_token\<close>, \<open>sha256\<close> an argument, and the clock and
  the fresh id are the fields of \<open>ambient\<close>. Sending the mail and the \<open>grant.invite.*\<close> events, which never
  raise, are not modelled. An invite is a ledger entity: the grant and the sealed blob kept when this
  node cannot open its private fields, in which case those fields read as absent.
\<close>

section \<open>Definitions\<close>

abbreviation flag_of :: "string \<Rightarrow> string" where
  "flag_of a \<equiv> ''can_'' @ a"

definition live_masks :: "grant_entity list \<Rightarrow> mask list" where
  "live_masks es = map (mask_of \<circ> fst) (filter (Grant_is_active \<circ> fst) es)"

definition user_has_any_action ::
  "ambient \<Rightarrow> node_key \<Rightarrow> lattice \<Rightarrow> string \<Rightarrow> string \<Rightarrow> string list \<Rightarrow> bool result" where
  "user_has_any_action amb K st user_id rid actions =
     (if user_id = [] then Inr False
      else rbind (get_active_grants_for_principal_resource amb K st user_id rid) (\<lambda>es.
        (let masks = live_masks es in
         if list_ex (\<lambda>m. list_ex (\<lambda>a. is_deny m \<and> carries m a) actions) masks then Inr False
         else Inr (list_ex (\<lambda>m. list_ex (allows m) actions) masks))))"

definition user_has_any_flag ::
  "ambient \<Rightarrow> node_key \<Rightarrow> lattice \<Rightarrow> string \<Rightarrow> string \<Rightarrow> string list \<Rightarrow> bool result" where
  "user_has_any_flag amb K st user_id rid flags =
     user_has_any_action amb K st user_id rid (filter (\<lambda>a. flag_of a \<in> set flags) ACTIONS)"

definition can_share_on :: "ambient \<Rightarrow> node_key \<Rightarrow> lattice \<Rightarrow> string \<Rightarrow> string \<Rightarrow> bool result" where
  "can_share_on amb K st user_id rid = user_has_any_action amb K st user_id rid [''share'', ''admin'']"

definition can_admin_on :: "ambient \<Rightarrow> node_key \<Rightarrow> lattice \<Rightarrow> string \<Rightarrow> string \<Rightarrow> bool result" where
  "can_admin_on amb K st user_id rid = user_has_any_action amb K st user_id rid [''admin'']"

text \<open>The allow masks join, then the masks that are not an allow are taken away.\<close>

definition held_actions :: "mask list \<Rightarrow> string list" where
  "held_actions masks =
     (let joined = concat (map mask_actions (filter is_allow masks));
          denied = concat (map mask_actions (filter is_deny masks)) in
      filter (\<lambda>a. a \<notin> set denied) joined)"

definition effective_flags ::
  "ambient \<Rightarrow> node_key \<Rightarrow> lattice \<Rightarrow> string \<Rightarrow> string \<Rightarrow> (string \<times> bool) list result" where
  "effective_flags amb K st user_id rid =
     (if user_id = [] then Inr (map (\<lambda>a. (flag_of a, False)) ACTIONS)
      else rbind (get_active_grants_for_principal_resource amb K st user_id rid) (\<lambda>es.
        (let held = held_actions (live_masks es) in
         Inr (map (\<lambda>a. (flag_of a, a \<in> set held)) ACTIONS))))"

definition flag_on :: "(string \<times> bool) list \<Rightarrow> string \<Rightarrow> bool" where
  "flag_on fs f = (map_of fs f = Some True)"

fun pick_flags :: "(string \<times> bool) list \<Rightarrow> (string \<times> bool) list \<Rightarrow> (string \<times> bool) list result" where
  "pick_flags allowed [] = Inr []"
| "pick_flags allowed ((f, _) # fs) =
     (case map_of allowed f of
        None \<Rightarrow> Inl KeyError
      | Some b \<Rightarrow> rbind (pick_flags allowed fs) (\<lambda>rest. Inr ((f, b) # rest)))"

definition clamp_to_issuer ::
  "ambient \<Rightarrow> node_key \<Rightarrow> lattice \<Rightarrow> string \<Rightarrow> string \<Rightarrow> (string \<times> bool) list \<Rightarrow> (string \<times> bool) list result" where
  "clamp_to_issuer amb K st issuer_id rid requested =
     rbind (effective_flags amb K st issuer_id rid) (\<lambda>eff.
       (let held = from_flags (flag_on eff) True;
            allowed = to_flags (Mask_and (from_flags (flag_on requested) True) held) in
        pick_flags allowed requested))"

definition clamp_grant_to_issuer :: "ambient \<Rightarrow> node_key \<Rightarrow> lattice \<Rightarrow> grant \<Rightarrow> string \<Rightarrow> grant result" where
  "clamp_grant_to_issuer amb K st g issuer_id =
     (if grant_is_deny g then Inr g
      else rbind (effective_flags amb K st issuer_id (resource_id g)) (\<lambda>eff.
             Inr (set_flags (to_flags (Mask_and (mask_of g) (from_flags (flag_on eff) True))) g)))"

section \<open>Invites\<close>

datatype claim_error =
    InviteNotFound
  | InviteExhausted
  | InviteIdentityMismatch
  | Raised py_error

type_synonym 'a claim_result = "claim_error + 'a"

definition lift_claim :: "'a result \<Rightarrow> 'a claim_result" where
  "lift_claim r = (case r of Inl e \<Rightarrow> Inl (Raised e) | Inr a \<Rightarrow> Inr a)"

definition cbind :: "'a claim_result \<Rightarrow> ('a \<Rightarrow> 'b claim_result) \<Rightarrow> 'b claim_result" where
  "cbind m f = (case m of Inl e \<Rightarrow> Inl e | Inr a \<Rightarrow> f a)"

lemma cbind_simps [simp]: "cbind (Inl e) f = Inl e" "cbind (Inr a) f = f a"
  by (simp_all add: cbind_def)

lemma lift_claim_simps [simp]: "lift_claim (Inr a) = Inr a" "lift_claim (Inl e) = Inl (Raised e)"
  by (simp_all add: lift_claim_def)

definition create_invite ::
  "hashlib \<Rightarrow> (string \<Rightarrow> string) \<Rightarrow> ambient \<Rightarrow> node_key \<Rightarrow> string \<Rightarrow> string \<Rightarrow> string \<Rightarrow> string \<Rightarrow> string option
     \<Rightarrow> int option \<Rightarrow> string option \<Rightarrow> string option \<Rightarrow> string option \<Rightarrow> lattice \<Rightarrow> (grant \<times> lattice) result" where
  "create_invite H sha256 amb K raw_token user_id rid role target_email maxc name notes expires st =
     rbind (permissions_for_role role) (\<lambda>preset.
     rbind (effective_flags amb K st user_id rid) (\<lambda>eff.
       (let granted = map (\<lambda>a. (flag_of a, flag_on preset (flag_of a) \<and> flag_on eff (flag_of a))) ACTIONS;
            target = (case target_email of Some e \<Rightarrow> if e = [] then None else Some (py_lower e) | None \<Rightarrow> None);
            g = Grant_init amb (set_flags granted (GRANT_ARGS\<lparr> g_id := fresh_id amb, resource_id := rid,
                  grantee_type := GRANTEE_INVITE, grantee_id := hash_token sha256 raw_token, granted_by := user_id,
                  requires_identity := (target \<noteq> None), target_entity := target,
                  target_entity_type := (if target = None then None else Some ''email''), max_claims := maxc,
                  gstate := STATE_ACTIVE, gname := name, gnotes := notes, granted_at := now_iso amb,
                  expires_at := expires, created_time := now_iso amb, modified_time := now_iso amb \<rparr>)) in
        rbind (create_grant H K (g, PNone) st) (\<lambda>st'. Inr (g, st')))))"

definition lookup_active_invite ::
  "(string \<Rightarrow> string) \<Rightarrow> ambient \<Rightarrow> node_key \<Rightarrow> lattice \<Rightarrow> string \<Rightarrow> grant_entity claim_result" where
  "lookup_active_invite sha256 amb K st raw_token =
     cbind (lift_claim (get_active_grants_for_grantee amb K st (hash_token sha256 raw_token) ''invite'')) (\<lambda>candidates.
       case candidates of
         [] \<Rightarrow> Inl InviteNotFound
       | invite # _ \<Rightarrow>
           if grantee_type (fst invite) \<noteq> GRANTEE_INVITE then Inl InviteNotFound
           else if gstate (fst invite) \<noteq> STATE_ACTIVE then Inl InviteExhausted
           else Inr invite)"

definition target_matches :: "string \<Rightarrow> grant \<Rightarrow> string \<Rightarrow> bool" where
  "target_matches user_id invite claimant_email =
     (let target = (case target_entity invite of None \<Rightarrow> [] | Some t \<Rightarrow> t);
          email = py_lower (py_strip claimant_email) in
      case target_entity_type invite of
        Some ty \<Rightarrow>
          if ty = ''user_id'' then user_id = target
          else if ty = ''email'' then email \<noteq> [] \<and> email = py_lower target
          else if ty = ''domain'' then email \<noteq> [] \<and> ends_with (''@'' @ py_lower target) email
          else False
      | None \<Rightarrow> False)"

definition verify_target_match :: "string \<Rightarrow> grant \<Rightarrow> string \<Rightarrow> unit claim_result" where
  "verify_target_match user_id invite claimant_email =
     (if target_matches user_id invite claimant_email then Inr () else Inl InviteIdentityMismatch)"

definition has_target :: "grant \<Rightarrow> bool" where
  "has_target g = (truthy (opt_val (target_entity g)) \<and> truthy (opt_val (target_entity_type g)))"

definition claimed_grant :: "ambient \<Rightarrow> string \<Rightarrow> grant \<Rightarrow> grant" where
  "claimed_grant amb user_id invite =
     Grant_init amb (GRANT_ARGS\<lparr> g_id := fresh_id amb, resource_id := resource_id invite, grantee_type := GRANTEE_USER,
       grantee_id := user_id, granted_by := granted_by invite, can_create := can_create invite, can_read := can_read invite,
       can_update := can_update invite, can_delete := can_delete invite, can_evict := can_evict invite,
       can_invoke := can_invoke invite, can_add := can_add invite, can_share := can_share invite, can_admin := can_admin invite,
       requires_identity := True, gstate := STATE_ACTIVE,
       gname := (case gname invite of Some n \<Rightarrow> if n = [] then target_entity invite else Some n | None \<Rightarrow> target_entity invite),
       gnotes := Some (''Claimed from invite '' @ g_id invite), granted_at := now_iso amb, expires_at := expires_at invite,
       created_time := now_iso amb, modified_time := now_iso amb \<rparr>)"

definition spent_invite :: "ambient \<Rightarrow> string \<Rightarrow> grant \<Rightarrow> grant" where
  "spent_invite amb user_id invite =
     (let g = invite\<lparr> claims_count := claims_count invite + 1, modified_time := now_iso amb \<rparr> in
      if max_claims invite = Some 1
      then g\<lparr> gstate := STATE_REVOKED, revoked_at := Some (now_iso amb), revoked_by := Some user_id \<rparr> else g)"

text \<open>The two writes are two transactions: when the second one fails the first stands, so the store is
  returned beside the outcome.\<close>

definition claim_invite ::
  "hashlib \<Rightarrow> (string \<Rightarrow> string) \<Rightarrow> ambient \<Rightarrow> node_key \<Rightarrow> string \<Rightarrow> string \<Rightarrow> string \<Rightarrow> lattice
     \<Rightarrow> grant claim_result \<times> lattice" where
  "claim_invite H sha256 amb K user_id raw_token claimant_email st =
     (case lookup_active_invite sha256 amb K st raw_token of
        Inl e \<Rightarrow> (Inl e, st)
      | Inr (invite, blob) \<Rightarrow>
          if has_target invite \<and> verify_target_match user_id invite claimant_email = Inl InviteIdentityMismatch
          then (Inl InviteIdentityMismatch, st)
          else if (case max_claims invite of None \<Rightarrow> False | Some n \<Rightarrow> n \<le> claims_count invite) then (Inl InviteExhausted, st)
          else
            (let new_grant = claimed_grant amb user_id invite in
             case create_grant H K (new_grant, PNone) st of
               Inl e \<Rightarrow> (Inl (Raised e), st)
             | Inr st1 \<Rightarrow>
                 (case update_grant H K (spent_invite amb user_id invite, blob) st1 of
                    Inl e \<Rightarrow> (Inl (Raised e), st1)
                  | Inr st2 \<Rightarrow> (Inr new_grant, st2))))"

definition reissue_invite ::
  "hashlib \<Rightarrow> (string \<Rightarrow> string) \<Rightarrow> ambient \<Rightarrow> node_key \<Rightarrow> string \<Rightarrow> grant_entity \<Rightarrow> lattice \<Rightarrow> lattice claim_result" where
  "reissue_invite H sha256 amb K raw_token invite st =
     (if grantee_type (fst invite) \<noteq> GRANTEE_INVITE \<or> gstate (fst invite) \<noteq> STATE_ACTIVE then Inl InviteExhausted
      else lift_claim (update_grant H K ((fst invite)\<lparr> grantee_id := hash_token sha256 raw_token, modified_time := now_iso amb \<rparr>,
             snd invite) st))"

text \<open>What may be shown before and after the caller is known.\<close>

record invite_context =
  ctx_has_target :: bool
  ctx_target_type :: "string option"

definition get_invite_context ::
  "(string \<Rightarrow> string) \<Rightarrow> ambient \<Rightarrow> node_key \<Rightarrow> lattice \<Rightarrow> string \<Rightarrow> invite_context option claim_result" where
  "get_invite_context sha256 amb K st raw_token =
     (case lookup_active_invite sha256 amb K st raw_token of
        Inl (Raised e) \<Rightarrow> Inl (Raised e)
      | Inl _ \<Rightarrow> Inr None
      | Inr (invite, _) \<Rightarrow> Inr (Some \<lparr> ctx_has_target = truthy (opt_val (target_entity invite)),
                              ctx_target_type = target_entity_type invite \<rparr>))"

datatype invite_details =
    IdentityMismatch
  | Details string string "string option"

definition get_invite_details ::
  "(string \<Rightarrow> string) \<Rightarrow> ambient \<Rightarrow> node_key \<Rightarrow> lattice \<Rightarrow> string \<Rightarrow> string \<Rightarrow> string \<Rightarrow> invite_details option claim_result" where
  "get_invite_details sha256 amb K st raw_token user_id claimant_email =
     (case lookup_active_invite sha256 amb K st raw_token of
        Inl (Raised e) \<Rightarrow> Inl (Raised e)
      | Inl _ \<Rightarrow> Inr None
      | Inr (invite, _) \<Rightarrow>
          if has_target invite \<and> \<not> target_matches user_id invite claimant_email then Inr (Some IdentityMismatch)
          else Inr (Some (Details (resource_id invite) (granted_by invite) (gname invite))))"

section \<open>What a user holds\<close>

text \<open>The active grants of a user on a resource, as entities.\<close>

definition held :: "ambient \<Rightarrow> node_key \<Rightarrow> lattice \<Rightarrow> string \<Rightarrow> string \<Rightarrow> grant set" where
  "held amb K st user_id rid =
     fst ` set (case get_active_grants_for_principal_resource amb K st user_id rid of Inl _ \<Rightarrow> [] | Inr es \<Rightarrow> es)"

lemma active_grants_total:
  obtains es where "get_active_grants_for_principal_resource amb K st user_id rid = Inr es" "fst ` set es = held amb K st user_id rid"
  by (simp add: held_def get_active_grants_for_principal_resource_def grant_docs_by_eq)

text \<open>An active document decodes to an active grant, so the second filter keeps every one.\<close>

lemma held_active:
  assumes "g \<in> held amb K st user_id rid"
  shows "Grant_is_active g"
proof -
  from assms obtain d where "g = fst (from_lattice_doc amb K d)" "dget d ''state'' = PStr ''active''"
    by (auto simp: held_def get_active_grants_for_principal_resource_def grant_docs_by_eq split: if_splits)
  with decoded_field [of d "''state''" "''active''" K] show ?thesis
    by (simp add: Grant_is_active_def from_lattice_doc_def Let_def Grant_from_dict_def Grant_init_def dtext_or_get
        LATTICE_INTERNAL_def SEALED_def)
qed

lemma live_masks_held:
  assumes "fst ` set es = held amb K st user_id rid"
  shows "set (live_masks es) = mask_of ` held amb K st user_id rid"
proof -
  have "filter (Grant_is_active \<circ> fst) es = es" using assms held_active by (force simp: filter_id_conv)
  then show ?thesis by (simp add: live_masks_def assms [symmetric] image_comp)
qed

definition holds_action :: "ambient \<Rightarrow> node_key \<Rightarrow> lattice \<Rightarrow> string \<Rightarrow> string \<Rightarrow> string \<Rightarrow> bool" where
  "holds_action amb K st user_id rid a \<longleftrightarrow> user_id \<noteq> []
     \<and> (\<exists>g \<in> held amb K st user_id rid. allows (mask_of g) a)
     \<and> (\<forall>g \<in> held amb K st user_id rid. grant_is_allow g \<or> \<not> carries (mask_of g) a)"

lemma held_actions_set:
  "set (held_actions ms) = {a. (\<exists>m \<in> set ms. is_allow m \<and> carries m a) \<and> (\<forall>m \<in> set ms. is_allow m \<or> \<not> carries m a)}"
  by (auto simp: held_actions_def Let_def is_deny_def)

lemma effective_flags_eq: "effective_flags amb K st user_id rid = Inr (map (\<lambda>a. (flag_of a, holds_action amb K st user_id rid a)) ACTIONS)"
proof (cases "user_id = []")
  case True
  then show ?thesis by (simp add: effective_flags_def holds_action_def del: append.simps)
next
  case False
  obtain es where es: "get_active_grants_for_principal_resource amb K st user_id rid = Inr es" "fst ` set es = held amb K st user_id rid"
    by (rule active_grants_total)
  have "a \<in> set (held_actions (live_masks es)) \<longleftrightarrow> holds_action amb K st user_id rid a" if "a \<in> set ACTIONS" for a
    using that False unfolding held_actions_set live_masks_held [OF es(2)] holds_action_def by auto
  with False es(1) show ?thesis by (simp add: effective_flags_def Let_def del: append.simps)
qed

lemma flag_on_flags: "a \<in> set actions \<Longrightarrow> flag_on (map (\<lambda>a. (flag_of a, P a)) actions) (flag_of a) = P a"
  by (induction actions) (auto simp: flag_on_def)

section \<open>Correctness\<close>

text \<open>What a user effectively holds is deny-first and order-free: a flag is on exactly when some active grant
  of the user on the resource allows the action and none of their grants there that is not an allow
  names it; without a user nothing is held. \<open>user_has_any_action\<close> on one action is the same answer.\<close>

theorem effective_flags_exact:
  "effective_flags amb K st user_id rid = Inr (map (\<lambda>a. (flag_of a, holds_action amb K st user_id rid a)) ACTIONS)
   \<and> user_has_any_action amb K st user_id rid [a] = Inr (holds_action amb K st user_id rid a)"
proof
  show "effective_flags amb K st user_id rid = Inr (map (\<lambda>a. (flag_of a, holds_action amb K st user_id rid a)) ACTIONS)"
    by (rule effective_flags_eq)
  obtain es where es: "get_active_grants_for_principal_resource amb K st user_id rid = Inr es" "fst ` set es = held amb K st user_id rid"
    by (rule active_grants_total)
  show "user_has_any_action amb K st user_id rid [a] = Inr (holds_action amb K st user_id rid a)"
    by (simp add: user_has_any_action_def es(1) list_ex_iff live_masks_held [OF es(2)] holds_action_def is_deny_def)
      (auto simp del: append.simps)
qed

lemma pick_flags_total:
  "set (map fst fs) \<subseteq> dom (map_of allowed) \<Longrightarrow> pick_flags allowed fs = Inr (map (\<lambda>(f, _). (f, the (map_of allowed f))) fs)"
  by (induction fs) (auto split: option.splits)

text \<open>(C13) Nobody grants what they do not hold: the clamp answers, for each requested flag, whether it was asked
  for and its issuer holds it on the resource, in the order asked and nothing else. A flag outside the
  vocabulary is a \<open>KeyError\<close>.\<close>

theorem clamp_is_the_meet:
  assumes "fs = map (\<lambda>a. (flag_of a, P a)) actions" "set actions \<subseteq> set ACTIONS"
  shows "clamp_to_issuer amb K st issuer rid fs
    = Inr (map (\<lambda>a. (flag_of a, P a \<and> holds_action amb K st issuer rid a)) actions)"
proof -
  let ?m = "Mask_and (from_flags (flag_on fs) True) (from_flags (flag_on (map (\<lambda>a. (flag_of a, holds_action amb K st issuer rid a)) ACTIONS)) True)"
  have flag: "flag_on fs (flag_of a) = P a" if "a \<in> set actions" for a
    using flag_on_flags [OF that] by (simp add: assms(1) del: append.simps)
  have "map_of (to_flags ?m) (flag_of a) = Some (P a \<and> holds_action amb K st issuer rid a)" if "a \<in> set actions" for a
    using that assms(2) flag [OF that] by (auto simp: to_flags_carries flag_on_flags simp del: append.simps)
  moreover from this have "set (map fst fs) \<subseteq> dom (map_of (to_flags ?m))" using assms(1) by (auto simp del: append.simps)
  ultimately show ?thesis
    by (simp add: clamp_to_issuer_def effective_flags_eq pick_flags_total del: append.simps) (simp add: assms(1) del: append.simps)
qed

theorem clamp_is_the_meet_witness:
  "clamp_to_issuer sample_ambient sample_key (empty_lattice ''o'' 4) ''ann'' ''box'' [(''can_read'', True), (''can_admin'', True)]
     = Inr [(''can_read'', False), (''can_admin'', False)]"
proof -
  have "\<not> holds_action sample_ambient sample_key (empty_lattice ''o'' 4) ''ann'' ''box'' a" for a
    by (simp add: holds_action_def held_def get_active_grants_for_principal_resource_def grant_docs_by_eq grant_rows_by_def
        rows_by_id_def empty_lattice_def)
  with clamp_is_the_meet [of "[(''can_read'', True), (''can_admin'', True)]" "\<lambda>_. True" "[''read'', ''admin'']" sample_ambient sample_key
      "empty_lattice ''o'' 4" "''ann''" "''box''"]
  show ?thesis by (simp add: ACTIONS_def)
qed

section \<open>Invites on the ledger\<close>

lemma sealed_doc_get:
  assumes "seal_fields K names d = Inr d'" "k \<noteq> SEALED" "k \<notin> set names"
  shows "dget d' k = dget d k"
  using assms by (auto simp: seal_fields_def Let_def rbind_eq_Inr dget_dpops split: if_splits)


lemma grant_doc_get:
  assumes "to_grant_doc K ent = Inr d" "k \<notin> set (SEALED # ''_type'' # ''content_type'' # GRANT_SEALED_FIELDS)"
  shows "dget d k = dget (Grant_to_dict (fst ent)) k"
proof -
  from assms(1) obtain d' where d': "to_lattice_doc K ent = Inr d'" "d = dset ''content_type'' (PStr GRANT_CT) d'"
    by (auto simp: to_grant_doc_def rbind_eq_Inr)
  with assms(2) have "dget d k = dget d' k" by simp
  also have "\<dots> = dget (dict_items (strip_nones (PDict (Grant_to_dict (fst ent))))) k"
    using sealed_doc_get [OF d'(1) [unfolded to_lattice_doc_def Let_def], of k] assms(2) by (auto split: if_splits)
  also have "\<dots> = dget (Grant_to_dict (fst ent)) k" by (fold strip_doc_def) (rule dget_grant_doc)
  finally show ?thesis .
qed

text \<open>Any grant write moves the ledger at the grant's own id and nowhere else.\<close>

lemma write_grant_frame:
  assumes "create_grant H K ent st = Inr st'" "gid \<noteq> g_id (fst ent)"
  shows "ledger st' gid = ledger st gid"
proof -
  from assms(1) obtain d r where d: "to_grant_doc K ent = Inr d" "put_artifact H d True False st = Inr (r, st')"
    by (auto simp: create_grant_def rbind_eq_Inr)
  have "dget d ''content_ref'' = PNone" "dtext d ''id'' = g_id (fst ent)"
    using grant_doc_get [OF d(1), of "''content_ref''"] grant_doc_get [OF d(1), of "''id''"]
    by (simp_all add: SEALED_def GRANT_SEALED_FIELDS_def dtext_def) (simp_all add: Grant_to_dict_def dget_Cons)
  with d(2) assms(2) show ?thesis
    by (auto elim!: put_row simp: ledger_def)
qed

lemma grantee_lookup_set:
  assumes "vertices_keyed st" "gid \<noteq> []"
  obtains es where "get_active_grants_for_grantee amb K st gid ty = Inr es"
    "set es = from_lattice_doc amb K ` {d \<in> ran (ledger st). dget d ''grantee_id'' = PStr gid \<and> dget d ''state'' = PStr ''active''
       \<and> dget d ''grantee_type'' = PStr ty \<and> unexpired amb d}"
proof -
  let ?C = "\<lambda>d. dget d ''state'' = PStr ''active'' \<and> dget d ''grantee_type'' = PStr ty \<and> unexpired amb d"
  have "set (grant_rows_by st ''grantee_id'' gid) = {d \<in> ran (ledger st). dget d ''grantee_id'' = PStr gid}"
    unfolding set_grant_rows_by ran_ledger [OF assms(1)] by blast
  then have "set (map (from_lattice_doc amb K) (filter ?C (grant_rows_by st ''grantee_id'' gid)))
      = from_lattice_doc amb K ` {d \<in> ran (ledger st). dget d ''grantee_id'' = PStr gid \<and> ?C d}" by auto
  then show thesis using assms(2) that by (simp add: get_active_grants_for_grantee_def grant_docs_by_eq)
qed

text \<open>The entity of a stored grant carries the id it is filed under.\<close>

definition ledger_filed :: "lattice \<Rightarrow> bool" where
  "ledger_filed st \<longleftrightarrow> (\<forall>gid d. ledger st gid = Some d \<longrightarrow> gid \<noteq> [] \<and> dget d ''id'' = PStr gid)"

lemma decoded_id:
  assumes "dget d ''id'' = PStr gid" "gid \<noteq> []"
  shows "g_id (fst (from_lattice_doc amb K d)) = gid"
  using decoded_field [OF assms, of K] assms(2)
  by (simp add: from_lattice_doc_def Let_def Grant_from_dict_def Grant_init_def dtext_def str_or_def LATTICE_INTERNAL_def SEALED_def)

lemma found_invite:
  assumes "lookup_active_invite sha256 amb K st tok = Inr (invite, blob)" "vertices_keyed st" "ledger_filed st" "hash_token sha256 tok \<noteq> []"
  obtains d where "ledger st (g_id invite) = Some d" "from_lattice_doc amb K d = (invite, blob)"
    "dget d ''grantee_id'' = PStr (hash_token sha256 tok)" "dget d ''state'' = PStr ''active''"
proof -
  obtain es where es: "get_active_grants_for_grantee amb K st (hash_token sha256 tok) ''invite'' = Inr es"
    "set es = from_lattice_doc amb K ` {d \<in> ran (ledger st). dget d ''grantee_id'' = PStr (hash_token sha256 tok)
       \<and> dget d ''state'' = PStr ''active'' \<and> dget d ''grantee_type'' = PStr ''invite'' \<and> unexpired amb d}"
    by (rule grantee_lookup_set [OF assms(2,4)])
  from assms(1) es(1) have "(invite, blob) \<in> set es"
    by (auto simp: lookup_active_invite_def split: list.splits if_splits)
  with es(2) obtain d where d: "from_lattice_doc amb K d = (invite, blob)" "d \<in> ran (ledger st)"
    "dget d ''grantee_id'' = PStr (hash_token sha256 tok)" "dget d ''state'' = PStr ''active''" by auto
  from d(2) obtain gid where gid: "ledger st gid = Some d" by (auto simp: ran_def)
  with assms(3) decoded_id [of d gid amb K] d(1) have "g_id invite = gid" by (auto simp: ledger_filed_def)
  with gid d that show thesis by blast
qed

lemma claimed_grant_facts:
  assumes "fresh_id amb \<noteq> []" "now_iso amb \<noteq> []"
  shows "wf_grant (claimed_grant amb user_id invite)" "g_id (claimed_grant amb user_id invite) = fresh_id amb"
    "grantee_id (claimed_grant amb user_id invite) = user_id" "resource_id (claimed_grant amb user_id invite) = resource_id invite"
    "grantee_type (claimed_grant amb user_id invite) = ''user''" "gstate (claimed_grant amb user_id invite) = ''active''"
    "expires_at (claimed_grant amb user_id invite) = expires_at invite" "grant_is_allow (claimed_grant amb user_id invite)"
    "get_flag (claimed_grant amb user_id invite) f = get_flag invite f"
  using assms by (simp_all add: claimed_grant_def Grant_init_wf)
    (simp_all add: Grant_init_def Let_def GRANT_ARGS_def str_or_def grant_is_allow_def effect_of_def get_flag_def)

text \<open>The grant a claim writes, and that a later write of the invite leaves it.\<close>

definition claim_written :: "ambient \<Rightarrow> string \<Rightarrow> grant \<Rightarrow> lattice \<Rightarrow> bool" where
  "claim_written amb user_id invite st \<longleftrightarrow> (\<exists>d. ledger st (fresh_id amb) = Some d \<and> dget d ''grantee_id'' = PStr user_id
     \<and> dget d ''grantee_type'' = PStr ''user'' \<and> dget d ''state'' = PStr ''active'' \<and> dget d ''resource_id'' = PStr (resource_id invite)
     \<and> is_allow (doc_mask d) \<and> (\<forall>a. carries (doc_mask d) a = carries (mask_of invite) a))"

lemma claim_first_write:
  assumes "fernet_law K" "fresh_id amb \<noteq> []" "now_iso amb \<noteq> []"
  obtains st1 d1 where "create_grant H K (claimed_grant amb user_id invite, PNone) st = Inr st1"
    "ledger st1 = (ledger st)(fresh_id amb \<mapsto> d1)" "claim_written amb user_id invite st1"
    "vertices_keyed st \<longrightarrow> vertices_keyed st1" "dget d1 ''grantee_type'' = PStr ''user''"
proof -
  note f = claimed_grant_facts [OF assms(2,3), of user_id invite]
  obtain d n st1 where p: "to_grant_doc K (claimed_grant amb user_id invite, PNone) = Inr d"
    "create_grant H K (claimed_grant amb user_id invite, PNone) st = Inr st1"
    "ledger st1 = (ledger st)(g_id (claimed_grant amb user_id invite) \<mapsto> stored_doc (doc_of st (g_id (claimed_grant amb user_id invite))) d (st_origin st) n)"
    "vertices_keyed st \<longrightarrow> vertices_keyed st1" by (rule put_grant [OF assms(1) f(1)])
  note w = written_mask [OF assms(1) p(1)]
  have "claim_written amb user_id invite st1"
    unfolding claim_written_def using p(3) w f by (simp del: append.simps)
  with p w f show thesis by (intro that) simp_all
qed

text \<open>(C14) A one-time invite is spent by its first claim: when one active document carries the token's hash and
  the invite admits one claim, a claim that succeeds writes the invite's own authority to the claimant,
  on the invite's resource, and from then on no lookup of the token finds an invite, at any time.\<close>

theorem single_claim_spends:
  assumes "fernet_law K" "fresh_id amb \<noteq> []" "now_iso amb \<noteq> []" "vertices_keyed st" "ledger_filed st" "hash_token sha256 tok \<noteq> []"
    and "lookup_active_invite sha256 amb K st tok = Inr (invite, PNone)" "max_claims invite = Some 1" "claims_count invite = 0"
    and "\<forall>gid d. ledger st gid = Some d \<and> dget d ''grantee_id'' = PStr (hash_token sha256 tok) \<longrightarrow> gid = g_id invite"
    and "ledger st (fresh_id amb) = None" "has_target invite \<longrightarrow> target_matches user_id invite email"
  shows "\<exists>st'. claim_invite H sha256 amb K user_id tok email st = (Inr (claimed_grant amb user_id invite), st')
    \<and> claim_written amb user_id invite st' \<and> lookup_active_invite sha256 amb' K st' tok = Inl InviteNotFound"
proof -
  obtain d where d: "ledger st (g_id invite) = Some d" "from_lattice_doc amb K d = (invite, PNone)"
    "dget d ''grantee_id'' = PStr (hash_token sha256 tok)" "dget d ''state'' = PStr ''active''"
    by (rule found_invite [OF assms(7,4,5,6)])
  have ne: "fresh_id amb \<noteq> g_id invite" using d(1) assms(11) by auto
  obtain st1 d1 where s1: "create_grant H K (claimed_grant amb user_id invite, PNone) st = Inr st1"
    "ledger st1 = (ledger st)(fresh_id amb \<mapsto> d1)" "claim_written amb user_id invite st1" "vertices_keyed st1"
    "dget d1 ''grantee_type'' = PStr ''user''"
    using claim_first_write [OF assms(1-3)] assms(4) by metis
  define sp where "sp = spent_invite amb user_id invite"
  have sp: "g_id sp = g_id invite" "gstate sp = ''revoked''" "wf_grant sp"
    using wf_decoded [OF assms(2,3), of K d] d(2) assms(3) by (simp_all add: sp_def spent_invite_def Let_def assms(8) wf_grant_def effect_of_def)
  obtain d2 n st2 where s2: "to_grant_doc K (sp, PNone) = Inr d2" "create_grant H K (sp, PNone) st1 = Inr st2"
    "ledger st2 = (ledger st1)(g_id sp \<mapsto> stored_doc (doc_of st1 (g_id sp)) d2 (st_origin st1) n)"
    "vertices_keyed st1 \<longrightarrow> vertices_keyed st2" by (rule put_grant [OF assms(1) sp(3)])
  define d2' where "d2' = stored_doc (doc_of st1 (g_id sp)) d2 (st_origin st1) n"
  have rev: "dget d2' ''state'' = PStr ''revoked''" using written_mask(4) [OF assms(1) s2(1)] sp(2) by (simp add: d2'_def)
  have led: "ledger st2 = (ledger st)(fresh_id amb \<mapsto> d1, g_id invite \<mapsto> d2')" using s2(3) s1(2) sp(1) by (simp add: d2'_def)
  have "claim_written amb user_id invite st2" using s1(2,3) led ne unfolding claim_written_def by simp
  moreover have "claim_invite H sha256 amb K user_id tok email st = (Inr (claimed_grant amb user_id invite), st2)"
    using assms(7-9,12) s1(1) s2(2) by (auto simp: claim_invite_def verify_target_match_def update_is_create sp_def [symmetric])
  moreover have "lookup_active_invite sha256 amb' K st2 tok = Inl InviteNotFound"
  proof -
    obtain es where es: "get_active_grants_for_grantee amb' K st2 (hash_token sha256 tok) ''invite'' = Inr es"
      "set es = from_lattice_doc amb' K ` {x \<in> ran (ledger st2). dget x ''grantee_id'' = PStr (hash_token sha256 tok)
         \<and> dget x ''state'' = PStr ''active'' \<and> dget x ''grantee_type'' = PStr ''invite'' \<and> unexpired amb' x}"
      by (rule grantee_lookup_set [of st2 "hash_token sha256 tok" amb' K "''invite''"]) (use s2(4) s1(4) assms(6) in simp_all)
    have "x = d1 \<or> x = d2' \<or> dget x ''grantee_id'' \<noteq> PStr (hash_token sha256 tok)" if "x \<in> ran (ledger st2)" for x
      using that assms(10) unfolding led ran_def by (auto split: if_splits)
    moreover have "dget d1 ''grantee_type'' \<noteq> PStr ''invite''" "dget d2' ''state'' \<noteq> PStr ''active''"
      using rev s1(5) by simp_all
    ultimately have "set es = {}" unfolding es(2) by blast
    with es(1) show ?thesis by (simp add: lookup_active_invite_def)
  qed
  ultimately show ?thesis by blast
qed

text \<open>One invite in a store: addressed to somebody by mail when \<open>blob\<close> seals a target this node cannot open.\<close>

definition invite_doc :: "pyval \<Rightarrow> pyval \<Rightarrow> doc" where
  "invite_doc target_type blob =
     [(''id'', PStr ''i1''), (''content_type'', PStr GRANT_CT), (''grantee_id'', PStr ''41''), (''grantee_type'', PStr ''invite''),
      (''resource_id'', PStr ''box''), (''state'', PStr ''active''), (''effect'', PStr ''allow''), (''can_read'', PBool True),
      (''max_claims'', PInt 1), (''target_entity_type'', target_type), (SEALED, blob)]"

definition invite_store :: "pyval \<Rightarrow> pyval \<Rightarrow> lattice" where
  "invite_store target_type blob = (empty_lattice ''o'' 4)\<lparr> vertices :=
     [(''i1'', (sample_row ''i1'' 1)\<lparr> v_ct := Some GRANT_CT, v_doc := invite_doc target_type blob \<rparr>)] \<rparr>"

lemma invite_store_facts:
  "vertices_keyed (invite_store ty blob)" "ledger (invite_store ty blob) = [''i1'' \<mapsto> invite_doc ty blob]"
  "ledger_filed (invite_store ty blob)" "hash_token (\<lambda>_. ''A'') tok = ''41''"
proof -
  show l: "ledger (invite_store ty blob) = [''i1'' \<mapsto> invite_doc ty blob]"
    by (simp add: fun_eq_iff ledger_def invite_store_def)
  show "ledger_filed (invite_store ty blob)" unfolding ledger_filed_def l by (simp add: invite_doc_def dget_Cons)
  show "vertices_keyed (invite_store ty blob)" by (simp add: vertices_keyed_def invite_store_def)
  have "hex_text ''A'' = ''41''" by code_simp
  then show "hash_token (\<lambda>_. ''A'') tok = ''41''" by (simp add: hash_token_def)
qed

lemma invite_store_lookup:
  assumes "from_lattice_doc sample_ambient sample_key (invite_doc ty blob) = (invite, b)"
  shows "lookup_active_invite (\<lambda>_. ''A'') sample_ambient sample_key (invite_store ty blob) tok = Inr (invite, b)"
proof -
  have d: "dget (invite_doc ty blob) ''grantee_id'' = PStr ''41''" "dget (invite_doc ty blob) ''state'' = PStr ''active''"
    "dget (invite_doc ty blob) ''grantee_type'' = PStr ''invite''" "unexpired sample_ambient (invite_doc ty blob)"
    by (simp_all add: invite_doc_def dget_Cons unexpired_def SEALED_def)
  have "grant_rows_by (invite_store ty blob) ''grantee_id'' ''41'' = [invite_doc ty blob]"
    using d(1) by (simp add: grant_rows_by_def rows_by_id_def invite_store_def)
  with d assms have "get_active_grants_for_grantee sample_ambient sample_key (invite_store ty blob) ''41'' ''invite'' = Inr [(invite, b)]"
    by (simp add: get_active_grants_for_grantee_def grant_docs_by_eq)
  moreover have "gstate invite = ''active''" "grantee_type invite = ''invite''"
    using assms decoded_field [OF d(2), of sample_key] decoded_field [OF d(3), of sample_key]
    by (auto simp: from_lattice_doc_def Let_def Grant_from_dict_def Grant_init_def dtext_or_get dtext_def LATTICE_INTERNAL_def SEALED_def)
  ultimately show ?thesis by (simp add: lookup_active_invite_def invite_store_facts)
qed

theorem single_claim_spends_witness:
  "\<exists>g st'. claim_invite sample_H (\<lambda>_. ''A'') sample_ambient sample_key ''ann'' ''tok'' [] (invite_store PNone PNone) = (Inr g, st')
    \<and> lookup_active_invite (\<lambda>_. ''A'') sample_ambient sample_key st' ''tok'' = Inl InviteNotFound"
proof -
  obtain inv b where i: "from_lattice_doc sample_ambient sample_key (invite_doc PNone PNone) = (inv, b)" by fastforce
  have f: "b = PNone" "g_id inv = ''i1''" "max_claims inv = Some 1" "claims_count inv = 0" "target_entity inv = None"
    using i by (auto simp: from_lattice_doc_def invite_doc_def LATTICE_INTERNAL_def unseal_fields_def SEALED_def dget_Cons
        dpop_def Grant_from_dict_def Grant_init_def dflag_def Let_def dtext_def str_or_def)
  have "\<forall>gid d. ledger (invite_store PNone PNone) gid = Some d \<and> dget d ''grantee_id'' = PStr (hash_token (\<lambda>_. ''A'') ''tok'') \<longrightarrow> gid = g_id inv"
    by (simp add: invite_store_facts f)
  moreover have "fresh_id sample_ambient \<noteq> []" "now_iso sample_ambient \<noteq> []" "ledger (invite_store PNone PNone) (fresh_id sample_ambient) = None"
    by (simp_all add: sample_ambient_def invite_store_facts)
  moreover have "has_target inv \<longrightarrow> target_matches ''ann'' inv []" by (simp add: has_target_def f)
  moreover have "lookup_active_invite (\<lambda>_. ''A'') sample_ambient sample_key (invite_store PNone PNone) ''tok'' = Inr (inv, PNone)"
    using invite_store_lookup [OF i] f(1) by simp
  ultimately show ?thesis
    using single_claim_spends [OF sample_fernet _ _ invite_store_facts(1,3), of sample_ambient "\<lambda>_. ''A''" "''tok''" PNone PNone inv "''ann''" "[]"
        sample_H sample_ambient] f(3,4) by (auto simp: invite_store_facts)
qed

text \<open>An invite whose target this node cannot open is open to everyone: the target's address is one of the
  sealed fields and its kind is not, so on a node with another key the invite reads as one without a
  target, no identity is checked, and whoever presents the token, under any user id and any address, is
  granted the invite's authority.\<close>

theorem unopened_target_claims_open:
  assumes "fernet_law K" "fresh_id amb \<noteq> []" "now_iso amb \<noteq> []" "vertices_keyed st" "ledger_filed st" "hash_token sha256 tok \<noteq> []"
    and "lookup_active_invite sha256 amb K st tok = Inr (invite, blob)" "target_entity invite = None"
    and "\<forall>n. max_claims invite = Some n \<longrightarrow> claims_count invite < n" "ledger st (fresh_id amb) = None"
  shows "claim_written amb user_id invite (snd (claim_invite H sha256 amb K user_id tok email st))"
proof -
  obtain d where d: "ledger st (g_id invite) = Some d" by (rule found_invite [OF assms(7,4,5,6)])
  then have ne: "fresh_id amb \<noteq> g_id invite" using assms(10) by auto
  obtain st1 where s1: "create_grant H K (claimed_grant amb user_id invite, PNone) st = Inr st1" "claim_written amb user_id invite st1"
    by (rule claim_first_write [OF assms(1-3)])
  have open_all: "\<not> has_target invite" "\<not> (case max_claims invite of None \<Rightarrow> False | Some n \<Rightarrow> n \<le> claims_count invite)"
    using assms(8,9) by (auto simp: has_target_def opt_val_def split: option.splits)
  show ?thesis
  proof (cases "update_grant H K (spent_invite amb user_id invite, blob) st1")
    case (Inl e)
    with s1 open_all assms(7) show ?thesis by (simp add: claim_invite_def)
  next
    case (Inr st2)
    have "g_id (spent_invite amb user_id invite) = g_id invite" by (simp add: spent_invite_def Let_def)
    with write_grant_frame [OF Inr [unfolded update_is_create], of "fresh_id amb"] ne have "ledger st2 (fresh_id amb) = ledger st1 (fresh_id amb)"
      by simp
    with s1(2) have "claim_written amb user_id invite st2" unfolding claim_written_def by simp
    with Inr s1(1) open_all assms(7) show ?thesis by (simp add: claim_invite_def)
  qed
qed

theorem unopened_target_claims_open_witness:
  "\<exists>invite. target_entity_type invite = Some ''email'' \<and> claim_written sample_ambient ''mallory'' invite
     (snd (claim_invite sample_H (\<lambda>_. ''A'') sample_ambient sample_key ''mallory'' ''tok'' [] (invite_store (PStr ''email'') (PStr ''other''))))"
proof -
  let ?st = "invite_store (PStr ''email'') (PStr ''other'')"
  obtain inv b where i: "from_lattice_doc sample_ambient sample_key (invite_doc (PStr ''email'') (PStr ''other'')) = (inv, b)" by fastforce
  have "seal_open sample_key ''other'' = Inl InvalidToken" by (simp add: seal_open_def sample_key_def)
  then have u: "dget (dpop SEALED (unseal_fields sample_key (filter (\<lambda>(k, _). k \<notin> set LATTICE_INTERNAL)
      (invite_doc (PStr ''email'') (PStr ''other''))))) k = dget (invite_doc (PStr ''email'') (PStr ''other'')) k"
    if "k \<notin> set LATTICE_INTERNAL" "k \<noteq> SEALED" for k
    using that by (simp add: unseal_fields_def Let_def dget_internal) (simp add: invite_doc_def dget_Cons LATTICE_INTERNAL_def SEALED_def)
  have f: "max_claims inv = Some 1" "claims_count inv = 0" "target_entity inv = None" "target_entity_type inv = Some ''email''"
  proof -
    have sel: "max_claims (Grant_from_dict amb e) = as_opt_int (dget e ''max_claims'')"
      "claims_count (Grant_from_dict amb e) = (case as_opt_int (dget e ''claims_count'') of None \<Rightarrow> 0 | Some n \<Rightarrow> n)"
      "target_entity (Grant_from_dict amb e) = as_opt_text (dget e ''target_entity'')"
      "target_entity_type (Grant_from_dict amb e) = as_opt_text (dget e ''target_entity_type'')" for amb e
      by (simp_all add: Grant_from_dict_def Grant_init_def Let_def)
    have d: "dget (invite_doc (PStr ''email'') (PStr ''other'')) ''max_claims'' = PInt 1"
      "dget (invite_doc (PStr ''email'') (PStr ''other'')) ''claims_count'' = PNone"
      "dget (invite_doc (PStr ''email'') (PStr ''other'')) ''target_entity'' = PNone"
      "dget (invite_doc (PStr ''email'') (PStr ''other'')) ''target_entity_type'' = PStr ''email''"
      by (simp_all add: invite_doc_def dget_Cons SEALED_def)
    have "inv = Grant_from_dict sample_ambient (dpop SEALED (unseal_fields sample_key (filter (\<lambda>(k, _). k \<notin> set LATTICE_INTERNAL)
        (invite_doc (PStr ''email'') (PStr ''other'')))))"
      using arg_cong [OF i, of fst] by (simp only: from_lattice_doc_def Let_def fst_conv)
    then show "max_claims inv = Some 1" "claims_count inv = 0" "target_entity inv = None" "target_entity_type inv = Some ''email''"
      by (simp_all only: sel) (subst u; simp add: d LATTICE_INTERNAL_def SEALED_def)+
  qed
  have "fresh_id sample_ambient \<noteq> []" "now_iso sample_ambient \<noteq> []" "ledger ?st (fresh_id sample_ambient) = None"
    by (simp_all add: sample_ambient_def invite_store_facts)
  then show ?thesis
    using unopened_target_claims_open [OF sample_fernet _ _ invite_store_facts(1,3) _ invite_store_lookup [OF i]] f
    by (auto simp: invite_store_facts)
qed

end
