(* ===== verification/Grant_Keys.thy ===== *)
theory Grant_Keys
  imports Grant_Service
begin

text \<open>
  \<open>services/grant_key_service.py\<close>: bearer credentials made of grants. A key is a grant whose grantee is the
  hash of a token; a bundle is a grant whose members are grants to it. Minting and adding a member are
  clamped to the issuer, resolving a key masks every member by the ceiling above it and by what its
  issuer holds now, and every change is translated to the acting principals whose memoized reach it
  affects (\<open>None\<close>: all of them).

  The raw token that \<open>secrets\<close> draws is an argument without its prefix. The memo that \<open>_invalidate\<close> clears
  lives in \<open>search/mantle/wiring.py\<close>; the model returns the ids it is told to clear. \<open>list_keys_issued_by\<close>
  is a filter of \<open>query_documents\<close> and is not modelled.
\<close>

section \<open>Definitions\<close>

definition KEY_PREFIX :: string where "KEY_PREFIX = ''agk_''"

definition MAX_BUNDLE_DEPTH :: nat where "MAX_BUNDLE_DEPTH = 16"

definition generate_token :: "string \<Rightarrow> string" where
  "generate_token drawn = KEY_PREFIX @ drawn"

definition token_hint :: "string \<Rightarrow> string" where
  "token_hint raw_token = (if 4 \<le> length raw_token then drop (length raw_token - 4) raw_token else [])"

definition flags_from :: "(string \<times> bool) list \<Rightarrow> string \<Rightarrow> (string \<times> bool) list result" where
  "flags_from flags role =
     rbind (if role \<noteq> [] then permissions_for_role role else Inr flags) (\<lambda>resolved.
       Inr (map (\<lambda>a. (flag_of a, flag_on resolved (flag_of a))) ACTIONS))"

definition open_ceiling :: "(string \<times> bool) list" where
  "open_ceiling = map (\<lambda>a. (flag_of a, True)) ACTIONS"

text \<open>The bundle chain from a member up to its root key, at most \<open>MAX_BUNDLE_DEPTH\<close> steps.\<close>

fun root_walk :: "ambient \<Rightarrow> node_key \<Rightarrow> lattice \<Rightarrow> nat \<Rightarrow> string \<Rightarrow> string list \<Rightarrow> string list option result" where
  "root_walk amb K st 0 current ids = Inr None"
| "root_walk amb K st (Suc n) current ids =
     (if current = [] \<or> current \<in> set ids then Inr None
      else rbind (get_grant_by_id amb K st current) (\<lambda>parent.
             case parent of
               None \<Rightarrow> Inr None
             | Some (p, _) \<Rightarrow>
                 if grantee_type p \<noteq> GRANTEE_GRANT then Inr (Some (ids @ [current]))
                 else root_walk amb K st n (grantee_id p) (ids @ [current])))"

definition principal_ids_for :: "ambient \<Rightarrow> node_key \<Rightarrow> lattice \<Rightarrow> grant \<Rightarrow> string list option result" where
  "principal_ids_for amb K st g =
     (if grantee_type g = GRANTEE_GRANT_KEY then Inr (if g_id g \<noteq> [] then Some [g_id g] else None)
      else if grantee_type g = GRANTEE_GRANT then root_walk amb K st MAX_BUNDLE_DEPTH (grantee_id g) []
      else if grantee_type g = GRANTEE_GROUP then Inr None
      else if grantee_type g = GRANTEE_INVITE then Inr None
      else Inr (if grantee_id g \<noteq> [] then Some [grantee_id g] else None))"

definition mint ::
  "hashlib \<Rightarrow> (string \<Rightarrow> string) \<Rightarrow> ambient \<Rightarrow> node_key \<Rightarrow> string \<Rightarrow> string \<Rightarrow> string \<Rightarrow> string \<Rightarrow> (string \<times> bool) list \<Rightarrow> string
     \<Rightarrow> string option \<Rightarrow> string option \<Rightarrow> lattice \<Rightarrow> (grant \<times> lattice) result" where
  "mint H sha256 amb K raw_token user_id name rid flags role expires notes st =
     rbind (if rid \<noteq> [] then rbind (flags_from flags role) (clamp_to_issuer amb K st user_id rid)
            else if flags \<noteq> [] \<or> role \<noteq> [] then flags_from flags role else Inr open_ceiling) (\<lambda>bits.
       (let g = Grant_init amb (set_flags bits (GRANT_ARGS\<lparr> g_id := fresh_id amb, resource_id := rid,
                  grantee_type := GRANTEE_GRANT_KEY, grantee_id := hash_token sha256 raw_token, granted_by := user_id,
                  key_hint := Some (token_hint raw_token), gname := Some name, gnotes := notes, gstate := STATE_ACTIVE,
                  granted_at := now_iso amb, expires_at := expires, created_time := now_iso amb,
                  modified_time := now_iso amb \<rparr>)) in
        rbind (create_grant H K (g, PNone) st) (\<lambda>st'. Inr (g, st'))))"

text \<open>The ids to clear are read after the write lands; when that read raises the member stands.\<close>

definition add_member ::
  "hashlib \<Rightarrow> ambient \<Rightarrow> node_key \<Rightarrow> string \<Rightarrow> string \<Rightarrow> string \<Rightarrow> (string \<times> bool) list \<Rightarrow> string \<Rightarrow> string option \<Rightarrow> string option
     \<Rightarrow> lattice \<Rightarrow> (grant \<times> string list option) result \<times> lattice" where
  "add_member H amb K bundle_id rid by_id flags role name expires st =
     (case rbind (flags_from flags role) (clamp_to_issuer amb K st by_id rid) of
        Inl e \<Rightarrow> (Inl e, st)
      | Inr bits \<Rightarrow>
          (let g = Grant_init amb (set_flags bits (GRANT_ARGS\<lparr> g_id := fresh_id amb, resource_id := rid,
                     grantee_type := GRANTEE_GRANT, grantee_id := bundle_id, granted_by := by_id, gname := name,
                     gstate := STATE_ACTIVE, granted_at := now_iso amb, expires_at := expires,
                     created_time := now_iso amb, modified_time := now_iso amb \<rparr>)) in
           case create_grant H K (g, PNone) st of
             Inl e \<Rightarrow> (Inl e, st)
           | Inr st' \<Rightarrow> (rbind (principal_ids_for amb K st' g) (\<lambda>ids. Inr (g, ids)), st')))"

definition list_members :: "ambient \<Rightarrow> node_key \<Rightarrow> lattice \<Rightarrow> string \<Rightarrow> grant list result" where
  "list_members amb K st bundle_id =
     rbind (get_active_grants_for_grantee amb K st bundle_id GRANTEE_GRANT) (\<lambda>es. Inr (map fst es))"

definition authenticate ::
  "(string \<Rightarrow> string) \<Rightarrow> ambient \<Rightarrow> node_key \<Rightarrow> lattice \<Rightarrow> string \<Rightarrow> grant_entity option result" where
  "authenticate sha256 amb K st raw_token =
     (if raw_token = [] \<or> \<not> starts_with KEY_PREFIX raw_token then Inr None
      else rbind (get_active_grants_for_grantee amb K st (hash_token sha256 raw_token) GRANTEE_GRANT_KEY) (\<lambda>matches.
             Inr (case matches of [] \<Rightarrow> None | e # _ \<Rightarrow> Some e)))"

definition as_held_now :: "ambient \<Rightarrow> node_key \<Rightarrow> lattice \<Rightarrow> grant \<Rightarrow> grant result" where
  "as_held_now amb K st g =
     (if resource_id g = [] \<or> granted_by g = [] \<or> \<not> grant_is_allow g then Inr g
      else rbind (effective_flags amb K st (granted_by g) (resource_id g)) (\<lambda>eff.
             Inr (masked_by amb g (Grant_init amb (set_flags eff (GRANT_ARGS\<lparr> resource_id := resource_id g,
               grantee_type := GRANTEE_USER, grantee_id := granted_by g, granted_by := granted_by g \<rparr>))))))"

type_synonym bundle_walk = "string list \<times> grant list \<times> (grant \<times> grant) list"

fun expand_members :: "ambient \<Rightarrow> node_key \<Rightarrow> lattice \<Rightarrow> grant \<Rightarrow> grant list \<Rightarrow> bundle_walk \<Rightarrow> bundle_walk result" where
  "expand_members amb K st ceiling [] w = Inr w"
| "expand_members amb K st ceiling (member # ms) (seen, eff, nxt) =
     (if g_id member \<in> set seen then expand_members amb K st ceiling ms (seen, eff, nxt)
      else
        (let masked = masked_by amb member ceiling in
         rbind (if resource_id masked \<noteq> [] then rbind (as_held_now amb K st masked) (\<lambda>h. Inr (eff @ [h])) else Inr eff) (\<lambda>eff.
           expand_members amb K st ceiling ms (g_id member # seen, eff, nxt @ [(member, masked)]))))"

fun expand_level :: "ambient \<Rightarrow> node_key \<Rightarrow> lattice \<Rightarrow> (grant \<times> grant) list \<Rightarrow> bundle_walk \<Rightarrow> bundle_walk result" where
  "expand_level amb K st [] w = Inr w"
| "expand_level amb K st ((bundle, ceiling) # fs) w =
     rbind (list_members amb K st (g_id bundle)) (\<lambda>ms.
     rbind (expand_members amb K st ceiling ms w) (\<lambda>w. expand_level amb K st fs w))"

fun resolve_loop ::
  "ambient \<Rightarrow> node_key \<Rightarrow> lattice \<Rightarrow> nat \<Rightarrow> (grant \<times> grant) list \<Rightarrow> string list \<Rightarrow> grant list \<Rightarrow> grant list result" where
  "resolve_loop amb K st 0 frontier seen eff = Inr eff"
| "resolve_loop amb K st (Suc n) frontier seen eff =
     (if frontier = [] then Inr eff
      else rbind (expand_level amb K st frontier (seen, eff, [])) (\<lambda>(seen, eff, nxt).
             resolve_loop amb K st n nxt seen eff))"

definition resolve :: "ambient \<Rightarrow> node_key \<Rightarrow> lattice \<Rightarrow> grant \<Rightarrow> grant list result" where
  "resolve amb K st root =
     rbind (if resource_id root \<noteq> [] then rbind (as_held_now amb K st root) (\<lambda>h. Inr [h]) else Inr []) (\<lambda>eff.
       resolve_loop amb K st MAX_BUNDLE_DEPTH [(root, root)] [g_id root] eff)"

text \<open>\<open>touch\<close> never fails a request: a refused write is swallowed.\<close>

definition touch :: "hashlib \<Rightarrow> ambient \<Rightarrow> node_key \<Rightarrow> grant_entity \<Rightarrow> lattice \<Rightarrow> grant_entity \<times> lattice" where
  "touch H amb K root st =
     (let root = (fst root\<lparr> last_used_at := Some (now_iso amb) \<rparr>, snd root) in
      (root, case update_grant H K root st of Inl _ \<Rightarrow> st | Inr st' \<Rightarrow> st'))"

definition revoke ::
  "hashlib \<Rightarrow> ambient \<Rightarrow> node_key \<Rightarrow> grant_entity \<Rightarrow> string \<Rightarrow> lattice \<Rightarrow> string list option result \<times> lattice" where
  "revoke H amb K ent revoked_by_id st =
     (let g = fst ent\<lparr> gstate := STATE_REVOKED, revoked_by := Some revoked_by_id, revoked_at := Some (now_iso amb),
                modified_time := now_iso amb \<rparr> in
      case update_grant H K (g, snd ent) st of
        Inl e \<Rightarrow> (Inl e, st)
      | Inr st' \<Rightarrow> (principal_ids_for amb K st' g, st'))"

section \<open>Resolving a key\<close>

lemma masked_by_granted_by [simp]: "granted_by (masked_by amb g c) = granted_by g"
  by (simp add: masked_by_def from_to_dict Grant_init_def Let_def)

lemma masked_by_effect_of: "effect_of g \<noteq> [] \<Longrightarrow> effect_of (masked_by amb g c) \<noteq> []"
  by (simp add: masked_by_effect)

lemma meet_below: "Mask_and a b \<le> a" "Mask_and a b \<le> b"
  by (simp_all add: Mask_le_iff)

lemma decoded_effect: "effect_of (fst (from_lattice_doc amb K d)) \<noteq> []"
  by (simp add: from_lattice_doc_def Let_def Grant_from_dict_def effect_of_init str_or_def)

lemma list_members_total:
  obtains ms where "list_members amb K st bid = Inr ms" "\<forall>m \<in> set ms. effect_of m \<noteq> []"
  by (rule that [of "map (fst \<circ> from_lattice_doc amb K) (filter (\<lambda>d. dget d ''state'' = PStr ''active''
        \<and> dget d ''grantee_type'' = PStr ''grant'' \<and> unexpired amb d) (if bid = [] then [] else grant_rows_by st ''grantee_id'' bid))"])
    (auto simp: list_members_def get_active_grants_for_grantee_def grant_docs_by_eq decoded_effect)

text \<open>What every effective grant of a key satisfies: it names a resource, it is below the root's authority,
  and what it allows its issuer holds now.\<close>

definition bounded_grant :: "ambient \<Rightarrow> node_key \<Rightarrow> lattice \<Rightarrow> mask \<Rightarrow> grant \<Rightarrow> bool" where
  "bounded_grant amb K st bnd g \<longleftrightarrow> resource_id g \<noteq> [] \<and> mask_of g \<le> bnd
     \<and> (granted_by g \<noteq> [] \<longrightarrow> (\<forall>a. allows (mask_of g) a \<longrightarrow> holds_action amb K st (granted_by g) (resource_id g) a))"

lemma as_held_now_bounded:
  assumes "effect_of g \<noteq> []" "resource_id g \<noteq> []" "mask_of g \<le> bnd"
  obtains h where "as_held_now amb K st g = Inr h" "bounded_grant amb K st bnd h"
proof (cases "granted_by g = [] \<or> \<not> grant_is_allow g")
  case True
  with assms show thesis by (intro that [of g]) (auto simp: as_held_now_def bounded_grant_def simp del: append.simps)
next
  case False
  define c where "c = Grant_init amb (set_flags (map (\<lambda>a. (flag_of a, holds_action amb K st (granted_by g) (resource_id g) a)) ACTIONS)
    (GRANT_ARGS\<lparr> resource_id := resource_id g, grantee_type := GRANTEE_USER, grantee_id := granted_by g, granted_by := granted_by g \<rparr>))"
  have run: "as_held_now amb K st g = Inr (masked_by amb g c)"
    using False assms(2) by (simp add: as_held_now_def effective_flags_eq c_def del: append.simps)
  have m: "mask_of (masked_by amb g c) = Mask_and (mask_of g) (mask_of c)" by (rule masked_by_mask [OF assms(1)])
  have flag: "get_flag c (flag_of a) = holds_action amb K st (granted_by g) (resource_id g) a" if "a \<in> set ACTIONS" for a
  proof -
    have "flag_list (holds_action amb K st (granted_by g) (resource_id g)) = map (\<lambda>a. (flag_of a, holds_action amb K st (granted_by g) (resource_id g) a)) ACTIONS"
      by (simp add: flag_list_def ACTIONS_def)
    with get_flag_list [OF that, of "holds_action amb K st (granted_by g) (resource_id g)"] show ?thesis
      by (simp add: c_def Grant_init_def Let_def get_flag_def del: append.simps)
  qed
  show thesis
  proof (rule that [OF run])
    have "mask_of (masked_by amb g c) \<le> bnd" unfolding m using meet_below(1) assms(3) by (rule order_trans)
    moreover have "holds_action amb K st (granted_by g) (resource_id g) a" if "allows (mask_of (masked_by amb g c)) a" for a
      using that flag unfolding m by (auto simp: allows_def simp del: append.simps)
    ultimately show "bounded_grant amb K st bnd (masked_by amb g c)"
      using assms(2) unfolding bounded_grant_def by simp
  qed
qed

lemma as_held_now_place:
  obtains h where "as_held_now amb K st g = Inr h" "resource_id h = resource_id g" "granted_by h = granted_by g"
proof (cases "resource_id g = [] \<or> granted_by g = [] \<or> \<not> grant_is_allow g")
  case True
  then show thesis by (intro that [of g]) (auto simp: as_held_now_def)
next
  case False
  then obtain c where "as_held_now amb K st g = Inr (masked_by amb g c)" by (auto simp: as_held_now_def effective_flags_eq)
  then show thesis by (rule that) simp_all
qed

definition frontier_below :: "mask \<Rightarrow> (grant \<times> grant) list \<Rightarrow> bool" where
  "frontier_below bnd fs \<longleftrightarrow> (\<forall>(_, c) \<in> set fs. mask_of c \<le> bnd)"

definition walk_below :: "ambient \<Rightarrow> node_key \<Rightarrow> lattice \<Rightarrow> mask \<Rightarrow> bundle_walk \<Rightarrow> bool" where
  "walk_below amb K st bnd w = (case w of (seen, eff, nxt) \<Rightarrow> list_all (bounded_grant amb K st bnd) eff \<and> frontier_below bnd nxt)"

lemma expand_members_below:
  assumes "mask_of ceiling \<le> bnd" "\<forall>m \<in> set ms. effect_of m \<noteq> []" "walk_below amb K st bnd w"
  shows "\<exists>w'. expand_members amb K st ceiling ms w = Inr w' \<and> walk_below amb K st bnd w'"
  using assms(2,3)
proof (induction ms arbitrary: w)
  case (Cons m ms)
  obtain seen eff nxt where w: "w = (seen, eff, nxt)" by (cases w)
  show ?case
  proof (cases "g_id m \<in> set seen")
    case True
    with Cons w show ?thesis by simp
  next
    case False
    let ?masked = "masked_by amb m ceiling"
    have e: "effect_of m \<noteq> []" using Cons.prems(1) by simp
    have le: "mask_of ?masked \<le> bnd"
      unfolding masked_by_mask [OF e] using meet_below(2) assms(1) by (rule order_trans)
    obtain eff' where eff': "(if resource_id ?masked \<noteq> [] then rbind (as_held_now amb K st ?masked) (\<lambda>h. Inr (eff @ [h])) else Inr eff) = Inr eff'"
      "list_all (bounded_grant amb K st bnd) eff'"
    proof (cases "resource_id ?masked = []")
      case True
      with Cons.prems(2) w show thesis by (intro that [of eff]) (simp_all add: walk_below_def)
    next
      case False
      obtain h where "as_held_now amb K st ?masked = Inr h" "bounded_grant amb K st bnd h"
        by (rule as_held_now_bounded [OF masked_by_effect_of [OF e] False le])
      with False Cons.prems(2) w show thesis by (intro that [of "eff @ [h]"]) (simp_all add: walk_below_def)
    qed
    have "walk_below amb K st bnd (g_id m # seen, eff', nxt @ [(m, ?masked)])"
      using Cons.prems(2) eff'(2) le w by (auto simp: walk_below_def frontier_below_def)
    with Cons.IH Cons.prems(1) have "\<exists>w'. expand_members amb K st ceiling ms (g_id m # seen, eff', nxt @ [(m, ?masked)]) = Inr w'
        \<and> walk_below amb K st bnd w'" by simp
    with False w eff'(1) show ?thesis by (simp add: Let_def)
  qed
qed simp

lemma expand_level_below:
  assumes "frontier_below bnd fs" "walk_below amb K st bnd w"
  shows "\<exists>w'. expand_level amb K st fs w = Inr w' \<and> walk_below amb K st bnd w'"
  using assms
proof (induction fs arbitrary: w)
  case (Cons f fs)
  obtain b c where f: "f = (b, c)" by (cases f)
  obtain ms where ms: "list_members amb K st (g_id b) = Inr ms" "\<forall>m \<in> set ms. effect_of m \<noteq> []" by (rule list_members_total)
  obtain w' where "expand_members amb K st c ms w = Inr w'" "walk_below amb K st bnd w'"
    using expand_members_below [OF _ ms(2) Cons.prems(2), of c] Cons.prems(1) f by (auto simp: frontier_below_def)
  with Cons f ms(1) show ?case by (simp add: frontier_below_def)
qed simp

lemma resolve_loop_below:
  assumes "frontier_below bnd fs" "list_all (bounded_grant amb K st bnd) eff"
  shows "\<exists>gs. resolve_loop amb K st n fs seen eff = Inr gs \<and> list_all (bounded_grant amb K st bnd) gs"
  using assms
proof (induction n arbitrary: fs seen eff)
  case (Suc n)
  show ?case
  proof (cases "fs = []")
    case False
    obtain seen' eff' nxt where "expand_level amb K st fs (seen, eff, []) = Inr (seen', eff', nxt)" "walk_below amb K st bnd (seen', eff', nxt)"
      using expand_level_below [OF Suc.prems(1), of amb K st "(seen, eff, [])"] Suc.prems(2)
      by (auto simp: walk_below_def frontier_below_def)
    with Suc.IH [of nxt eff' seen'] False show ?thesis by (simp add: walk_below_def)
  qed (use Suc.prems in simp)
qed simp

lemma resolve_bounded:
  assumes "effect_of root \<noteq> []"
  shows "\<exists>gs. resolve amb K st root = Inr gs \<and> list_all (bounded_grant amb K st (mask_of root)) gs"
proof -
  have fr: "frontier_below (mask_of root) [(root, root)]" by (simp add: frontier_below_def)
  show ?thesis
  proof (cases "resource_id root = []")
    case True
    with resolve_loop_below [OF fr] show ?thesis by (simp add: resolve_def)
  next
    case False
    obtain h where "as_held_now amb K st root = Inr h" "bounded_grant amb K st (mask_of root) h"
      by (rule as_held_now_bounded [OF assms False order_refl])
    with resolve_loop_below [OF fr, of amb K st "[h]"] False show ?thesis by (simp add: resolve_def)
  qed
qed

lemma authenticated_effect:
  assumes "authenticate sha256 amb K st tok = Inr (Some root)"
  shows "effect_of (fst root) \<noteq> []"
proof -
  obtain ds where "get_active_grants_for_grantee amb K st (hash_token sha256 tok) GRANTEE_GRANT_KEY = Inr (map (from_lattice_doc amb K) ds)"
    by (simp only: get_active_grants_for_grantee_def grant_docs_by_eq rbind_simps)
  with assms have "\<exists>d. root = from_lattice_doc amb K d"
    by (cases ds) (simp_all add: authenticate_def split: if_split_asm, blast)
  then show ?thesis using decoded_effect by auto
qed

section \<open>Correctness\<close>


text \<open>A stored key over an issuer who holds reading on its resource, and nothing else.\<close>

definition key_doc :: doc where
  "key_doc = [(''id'', PStr ''k1''), (''content_type'', PStr GRANT_CT), (''grantee_id'', PStr ''41''), (''grantee_type'', PStr ''grant_key''),
     (''resource_id'', PStr ''box''), (''granted_by'', PStr ''ann''), (''state'', PStr ''active''), (''effect'', PStr ''allow''),
     (''can_read'', PBool True), (''can_delete'', PBool True)]"

definition key_store :: lattice where
  "key_store = (empty_lattice ''o'' 4)\<lparr> vertices :=
     [(''k1'', (sample_row ''k1'' 1)\<lparr> v_ct := Some GRANT_CT, v_doc := key_doc \<rparr>)] \<rparr>"

lemma key_store_facts:
  "vertices_keyed key_store" "ledger key_store = [''k1'' \<mapsto> key_doc]" "ledger_filed key_store"
proof -
  show l: "ledger key_store = [''k1'' \<mapsto> key_doc]" by (simp add: fun_eq_iff ledger_def key_store_def)
  show "ledger_filed key_store" unfolding ledger_filed_def l by (simp add: key_doc_def dget_Cons)
  show "vertices_keyed key_store" by (simp add: vertices_keyed_def key_store_def)
qed


lemma key_lookup_empty:
  assumes "vertices_keyed st" "hash_token sha256 tok \<noteq> []"
    and "\<forall>d \<in> ran (ledger st). dget d ''grantee_id'' = PStr (hash_token sha256 tok) \<longrightarrow> dget d ''state'' \<noteq> PStr ''active''"
  shows "authenticate sha256 amb K st tok = Inr None"
proof -
  obtain es where es: "get_active_grants_for_grantee amb K st (hash_token sha256 tok) ''grant_key'' = Inr es"
    "set es = from_lattice_doc amb K ` {d \<in> ran (ledger st). dget d ''grantee_id'' = PStr (hash_token sha256 tok) \<and> dget d ''state'' = PStr ''active''
       \<and> dget d ''grantee_type'' = PStr ''grant_key'' \<and> unexpired amb d}"
    by (rule grantee_lookup_set [OF assms(1,2)])
  have "{d \<in> A. P d \<and> Q d \<and> R d} = {}" if "\<forall>d \<in> A. P d \<longrightarrow> \<not> Q d" for A and P Q R :: "doc \<Rightarrow> bool" using that by blast
  note empty = this [OF assms(3)]
  have "set es = {}" unfolding es(2) empty by simp
  with es(1) show ?thesis by (simp add: authenticate_def)
qed

text \<open>(C17) Revocation is effective at once and for good: after the key that a token authenticates as is revoked, the
  token authenticates as nothing at any later time, provided no other stored grant carries its hash.\<close>

theorem revoked_key_is_dead:
  assumes "fernet_law K" "fresh_id amb \<noteq> []" "now_iso amb \<noteq> []" "vertices_keyed st" "ledger_filed st" "hash_token sha256 tok \<noteq> []"
    and "authenticate sha256 amb K st tok = Inr (Some (root, PNone))"
    and "\<forall>gid d. ledger st gid = Some d \<and> dget d ''grantee_id'' = PStr (hash_token sha256 tok) \<longrightarrow> gid = g_id root"
  shows "\<exists>ids st'. revoke H amb K (root, PNone) by_id st = (Inr ids, st') \<and> authenticate sha256 amb' K st' tok = Inr None"
proof -
  obtain es where es: "get_active_grants_for_grantee amb K st (hash_token sha256 tok) ''grant_key'' = Inr es"
    "set es = from_lattice_doc amb K ` {d \<in> ran (ledger st). dget d ''grantee_id'' = PStr (hash_token sha256 tok) \<and> dget d ''state'' = PStr ''active''
       \<and> dget d ''grantee_type'' = PStr ''grant_key'' \<and> unexpired amb d}"
    by (rule grantee_lookup_set [OF assms(4,6)])
  with assms(7) have "(root, PNone) \<in> set es" by (auto simp: authenticate_def split: if_splits list.splits)
  with es(2) obtain d where d: "from_lattice_doc amb K d = (root, PNone)" "dget d ''grantee_type'' = PStr ''grant_key''" by auto
  have gt: "grantee_type root = ''grant_key''"
    using decoded_field [OF d(2), of K] d(1)
    by (auto simp: from_lattice_doc_def Let_def Grant_from_dict_def Grant_init_def dtext_def LATTICE_INTERNAL_def SEALED_def)
  define g where "g = root\<lparr> gstate := STATE_REVOKED, revoked_by := Some by_id, revoked_at := Some (now_iso amb), modified_time := now_iso amb \<rparr>"
  have g: "wf_grant g" "g_id g = g_id root" "gstate g = ''revoked''" "grantee_type g = ''grant_key''"
    using wf_decoded [OF assms(2,3), of K d] d(1) assms(3) gt by (simp_all add: g_def wf_grant_def)
  obtain d' n st' where p: "to_grant_doc K (g, PNone) = Inr d'" "create_grant H K (g, PNone) st = Inr st'"
    "ledger st' = (ledger st)(g_id g \<mapsto> stored_doc (doc_of st (g_id g)) d' (st_origin st) n)"
    "vertices_keyed st \<longrightarrow> vertices_keyed st'" by (rule put_grant [OF assms(1) g(1)])
  note rev = written_mask(4) [OF assms(1) p(1)]
  have "authenticate sha256 amb' K st' tok = Inr None"
  proof (rule key_lookup_empty [OF _ assms(6)])
    show "vertices_keyed st'" using p(4) assms(4) by simp
    show "\<forall>x \<in> ran (ledger st'). dget x ''grantee_id'' = PStr (hash_token sha256 tok) \<longrightarrow> dget x ''state'' \<noteq> PStr ''active''"
      using assms(8) rev g(2,3) unfolding p(3) ran_def by (auto split: if_splits)
  qed
  moreover have "revoke H amb K (root, PNone) by_id st = (Inr (if g_id root \<noteq> [] then Some [g_id root] else None), st')"
    using p(2) g by (simp add: revoke_def Let_def g_def [symmetric] update_is_create principal_ids_for_def)
  ultimately show ?thesis by blast
qed

lemma key_store_authenticates:
  "authenticate (\<lambda>_. ''A'') sample_ambient sample_key key_store ''agk_x'' = Inr (Some (from_lattice_doc sample_ambient sample_key key_doc))"
proof -
  have d: "dget key_doc ''grantee_id'' = PStr ''41''" "dget key_doc ''state'' = PStr ''active''"
    "dget key_doc ''grantee_type'' = PStr ''grant_key''" "unexpired sample_ambient key_doc" by (simp_all add: key_doc_def dget_Cons unexpired_def)
  have "grant_rows_by key_store ''grantee_id'' ''41'' = [key_doc]"
    using d(1) by (simp add: grant_rows_by_def rows_by_id_def key_store_def)
  then show ?thesis
    using d by (simp add: authenticate_def KEY_PREFIX_def invite_store_facts(4) get_active_grants_for_grantee_def grant_docs_by_eq)
qed

theorem revoked_key_is_dead_witness:
  "\<exists>ids st'. revoke sample_H sample_ambient sample_key (fst (from_lattice_doc sample_ambient sample_key key_doc), PNone) ''ann'' key_store = (Inr ids, st')
     \<and> authenticate (\<lambda>_. ''A'') sample_ambient sample_key st' ''agk_x'' = Inr None"
proof -
  obtain g b where gb: "from_lattice_doc sample_ambient sample_key key_doc = (g, b)" by fastforce
  have b: "b = PNone" using gb by (auto simp: from_lattice_doc_def key_doc_def LATTICE_INTERNAL_def unseal_fields_def SEALED_def dget_Cons Let_def dpop_def)
  have d: "dget key_doc ''id'' = PStr ''k1''" by (simp add: key_doc_def dget_Cons)
  have gid: "g_id g = ''k1''" using decoded_id [OF d, of sample_ambient sample_key] gb by simp
  have "authenticate (\<lambda>_. ''A'') sample_ambient sample_key key_store ''agk_x'' = Inr (Some (g, PNone))"
    using key_store_authenticates gb b by simp
  moreover have "fresh_id sample_ambient \<noteq> []" "now_iso sample_ambient \<noteq> []" by (simp_all add: sample_ambient_def)
  ultimately show ?thesis
    using revoked_key_is_dead [OF sample_fernet _ _ key_store_facts(1,3), of sample_ambient "\<lambda>_. ''A''" "''agk_x''" g sample_H "''ann''" sample_ambient]
    by (auto simp: invite_store_facts(4) key_store_facts(2) gid gb)
qed

end
