(* ===== verification/Oidc.thy ===== *)
theory Oidc
  imports Ledger
begin

text \<open>
  \<open>services/oidc.py\<close> and \<open>verify_token\<close> of \<open>services/auth_service.py\<close>: which issuers are trusted, the keys of an
  issuer, token verification, and the user id of an external login.

  The verifier's fields are a record. The \<open>jose\<close> functions, the HTTP fetches, \<open>uuid5\<close> and the clock (in
  microseconds) are arguments. Configured issuers, the authority manifest and key sets are JSON
  objects with text in the \<open>issuer\<close> and \<open>namespace\<close> fields; \<open>load_issuer_configs\<close> is an argument of the
  refresh, \<open>None\<close> when it raises. Calls are sequential: a fetch lock is never found held.
\<close>

section \<open>State\<close>

record oidc =
  env_issuers :: "doc list"
  external_iss :: "(string \<times> doc) list"
  by_iss :: "(string \<times> doc) list"
  jwks_cache :: "(string \<times> doc list \<times> int) list"
  last_fetch :: "(string \<times> int) list"
  last_refresh :: int

record jose =
  unverified_claims :: "string \<Rightarrow> doc option"
  unverified_header :: "string \<Rightarrow> doc option"
  jwt_decode :: "string \<Rightarrow> doc \<Rightarrow> pyval \<Rightarrow> pyval \<Rightarrow> bool \<Rightarrow> doc option"
  float_us :: "string \<Rightarrow> int"

text \<open>The network: the keys at a key-set URL (\<open>None\<close> when the request raises) and the URL a discovery
  document names.\<close>

record net =
  jwks_get :: "string \<Rightarrow> doc list option"
  discover_jwks_uri :: "string \<Rightarrow> pyval"

definition JWKS_TTL :: int where "JWKS_TTL = 3600000000"

definition JWKS_MIN_REFETCH :: int where "JWKS_MIN_REFETCH = 30000000"

definition MIN_REFRESH_INTERVAL :: int where "MIN_REFRESH_INTERVAL = 10000000"

text \<open>\<open>d.get(k, v)\<close>, and a dictionary lookup under a value of any type: a list or a dict is unhashable.\<close>

definition dget_or :: "doc \<Rightarrow> string \<Rightarrow> pyval \<Rightarrow> pyval" where
  "dget_or d k v = (case map_of d k of None \<Rightarrow> v | Some x \<Rightarrow> x)"

fun lookup_val :: "(string \<times> 'a) list \<Rightarrow> pyval \<Rightarrow> 'a option result" where
  "lookup_val m (PStr s) = Inr (map_of m s)"
| "lookup_val m (PList _) = Inl TypeError"
| "lookup_val m (PDict _) = Inl TypeError"
| "lookup_val m _ = Inr None"

section \<open>Trust maps\<close>

definition put_default :: "string \<Rightarrow> 'a \<Rightarrow> (string \<times> 'a) list \<Rightarrow> (string \<times> 'a) list" where
  "put_default k v m = (case map_of m k of None \<Rightarrow> AList.update k v m | Some _ \<Rightarrow> m)"

definition anchor :: "string \<Rightarrow> pyval \<Rightarrow> doc" where
  "anchor name jwks = [(''issuer'', PStr name), (''jwks'', jwks), (''audience'', PNone)]"

definition is_dict :: "pyval \<Rightarrow> bool" where
  "is_dict v = (case v of PDict _ \<Rightarrow> True | _ \<Rightarrow> False)"

definition load_manifest_anchors :: "doc option \<Rightarrow> string \<Rightarrow> (string \<times> doc) list \<Rightarrow> (string \<times> doc) list" where
  "load_manifest_anchors manifest authority_issuer m =
     (case manifest of
        None \<Rightarrow> m
      | Some doc \<Rightarrow>
          (let anchors = dict_items (dget doc ''trust_anchors'');
               m = fold (\<lambda>(name, a) m. let jwks = dget (dict_items a) ''jwks'' in
                           if is_dict jwks then put_default name (anchor name jwks) m else m) anchors m;
               origin_jwks = dget (dict_items (dget anchors ''origin'')) ''jwks'' in
           if is_dict origin_jwks \<and> authority_issuer \<noteq> []
           then put_default authority_issuer (anchor authority_issuer origin_jwks) m else m))"

definition rebuild_step :: "doc \<Rightarrow> (string \<times> doc) list \<times> (string \<times> doc) list \<Rightarrow> (string \<times> doc) list \<times> (string \<times> doc) list" where
  "rebuild_step d maps =
     (case maps of (ext, by) \<Rightarrow>
        if dtext d ''issuer'' = [] then maps
        else (if dget_or d ''role'' (PStr ''external'') \<noteq> PStr ''platform'' then AList.update (dtext d ''issuer'') d ext else ext,
              AList.update (dtext d ''issuer'') d by))"

definition rebuild :: "doc option \<Rightarrow> string \<Rightarrow> doc list \<Rightarrow> oidc \<Rightarrow> oidc" where
  "rebuild manifest authority_issuer artifact_issuers v =
     (case fold rebuild_step (env_issuers v @ artifact_issuers) ([], []) of
        (ext, by) \<Rightarrow> v\<lparr> external_iss := ext, by_iss := load_manifest_anchors manifest authority_issuer by \<rparr>)"

definition OidcVerifier_init :: "doc option \<Rightarrow> string \<Rightarrow> doc list \<Rightarrow> oidc" where
  "OidcVerifier_init manifest authority_issuer issuers =
     rebuild manifest authority_issuer []
       \<lparr> env_issuers = filter (\<lambda>d. dtext d ''issuer'' \<noteq> []) issuers, external_iss = [], by_iss = [],
         jwks_cache = [], last_fetch = [], last_refresh = 0 \<rparr>"

definition refresh_from_db :: "doc option \<Rightarrow> string \<Rightarrow> doc list option \<Rightarrow> int \<Rightarrow> oidc \<Rightarrow> oidc" where
  "refresh_from_db manifest authority_issuer arts now v =
     rebuild manifest authority_issuer (case arts of None \<Rightarrow> [] | Some ds \<Rightarrow> ds) (v\<lparr> last_refresh := now \<rparr>)"

definition refresh_if_unknown_iss ::
  "jose \<Rightarrow> doc option \<Rightarrow> string \<Rightarrow> doc list option \<Rightarrow> int \<Rightarrow> string \<Rightarrow> oidc \<Rightarrow> (bool \<times> oidc) result" where
  "refresh_if_unknown_iss J manifest authority_issuer arts now token v =
     (case unverified_claims J token of
        None \<Rightarrow> Inr (False, v)
      | Some claims \<Rightarrow>
          (let iss = dget_or claims ''iss'' (PStr []) in
           if \<not> truthy iss then Inr (False, v)
           else rbind (lookup_val (by_iss v) iss) (\<lambda>known.
                  if known \<noteq> None then Inr (False, v)
                  else if now - last_refresh v < MIN_REFRESH_INTERVAL then Inr (False, v)
                  else (let v' = refresh_from_db manifest authority_issuer arts now v in
                        rbind (lookup_val (by_iss v') iss) (\<lambda>known. Inr (known \<noteq> None, v'))))))"

definition is_trusted :: "oidc \<Rightarrow> pyval \<Rightarrow> bool result" where
  "is_trusted v iss = (if \<not> truthy iss then Inr False else rbind (lookup_val (external_iss v) iss) (\<lambda>c. Inr (c \<noteq> None)))"

definition tenant_for :: "oidc \<Rightarrow> pyval \<Rightarrow> string option result" where
  "tenant_for v iss =
     rbind (lookup_val (external_iss v) (if truthy iss then iss else PStr [])) (\<lambda>cfg.
       Inr (case cfg of
              None \<Rightarrow> None
            | Some c \<Rightarrow> if truthy (dget c ''namespace'') then Some (dtext c ''namespace'') else Some (as_text iss)))"

definition external_user_id :: "(string \<Rightarrow> string) \<Rightarrow> oidc \<Rightarrow> doc \<Rightarrow> string option result" where
  "external_user_id uuid5 v claims =
     (let iss = dget_or claims ''iss'' (PStr []); sub = dget claims ''sub'' in
      if \<not> truthy sub then Inr None
      else rbind (lookup_val (external_iss v) iss) (\<lambda>cfg.
             if cfg = None then Inr None
             else rbind (tenant_for v iss) (\<lambda>t.
                    (let tenant = (case t of Some x \<Rightarrow> str_or x (as_text iss) | None \<Rightarrow> as_text iss) in
                     Inr (Some (uuid5 (tenant @ [CHR 0x0A] @ as_text sub)))))))"

section \<open>Keys and verification\<close>

text \<open>\<open>_keys\<close>: inline, cached or fetched. \<open>now\<close> is the clock on entry and \<open>later\<close> the clock after the fetch. The
  last component says whether the issuer was contacted.\<close>

definition jwks_keys ::
  "net \<Rightarrow> int \<Rightarrow> int \<Rightarrow> string \<Rightarrow> doc \<Rightarrow> bool \<Rightarrow> oidc \<Rightarrow> doc list \<times> oidc \<times> bool" where
  "jwks_keys N now later iss cfg force v =
     (case dget cfg ''jwks'' of
        PDict inline \<Rightarrow> ((case dget inline ''keys'' of PList ks \<Rightarrow> map dict_items ks | _ \<Rightarrow> []), v, False)
      | _ \<Rightarrow>
          (let cached = map_of (jwks_cache v) iss;
               stale = (case cached of None \<Rightarrow> [] | Some (ks, _) \<Rightarrow> ks) in
           if (case cached of None \<Rightarrow> False | Some (_, at) \<Rightarrow> \<not> force \<and> now - at < JWKS_TTL) then (stale, v, False)
           else if (case map_of (last_fetch v) iss of None \<Rightarrow> False | Some t \<Rightarrow> now - t < JWKS_MIN_REFETCH) then (stale, v, False)
           else
             (let v = v\<lparr> last_fetch := AList.update iss now (last_fetch v) \<rparr>;
                  uri = py_or (dget cfg ''jwks_uri'') (discover_jwks_uri N iss) in
              if \<not> truthy uri then (stale, v, True)
              else (case jwks_get N (as_text uri) of
                      None \<Rightarrow> (stale, v, True)
                    | Some keys \<Rightarrow> (keys, v\<lparr> jwks_cache := AList.update iss (keys, later) (jwks_cache v) \<rparr>, True)))))"

text \<open>The clock readings of one verification.\<close>

type_synonym clock4 = "(int \<times> int) \<times> (int \<times> int)"

definition resolve_key :: "net \<Rightarrow> clock4 \<Rightarrow> string \<Rightarrow> doc \<Rightarrow> pyval \<Rightarrow> oidc \<Rightarrow> doc option \<times> oidc" where
  "resolve_key N clk iss cfg kid v =
     (case jwks_keys N (fst (fst clk)) (snd (fst clk)) iss cfg False v of
        (ks, v, _) \<Rightarrow>
          (case find_first (\<lambda>k. dget k ''kid'' = kid) ks of
             Some k \<Rightarrow> (Some k, v)
           | None \<Rightarrow>
               (case jwks_keys N (fst (snd clk)) (snd (snd clk)) iss cfg True v of
                  (ks, v, _) \<Rightarrow> (find_first (\<lambda>k. dget k ''kid'' = kid) ks, v))))"

definition verify_jwt ::
  "jose \<Rightarrow> net \<Rightarrow> clock4 \<Rightarrow> string \<Rightarrow> pyval \<Rightarrow> oidc \<Rightarrow> doc option result \<times> oidc" where
  "verify_jwt J N clk token expected_audience v =
     (case unverified_claims J token of
        None \<Rightarrow> (Inr None, v)
      | Some claims \<Rightarrow>
          (let iss = dget_or claims ''iss'' (PStr []) in
           case lookup_val (by_iss v) iss of
             Inl e \<Rightarrow> (Inl e, v)
           | Inr None \<Rightarrow> (Inr None, v)
           | Inr (Some cfg) \<Rightarrow>
               (case unverified_header J token of
                  None \<Rightarrow> (Inr None, v)
                | Some header \<Rightarrow>
                    (case resolve_key N clk (as_text iss) cfg (dget_or header ''kid'' (PStr [])) v of
                       (None, v) \<Rightarrow> (Inr None, v)
                     | (Some jwk, v) \<Rightarrow>
                         (let aud = py_or expected_audience (dget cfg ''audience'') in
                          if \<not> truthy aud \<and> map_of (external_iss v) (as_text iss) \<noteq> None then (Inr None, v)
                          else (Inr (jwt_decode J token jwk iss aud (truthy aud)), v))))))"

text \<open>\<open>auth_service.verify_token\<close>: the expiry is compared once more. \<open>jose\<close> accepts an \<open>exp\<close> that converts to an
  integer, so a text one reaches the comparison, which raises.\<close>

definition exp_us :: "jose \<Rightarrow> pyval \<Rightarrow> int result" where
  "exp_us J e =
     (case e of
        PInt n \<Rightarrow> Inr (n * 1000000)
      | PBool b \<Rightarrow> Inr (if b then 1000000 else 0)
      | PFloat s \<Rightarrow> Inr (float_us J s)
      | _ \<Rightarrow> Inl TypeError)"

definition verify_token ::
  "jose \<Rightarrow> net \<Rightarrow> clock4 \<Rightarrow> int \<Rightarrow> string \<Rightarrow> pyval \<Rightarrow> oidc \<Rightarrow> doc option result \<times> oidc" where
  "verify_token J N clk now token expected_audience v =
     (case verify_jwt J N clk token expected_audience v of
        (payload, v) \<Rightarrow>
          (rbind payload (\<lambda>payload.
             case payload of
               None \<Rightarrow> Inr None
             | Some p \<Rightarrow>
                 (let e = dget p ''exp'' in
                  if \<not> truthy e then Inr (Some p)
                  else rbind (exp_us J e) (\<lambda>t. Inr (if t < now then None else Some p)))), v))"

section \<open>Lemmas\<close>

lemma lookup_val_Some: "lookup_val m x = Inr (Some c) \<Longrightarrow> \<exists>s. x = PStr s \<and> map_of m s = Some c"
  by (cases x) auto

text \<open>A key lookup contacts an issuer only when the last attempt is old enough, records the attempt, and
  changes no other issuer's attempt and no trust map.\<close>

lemma jwks_keys_effect:
  assumes "jwks_keys N now later iss cfg force v = (ks, v', fetched)"
  shows "external_iss v' = external_iss v" "by_iss v' = by_iss v"
    and "last_fetch v' = (if fetched then AList.update iss now (last_fetch v) else last_fetch v)"
    and "fetched \<Longrightarrow> case map_of (last_fetch v) iss of None \<Rightarrow> True | Some t \<Rightarrow> JWKS_MIN_REFETCH \<le> now - t"
  using assms by (auto simp: jwks_keys_def Let_def split: pyval.splits option.splits if_splits prod.splits)

lemma resolve_key_effect:
  assumes "resolve_key N clk iss cfg kid v = (jwk, v')"
  shows "external_iss v' = external_iss v" "by_iss v' = by_iss v" "\<And>k. jwk = Some k \<Longrightarrow> dget k ''kid'' = kid"
proof -
  obtain ks1 v1 f1 where k1: "jwks_keys N (fst (fst clk)) (snd (fst clk)) iss cfg False v = (ks1, v1, f1)" by (metis prod_cases3)
  obtain ks2 v2 f2 where k2: "jwks_keys N (fst (snd clk)) (snd (snd clk)) iss cfg True v1 = (ks2, v2, f2)" by (metis prod_cases3)
  note e = jwks_keys_effect(1,2) [OF k1] jwks_keys_effect(1,2) [OF k2]
  show "external_iss v' = external_iss v" "by_iss v' = by_iss v" "\<And>k. jwk = Some k \<Longrightarrow> dget k ''kid'' = kid"
    using assms k1 k2 e by (auto simp: resolve_key_def split: option.splits dest!: find_first_Some)
qed

lemma rebuild_fold:
  "map_of (fst (fold rebuild_step ds maps)) iss
     = (case find_first (\<lambda>d. iss \<noteq> [] \<and> dtext d ''issuer'' = iss \<and> dget_or d ''role'' (PStr ''external'') \<noteq> PStr ''platform'') (rev ds) of
          None \<Rightarrow> map_of (fst maps) iss | Some d \<Rightarrow> Some d)"
  "map_of (snd (fold rebuild_step ds maps)) iss
     = (case find_first (\<lambda>d. iss \<noteq> [] \<and> dtext d ''issuer'' = iss) (rev ds) of None \<Rightarrow> map_of (snd maps) iss | Some d \<Rightarrow> Some d)"
proof (induction ds arbitrary: maps rule: rev_induct)
  case (snoc d ds)
  { case 1 show ?case using snoc(1) [of maps] by (auto simp: rebuild_step_def split: prod.splits option.splits) }
  { case 2 show ?case using snoc(2) [of maps] by (auto simp: rebuild_step_def split: prod.splits option.splits) }
qed simp_all

lemma put_default_map: "map_of (put_default k v m) = (case map_of m k of None \<Rightarrow> (map_of m)(k \<mapsto> v) | Some _ \<Rightarrow> map_of m)"
  by (simp add: put_default_def split: option.splits)

lemma put_default_keeps: "map_of m k = Some v \<Longrightarrow> map_of (put_default k' v' m) k = Some v"
  by (auto simp: put_default_map split: option.splits)

lemma anchors_keep: "map_of m k = Some v \<Longrightarrow> map_of (load_manifest_anchors manifest ai m) k = Some v"
proof -
  have "map_of m k = Some v \<Longrightarrow> map_of (fold (\<lambda>(name, a) m. let jwks = dget (dict_items a) ''jwks'' in
            if is_dict jwks then put_default name (anchor name jwks) m else m) as m) k = Some v" for as
    by (induction as arbitrary: m) (auto simp: Let_def put_default_keeps)
  then show "map_of m k = Some v \<Longrightarrow> map_of (load_manifest_anchors manifest ai m) k = Some v"
    by (auto simp: load_manifest_anchors_def Let_def put_default_keeps split: option.splits)
qed

section \<open>Correctness\<close>

definition names_issuer :: "string \<Rightarrow> doc \<Rightarrow> bool" where
  "names_issuer iss d \<longleftrightarrow> iss \<noteq> [] \<and> dtext d ''issuer'' = iss"

text \<open>The trust maps after a rebuild: an issuer is external exactly when some configuration of it is not a platform
  one, and the last such configuration is the one used; every configured issuer is verifiable under
  its last configuration, which no manifest anchor replaces. The two maps can therefore hold different
  configurations of one issuer.\<close>

theorem trust_maps_exact:
  "map_of (external_iss (rebuild manifest ai arts v)) iss
     = find_first (\<lambda>d. names_issuer iss d \<and> dget_or d ''role'' (PStr ''external'') \<noteq> PStr ''platform'') (rev (env_issuers v @ arts))
   \<and> (case find_first (names_issuer iss) (rev (env_issuers v @ arts)) of
        Some d \<Rightarrow> map_of (by_iss (rebuild manifest ai arts v)) iss = Some d
      | None \<Rightarrow> True)"
proof -
  obtain x y where f: "fold rebuild_step (env_issuers v @ arts) ([], []) = (x, y)" by fastforce
  show ?thesis
    using rebuild_fold [of "env_issuers v @ arts" "([], [])" iss] anchors_keep [of y iss _ manifest ai]
    unfolding rebuild_def f names_issuer_def by (auto split: option.splits)
qed


definition one_key :: net where
  "one_key = \<lparr> jwks_get = (\<lambda>_. Some [[(''kid'', PStr ''k'')]]), discover_jwks_uri = (\<lambda>_. PStr ''u'') \<rparr>"

definition one_issuer :: oidc where
  "one_issuer = OidcVerifier_init None [] [[(''issuer'', PStr ''a''), (''audience'', PStr ''me''),
     (''jwks'', PDict [(''keys'', PList [PDict [(''kid'', PStr ''k'')]])])]]"

definition toy_jose :: jose where
  "toy_jose = \<lparr> unverified_claims = (\<lambda>_. Some [(''iss'', PStr ''a'')]), unverified_header = (\<lambda>_. Some [(''kid'', PStr ''k'')]),
     jwt_decode = (\<lambda>t k iss aud check. if check \<and> aud = PStr ''me'' then Some [(''iss'', iss), (''aud'', aud)] else None),
     float_us = (\<lambda>_. 0) \<rparr>"


text \<open>An issuer claim that is a list is unhashable: \<open>verify\<close>, documented to raise nothing, raises before any
  signature is checked.\<close>

theorem verify_raises_on_list_issuer:
  "verify_token (J\<lparr> unverified_claims := (\<lambda>_. Some [(''iss'', PList vs)]) \<rparr>) N clk now token aud v = (Inl TypeError, v)"
  by (simp add: verify_token_def verify_jwt_def dget_or_def)

text \<open>The times at which one issuer is contacted in a sequence of key lookups for any issuers.\<close>

fun contacts :: "net \<Rightarrow> string \<Rightarrow> (int \<times> int \<times> string \<times> doc \<times> bool) list \<Rightarrow> oidc \<Rightarrow> int list" where
  "contacts N iss [] v = []"
| "contacts N iss ((now, later, i, cfg, force) # calls) v =
     (case jwks_keys N now later i cfg force v of
        (_, v', fetched) \<Rightarrow> (if fetched \<and> i = iss then [now] else []) @ contacts N iss calls v')"

text \<open>(C25) A caller that names an unknown key id in every token does not make the node fetch on every request:
  whatever keys are asked for, forced or not, any two contacts with one issuer are at least
  \<open>JWKS_MIN_REFETCH\<close> apart, failed fetches included, and so is the first from the recorded last one.\<close>

theorem issuer_contact_spacing:
  assumes "sorted (map fst calls)"
  shows "sorted_wrt (\<lambda>a b. JWKS_MIN_REFETCH \<le> b - a)
           ((case map_of (last_fetch v) iss of None \<Rightarrow> [] | Some t \<Rightarrow> [t]) @ contacts N iss calls v)"
  using assms
proof (induction calls arbitrary: v)
  case (Cons c calls)
  obtain now later i cfg force where c: "c = (now, later, i, cfg, force)" by (metis prod_cases5)
  obtain ks v' fetched where k: "jwks_keys N now later i cfg force v = (ks, v', fetched)" by (metis prod_cases3)
  note e = jwks_keys_effect [OF k]
  note IH = Cons.IH [of v']
  have step: "contacts N iss (c # calls) v = (if fetched \<and> i = iss then [now] else []) @ contacts N iss calls v'" by (simp add: c k)
  show ?case
  proof (cases "fetched \<and> i = iss")
    case True
    with IH Cons.prems e(3) have "sorted_wrt (\<lambda>a b. JWKS_MIN_REFETCH \<le> b - a) (now # contacts N iss calls v')" by (simp add: c)
    with True e(4) show ?thesis unfolding step by (fastforce simp: JWKS_MIN_REFETCH_def split: option.splits)
  next
    case False
    with e(3) have "map_of (last_fetch v') iss = map_of (last_fetch v) iss" by auto
    with False IH Cons.prems show ?thesis unfolding step by (simp split del: if_split cong: if_weak_cong) (auto split: option.splits)
  qed
qed (simp split: option.splits)

theorem issuer_contact_spacing_witness:
  "contacts one_key ''i'' [(0, 0, ''i'', [], True), (5, 5, ''i'', [], True), (30000000, 30000000, ''i'', [], True)]
       (OidcVerifier_init None [] []) = [0, 30000000]
   \<and> sorted_wrt (\<lambda>a b. JWKS_MIN_REFETCH \<le> b - a) [0, 30000000]"
  using issuer_contact_spacing [of "[(0, 0, ''i'', [], True), (5, 5, ''i'', [], True), (30000000, 30000000, ''i'', [], True)]"
      "OidcVerifier_init None [] []" "''i''" one_key]
  by (simp add: OidcVerifier_init_def rebuild_def load_manifest_anchors_def jwks_keys_def one_key_def dget_def py_or_def
      JWKS_MIN_REFETCH_def JWKS_TTL_def)


definition two_tenants :: oidc where
  "two_tenants = OidcVerifier_init None [] [[(''issuer'', PStr ''a'')], [(''issuer'', PStr ''b''), (''namespace'', PStr ''n'')]]"

lemma two_tenants_simps:
  "external_iss two_tenants = [(''a'', [(''issuer'', PStr ''a'')]), (''b'', [(''issuer'', PStr ''b''), (''namespace'', PStr ''n'')])]"
  by (simp add: two_tenants_def OidcVerifier_init_def rebuild_def rebuild_step_def dget_or_def dget_def dtext_def)


end
