(* ===== verification/Authn.thy ===== *)
theory Authn
  imports Access Grant_Keys Oidc
begin

text \<open>
  Authentication: the \<open>AuthContext\<close> part of \<open>services/dependencies.py\<close> with \<open>verify_nonce\<close> of
  \<open>services/auth_service.py\<close> and \<open>services/acting_principal.py\<close>. \<open>resolve_auth\<close> turns a bearer token into a
  caller, \<open>enforce_token_bounds\<close> applies the bounds the credential carries beyond its grants, and
  \<open>get_auth\<close> publishes the acting principal.

  A request is its method, its path and its challenge header. The ids of the platform mail artifacts,
  base64 decoding and the keyed hash are arguments. Claims that the code passes through \<open>str\<close> are text.
  The configuration has a text \<open>AUTHORITY_ISSUER\<close>.
\<close>

section \<open>The caller\<close>

record auth_context =
  au_principal_id :: string
  au_principal_type :: string
  au_user_id :: "string option"
  au_grants :: "grant list"
  au_grant_key_id :: "string option"
  au_actor :: "string option"
  au_actor_signer :: "string option"
  au_authority :: "string option"
  au_host_id :: "string option"
  au_email :: "string option"
  au_email_verified :: bool
  au_name :: "string option"
  au_bearer_grant :: "grant option"
  au_target_artifact_id :: "string option"
  au_scope :: "string option"

definition AUTH_ARGS :: auth_context where
  "AUTH_ARGS = \<lparr> au_principal_id = [], au_principal_type = ''user'', au_user_id = None, au_grants = [], au_grant_key_id = None,
     au_actor = None, au_actor_signer = None, au_authority = None, au_host_id = None, au_email = None,
     au_email_verified = False, au_name = None, au_bearer_grant = None, au_target_artifact_id = None, au_scope = None \<rparr>"

definition AuthContext_init :: "auth_context \<Rightarrow> auth_context result" where
  "AuthContext_init a =
     (if au_principal_id a = PUBLIC_PRINCIPAL \<or> au_user_id a = Some PUBLIC_PRINCIPAL then Inl (HTTPException 401) else Inr a)"

section \<open>Claims\<close>

definition is_retired_api_key_jwt :: "doc \<Rightarrow> bool" where
  "is_retired_api_key_jwt payload = (payload \<noteq> [] \<and> truthy (dget payload ''api_key_id''))"

definition looks_like_address :: "pyval \<Rightarrow> bool" where
  "looks_like_address v = (case v of PStr s \<Rightarrow> CHR ''@'' \<in> set s | _ \<Rightarrow> False)"

definition claim_email_verified :: "doc \<Rightarrow> bool" where
  "claim_email_verified payload =
     (if \<not> looks_like_address (dget payload ''email'') then False
      else (case dget payload ''email_verified'' of
              PBool b \<Rightarrow> b
            | PStr s \<Rightarrow> py_lower (py_strip s) \<in> {''true'', ''1'', ''yes''}
            | _ \<Rightarrow> False))"

definition claim_email :: "doc \<Rightarrow> string option" where
  "claim_email payload =
     map_option (dtext payload)
       (find_first (\<lambda>k. looks_like_address (dget payload k)) [''email'', ''upn'', ''preferred_username''])"

definition claim_name :: "doc \<Rightarrow> string option" where
  "claim_name payload =
     map_option (dtext payload)
       (find_first (\<lambda>k. case dget payload k of PStr s \<Rightarrow> py_strip s \<noteq> [] | _ \<Rightarrow> False) [''name'', ''given_name'', ''preferred_username''])"

definition opt_text :: "string option \<Rightarrow> string" where
  "opt_text x = (case x of None \<Rightarrow> [] | Some s \<Rightarrow> s)"

definition some_text :: "string \<Rightarrow> string option" where
  "some_text s = (if s = [] then None else Some s)"

definition claim_aud_str :: "doc \<Rightarrow> string option" where
  "claim_aud_str payload =
     (case dget payload ''aud'' of
        PList auds \<Rightarrow> some_text (py_join '','' (map as_text auds))
      | aud \<Rightarrow> if truthy aud then Some (as_text aud) else None)"

definition validate_aud_for_principal :: "string \<Rightarrow> oidc \<Rightarrow> doc \<Rightarrow> unit result" where
  "validate_aud_for_principal authority_issuer v payload =
     (let ptype = dget_or payload ''principal_type'' (PStr ''user''); aud = dget payload ''aud'' in
      if ptype = PStr ''service'' then (if aud \<noteq> PStr ''mantle'' then Inl (HTTPException 401) else Inr ())
      else if ptype = PStr ''mcp_client'' \<or> ptype = PStr ''delegation''
      then (if \<not> truthy aud then Inl (HTTPException 401) else Inr ())
      else rbind (is_trusted v (dget_or payload ''iss'' (PStr []))) (\<lambda>trusted.
             if trusted then Inr ()
             else if aud \<noteq> PStr authority_issuer then Inl (HTTPException 401) else Inr ()))"

section \<open>Resolving a token\<close>

definition user_auth :: "(string \<Rightarrow> string) \<Rightarrow> oidc \<Rightarrow> doc \<Rightarrow> auth_context result" where
  "user_auth uuid5 v payload =
     (let profile = AUTH_ARGS\<lparr> au_email := claim_email payload, au_email_verified := claim_email_verified payload,
                      au_name := claim_name payload \<rparr> in
      rbind (external_user_id uuid5 v payload) (\<lambda>ext_uid.
        if opt_text ext_uid \<noteq> [] then
          rbind (tenant_for v (dget payload ''iss'')) (\<lambda>tenant.
            AuthContext_init (profile\<lparr> au_principal_id := opt_text ext_uid, au_user_id := ext_uid, au_authority := tenant \<rparr>))
        else
          (let sub = dget payload ''sub''; user_id = (if truthy sub then Some (as_text sub) else None) in
           AuthContext_init (profile\<lparr> au_principal_id := opt_text user_id, au_user_id := user_id \<rparr>))))"

text \<open>\<open>(payload.get("act") or {})\<close>, of which the code reads fields: a truthy value that is not an object raises.\<close>

definition act_claim :: "doc \<Rightarrow> doc result" where
  "act_claim payload =
     (let act = dget payload ''act'' in
      if \<not> truthy act then Inr [] else (case act of PDict a \<Rightarrow> Inr a | _ \<Rightarrow> Inl AttributeError))"

definition delegation_auth :: "doc \<Rightarrow> auth_context result" where
  "delegation_auth payload =
     rbind (act_claim payload) (\<lambda>act.
       (let d_sub = dget payload ''sub''; d_act_sub = dget act ''sub''; d_host = dget payload ''host_id'' in
        if \<not> truthy d_sub \<or> \<not> truthy d_act_sub \<or> \<not> truthy d_host then Inl (HTTPException 401)
        else AuthContext_init (AUTH_ARGS\<lparr> au_principal_id := as_text d_sub, au_user_id := Some (as_text d_sub),
               au_actor := Some (as_text d_act_sub), au_actor_signer := some_text (as_text (dget act ''iss'')),
               au_authority := some_text (as_text (dget_or payload ''iss'' (PStr []))), au_host_id := Some (as_text d_host),
               au_scope := if truthy (dget payload ''scope'') then Some (dtext payload ''scope'') else None \<rparr>)))"

definition jwt_auth :: "(string \<Rightarrow> string) \<Rightarrow> string \<Rightarrow> oidc \<Rightarrow> doc \<Rightarrow> auth_context result" where
  "jwt_auth uuid5 authority_issuer v payload =
     (let ptype = dget_or payload ''principal_type'' (PStr ''user'') in
      if ptype = PStr ''server'' then Inl (HTTPException 401)
      else rbind (validate_aud_for_principal authority_issuer v payload) (\<lambda>_.
        if is_retired_api_key_jwt payload then Inl (HTTPException 401)
        else if ptype = PStr ''service'' then
          (let iss = as_text (dget_or payload ''iss'' (PStr [])) in
           AuthContext_init (AUTH_ARGS\<lparr> au_principal_id := iss, au_principal_type := ''service'', au_authority := some_text iss \<rparr>))
        else if ptype = PStr ''mcp_client'' then
          (let sub = dget payload ''sub'' in
           AuthContext_init (AUTH_ARGS\<lparr> au_principal_id := if truthy sub then as_text sub else [], au_principal_type := ''mcp_client'',
             au_user_id := if truthy sub then Some (as_text sub) else None, au_actor := claim_aud_str payload \<rparr>))
        else if ptype = PStr ''delegation'' then delegation_auth payload
        else user_auth uuid5 v payload))"

text \<open>What a node knows when a token arrives: libraries, clocks, the network and its configuration.\<close>

record auth_env =
  e_jose :: jose
  e_net :: net
  e_clock :: clock4
  e_clock2 :: clock4
  e_now :: int
  e_sha256 :: "string \<Rightarrow> string"
  e_uuid5 :: "string \<Rightarrow> string"
  e_authority_issuer :: string
  e_manifest :: "doc option"
  e_issuer_docs :: "doc list option"

definition split_target :: "string \<Rightarrow> string option \<times> string" where
  "split_target raw_token =
     (if CHR '':'' \<in> set raw_token \<and> \<not> starts_with ''ey'' raw_token \<and> starts_with KEY_PREFIX (tl (dropWhile (\<lambda>c. c \<noteq> CHR '':'') raw_token))
      then (Some (takeWhile (\<lambda>c. c \<noteq> CHR '':'') raw_token), tl (dropWhile (\<lambda>c. c \<noteq> CHR '':'') raw_token))
      else (None, raw_token))"

text \<open>Verification with one retry after a trust refresh, whose exceptions are swallowed.\<close>

definition verify_with_refresh :: "auth_env \<Rightarrow> string \<Rightarrow> oidc \<Rightarrow> doc option result \<times> oidc" where
  "verify_with_refresh E raw_token v =
     (case verify_token (e_jose E) (e_net E) (e_clock E) (e_now E) raw_token PNone v of
        (Inr None, v) \<Rightarrow>
          if count_list raw_token (CHR ''.'') = 2 then
            (case refresh_if_unknown_iss (e_jose E) (e_manifest E) (e_authority_issuer E) (e_issuer_docs E) (e_now E) raw_token v of
               Inl _ \<Rightarrow> (Inr None, v)
             | Inr (False, v) \<Rightarrow> (Inr None, v)
             | Inr (True, v) \<Rightarrow>
                 (case verify_token (e_jose E) (e_net E) (e_clock2 E) (e_now E) raw_token PNone v of
                    (Inl _, v) \<Rightarrow> (Inr None, v)
                  | (Inr payload, v) \<Rightarrow> (Inr payload, v)))
          else (Inr None, v)
      | (payload, v) \<Rightarrow> (payload, v))"

definition key_auth ::
  "hashlib \<Rightarrow> auth_env \<Rightarrow> ambient \<Rightarrow> node_key \<Rightarrow> string option \<Rightarrow> string \<Rightarrow> lattice \<Rightarrow> auth_context result \<times> lattice" where
  "key_auth H E amb K target raw_token st =
     (case authenticate (e_sha256 E) amb K st raw_token of
        Inl e \<Rightarrow> (Inl e, st)
      | Inr None \<Rightarrow> (Inl (HTTPException 401), st)
      | Inr (Some root) \<Rightarrow>
          (case resolve amb K st (fst root) of
             Inl e \<Rightarrow> (Inl e, st)
           | Inr grants \<Rightarrow>
               (case touch H amb K root st of
                  (root, st) \<Rightarrow>
                    (AuthContext_init (AUTH_ARGS\<lparr> au_principal_id := g_id (fst root), au_principal_type := ''grant_key'', au_grants := grants,
                       au_grant_key_id := some_text (g_id (fst root)), au_bearer_grant := Some (fst root),
                       au_target_artifact_id := target \<rparr>), st))))"

definition resolve_auth ::
  "hashlib \<Rightarrow> auth_env \<Rightarrow> ambient \<Rightarrow> node_key \<Rightarrow> string \<Rightarrow> lattice \<Rightarrow> oidc \<Rightarrow> auth_context result \<times> lattice \<times> oidc" where
  "resolve_auth H E amb K token st v =
     (if token = [] then (Inl (HTTPException 401), st, v)
      else
        (case split_target (py_strip token) of
           (target, raw_token) \<Rightarrow>
             if starts_with KEY_PREFIX raw_token then
               (case key_auth H E amb K target raw_token st of (r, st) \<Rightarrow> (r, st, v))
             else if starts_with ''agc_'' raw_token then (Inl (HTTPException 401), st, v)
             else
               (case verify_with_refresh E raw_token v of
                  (payload, v) \<Rightarrow>
                    (rbind payload (\<lambda>payload.
                       case payload of
                         Some p \<Rightarrow> if ''sub'' \<in> fst ` set p then jwt_auth (e_uuid5 E) (e_authority_issuer E) v p else Inl (HTTPException 401)
                       | None \<Rightarrow> Inl (HTTPException 401)), st, v))))"

section \<open>Bounds beyond the grants\<close>

record request =
  req_method :: string
  req_path :: string
  req_challenge :: string

record mail_ids =
  ml_authorizer :: string
  ml_client_secret :: string
  ml_refresh_token :: string

definition rstrip_slash :: "string \<Rightarrow> string" where
  "rstrip_slash s = rev (dropWhile (\<lambda>c. c = CHR ''/'') (rev s))"

definition scope_allows :: "mail_ids option \<Rightarrow> string \<Rightarrow> string \<Rightarrow> string \<Rightarrow> bool" where
  "scope_allows ids scope method path =
     (if scope = ''platform.email.send'' then
        (case ids of
           None \<Rightarrow> False
         | Some m \<Rightarrow>
             method = ''GET'' \<and> rstrip_slash path = ''/artifacts/'' @ ml_authorizer m
             \<or> method = ''POST'' \<and> path \<in> {''/artifacts/'' @ ml_client_secret m @ ''/use'', ''/artifacts/'' @ ml_refresh_token m @ ''/use''})
      else if scope = ''platform.stripe.resolve'' then method = ''POST'' \<and> rstrip_slash path = ''/secrets/reveal''
      else False)"

definition PLATFORM_SCOPE_PREFIX :: string where "PLATFORM_SCOPE_PREFIX = ''platform.''"

definition scope_of :: "auth_context \<Rightarrow> string" where
  "scope_of a = py_strip (case au_scope a of None \<Rightarrow> [] | Some s \<Rightarrow> s)"

definition enforce_token_scope :: "mail_ids option \<Rightarrow> auth_context \<Rightarrow> request option \<Rightarrow> unit result" where
  "enforce_token_scope ids a req =
     (if scope_of a = [] \<or> \<not> starts_with PLATFORM_SCOPE_PREFIX (scope_of a) then Inr ()
      else
        (let method = (case req of None \<Rightarrow> [] | Some r \<Rightarrow> req_method r); path = (case req of None \<Rightarrow> [] | Some r \<Rightarrow> req_path r) in
         if scope_allows ids (scope_of a) method path then Inr () else Inl (HTTPException 403)))"

definition NONCE_TTL_SECONDS :: int where "NONCE_TTL_SECONDS = 1800"

text \<open>\<open>s.split(":", n)\<close>.\<close>

fun split_colon :: "nat \<Rightarrow> string \<Rightarrow> string list" where
  "split_colon 0 s = [s]"
| "split_colon (Suc n) s =
     (if CHR '':'' \<in> set s
      then takeWhile (\<lambda>c. c \<noteq> CHR '':'') s # split_colon n (tl (dropWhile (\<lambda>c. c \<noteq> CHR '':'') s)) else [s])"

text \<open>\<open>int(s)\<close> on decimal text: surrounding space, a sign, single underscores between digits.\<close>

fun digits_ok :: "string \<Rightarrow> bool" where
  "digits_ok [] = False"
| "digits_ok [c] = is_digit c"
| "digits_ok (c # d # s) = (is_digit c \<and> (if d = CHR ''_'' then digits_ok s else digits_ok (d # s)))"

definition py_int :: "string \<Rightarrow> int option" where
  "py_int s =
     (let t = py_strip s;
          neg = starts_with ''-'' t;
          u = (if neg \<or> starts_with ''+'' t then tl t else t) in
      if digits_ok u then Some ((if neg then -1 else 1) * int (digits_value 0 (filter (\<lambda>c. c \<noteq> CHR ''_'') u))) else None)"

record nonce_lib =
  b64_decode :: "string \<Rightarrow> string option"
  hmac_sha256 :: "string \<Rightarrow> string \<Rightarrow> string"

definition verify_nonce :: "nonce_lib \<Rightarrow> int \<Rightarrow> string \<Rightarrow> string \<Rightarrow> string \<Rightarrow> string \<Rightarrow> int \<Rightarrow> bool" where
  "verify_nonce L now token key_id artifact_id secret ttl_seconds =
     (if secret = [] \<or> token = [] then False
      else
        (case b64_decode L (token @ replicate (4 - length token mod 4) (CHR ''='')) of
           None \<Rightarrow> False
         | Some decoded \<Rightarrow>
             (case split_colon 3 decoded of
                [ts_str, nonce_artifact_id, nonce_key_id, sig] \<Rightarrow>
                  (case py_int ts_str of
                     None \<Rightarrow> False
                   | Some ts \<Rightarrow>
                       if nonce_artifact_id \<noteq> artifact_id \<or> nonce_key_id \<noteq> key_id then False
                       else if ttl_seconds < now - ts then False
                       else sig = hmac_sha256 L secret (ts_str @ '':'' @ artifact_id @ '':'' @ key_id))
              | _ \<Rightarrow> False)))"

definition check_inbound_nonce :: "nonce_lib \<Rightarrow> int \<Rightarrow> string \<Rightarrow> request option \<Rightarrow> auth_context \<Rightarrow> unit result" where
  "check_inbound_nonce L now secret req a =
     (if au_principal_type a \<noteq> ''grant_key'' then Inr ()
      else
        (case au_bearer_grant a of
           None \<Rightarrow> Inr ()
         | Some root \<Rightarrow>
             if \<not> requires_nonce root then Inr ()
             else
               (let nonce = (case req of None \<Rightarrow> [] | Some r \<Rightarrow> req_challenge r) in
                if nonce = [] then Inl (HTTPException 403)
                else if \<not> verify_nonce L now nonce (opt_text (au_grant_key_id a)) (opt_text (au_target_artifact_id a)) secret NONCE_TTL_SECONDS
                then Inl (HTTPException 403)
                else Inr ())))"

definition enforce_token_bounds ::
  "mail_ids option \<Rightarrow> nonce_lib \<Rightarrow> int \<Rightarrow> string \<Rightarrow> auth_context \<Rightarrow> request option \<Rightarrow> request option \<Rightarrow> unit result" where
  "enforce_token_bounds ids L now secret a req nonce_source =
     rbind (enforce_token_scope ids a req) (\<lambda>_.
       check_inbound_nonce L now secret (case nonce_source of Some s \<Rightarrow> Some s | None \<Rightarrow> req) a)"

section \<open>The acting principal\<close>

record acting_principal =
  ap_principal_id :: string
  ap_principal_type :: string
  ap_actor :: "string option"
  ap_host_id :: "string option"
  ap_authority :: "string option"
  ap_source :: string

definition acting_from_auth :: "auth_context \<Rightarrow> acting_principal option" where
  "acting_from_auth a =
     (let pid = str_or (au_principal_id a) (opt_text (au_user_id a)) in
      if pid = [] then None
      else Some \<lparr> ap_principal_id = pid, ap_principal_type = str_or (au_principal_type a) ''user'', ap_actor = au_actor a,
                  ap_host_id = au_host_id a, ap_authority = au_authority a, ap_source = ''request'' \<rparr>)"

text \<open>\<open>get_auth\<close>: the caller and the principal it publishes; the previous one stands for a caller with no identity.\<close>

definition get_auth ::
  "hashlib \<Rightarrow> auth_env \<Rightarrow> ambient \<Rightarrow> node_key \<Rightarrow> mail_ids option \<Rightarrow> nonce_lib \<Rightarrow> string \<Rightarrow> string \<Rightarrow> request option
     \<Rightarrow> lattice \<Rightarrow> oidc \<Rightarrow> acting_principal option \<Rightarrow> auth_context result \<times> lattice \<times> oidc \<times> acting_principal option" where
  "get_auth H E amb K ids L secret token req st v acting =
     (case resolve_auth H E amb K token st v of
        (r, st, v) \<Rightarrow>
          (case rbind r (\<lambda>a. rbind (enforce_token_bounds ids L (e_now E div 1000000) secret a req None) (\<lambda>_. Inr a)) of
             Inl e \<Rightarrow> (Inl e, st, v, acting)
           | Inr a \<Rightarrow>
               (Inr a, st, v,
                if au_principal_id a \<noteq> [] \<or> opt_text (au_user_id a) \<noteq> [] then acting_from_auth a else acting)))"

section \<open>Lemmas\<close>

lemma AuthContext_init_Inr:
  "AuthContext_init a = Inr b \<longleftrightarrow> a = b \<and> au_principal_id b \<noteq> PUBLIC_PRINCIPAL \<and> au_user_id b \<noteq> Some PUBLIC_PRINCIPAL"
  by (auto simp: AuthContext_init_def)

lemma jwt_auth_shape:
  assumes "jwt_auth uuid5 ai v p = Inr a"
  shows "au_principal_id a \<noteq> PUBLIC_PRINCIPAL \<and> au_user_id a \<noteq> Some PUBLIC_PRINCIPAL \<and> au_principal_type a \<noteq> ''grant_key''"
  using assms
  unfolding jwt_auth_def user_auth_def delegation_auth_def Let_def rbind_def AUTH_ARGS_def
  by (auto simp: AuthContext_init_Inr split: sum.splits if_splits)

lemma split_colon_3:
  "split_colon 3 s = [a, b, c, d] \<longleftrightarrow>
     s = a @ '':'' @ b @ '':'' @ c @ '':'' @ d \<and> CHR '':'' \<notin> set a \<and> CHR '':'' \<notin> set b \<and> CHR '':'' \<notin> set c"
proof -
  have tw: "takeWhile (\<lambda>c. c \<noteq> CHR '':'') (x @ CHR '':'' # y) = x" "dropWhile (\<lambda>c. c \<noteq> CHR '':'') (x @ CHR '':'' # y) = CHR '':'' # y"
    if "CHR '':'' \<notin> set x" for x y :: string
    using that by (induction x) auto
  have step: "split_colon (Suc n) s = x # xs \<and> xs \<noteq> [] \<longleftrightarrow> (\<exists>y. s = x @ CHR '':'' # y \<and> CHR '':'' \<notin> set x \<and> split_colon n y = xs)" for n s x xs
  proof
    assume l: "split_colon (Suc n) s = x # xs \<and> xs \<noteq> []"
    then have "CHR '':'' \<in> set s" by (auto split: if_splits)
    then obtain u y where s: "s = u @ CHR '':'' # y" "CHR '':'' \<notin> set u" by (meson split_list_first)
    with l tw [OF s(2)] show "\<exists>y. s = x @ CHR '':'' # y \<and> CHR '':'' \<notin> set x \<and> split_colon n y = xs" by auto
  next
    assume "\<exists>y. s = x @ CHR '':'' # y \<and> CHR '':'' \<notin> set x \<and> split_colon n y = xs"
    then obtain y where "s = x @ CHR '':'' # y" "CHR '':'' \<notin> set x" "split_colon n y = xs" by blast
    moreover have "split_colon n y \<noteq> []" by (cases n) simp_all
    ultimately show "split_colon (Suc n) s = x # xs \<and> xs \<noteq> []" by (auto simp: tw)
  qed
  show ?thesis
    using step [of 2 s a "[b, c, d]"] step [of 1 _ b "[c, d]"] step [of 0 _ c "[d]"]
    by (auto simp: numeral_eq_Suc simp del: split_colon.simps(2))
qed

lemma scope_bound:
  assumes "enforce_token_scope ids a req = Inr ()"
  shows "starts_with PLATFORM_SCOPE_PREFIX (scope_of a) \<longrightarrow> (\<exists>q. req = Some q \<and> scope_allows ids (scope_of a) (req_method q) (req_path q))"
proof (rule impI)
  assume p: "starts_with PLATFORM_SCOPE_PREFIX (scope_of a)"
  then have "scope_of a \<noteq> []" by (auto simp: PLATFORM_SCOPE_PREFIX_def)
  moreover have "\<not> scope_allows ids s [] []" for s by (auto simp: scope_allows_def split: option.splits)
  ultimately show "\<exists>q. req = Some q \<and> scope_allows ids (scope_of a) (req_method q) (req_path q)"
    using assms p by (cases req) (simp_all add: enforce_token_scope_def split: if_split_asm)
qed

lemma nonce_bound:
  assumes "check_inbound_nonce L now secret req a = Inr ()"
  shows "au_principal_type a = ''grant_key'' \<and> (\<exists>g. au_bearer_grant a = Some g \<and> requires_nonce g) \<longrightarrow>
    (\<exists>q. req = Some q \<and> verify_nonce L now (req_challenge q) (opt_text (au_grant_key_id a)) (opt_text (au_target_artifact_id a)) secret NONCE_TTL_SECONDS)"
  using assms by (cases req) (auto simp: check_inbound_nonce_def Let_def split: if_split_asm)

lemma resolved_shape:
  assumes "resolve_auth H E amb K token st v = (Inr a, st', v')"
  shows "au_principal_id a \<noteq> PUBLIC_PRINCIPAL \<and> au_user_id a \<noteq> Some PUBLIC_PRINCIPAL
     \<and> (au_principal_type a = ''grant_key'' \<longrightarrow> au_user_id a = None
          \<and> (\<exists>root. authenticate (e_sha256 E) amb K st (snd (split_target (py_strip token))) = Inr (Some root)
               \<and> list_all (bounded_grant amb K st (mask_of (fst root))) (au_grants a)))"
proof -
  obtain target raw where sp: "split_target (py_strip token) = (target, raw)" by fastforce
  show ?thesis
  proof (cases "starts_with KEY_PREFIX raw")
    case True
    with assms sp obtain root gs where r: "authenticate (e_sha256 E) amb K st raw = Inr (Some root)" "resolve amb K st (fst root) = Inr gs"
      "AuthContext_init (AUTH_ARGS\<lparr> au_principal_id := g_id (fst (fst (touch H amb K root st))), au_principal_type := ''grant_key'', au_grants := gs,
         au_grant_key_id := some_text (g_id (fst (fst (touch H amb K root st)))), au_bearer_grant := Some (fst (fst (touch H amb K root st))),
         au_target_artifact_id := target \<rparr>) = Inr a"
      by (auto simp: resolve_auth_def key_auth_def split: if_splits sum.splits option.splits prod.splits)
    have "list_all (bounded_grant amb K st (mask_of (fst root))) gs"
      using resolve_bounded [OF authenticated_effect [OF r(1)], of amb K st] r(2) by auto
    with r sp show ?thesis by (auto simp: AuthContext_init_Inr AUTH_ARGS_def)
  next
    case False
    with assms sp obtain v'' p where "jwt_auth (e_uuid5 E) (e_authority_issuer E) v'' p = Inr a"
      by (auto simp: resolve_auth_def rbind_def split: if_splits sum.splits option.splits prod.splits)
    from jwt_auth_shape [OF this] show ?thesis by blast
  qed
qed

section \<open>Correctness\<close>

text \<open>(C22) Nobody authenticates as the commons, and a bearer key is never a person: whatever the token, a resolved
  caller has neither the reserved principal nor the reserved user, and a caller with grants of its own
  is a key without a user id, whose grants are all below the root grant and what its issuer holds at
  this moment.\<close>

theorem resolved_caller_shape:
  assumes "resolve_auth H E amb K token st v = (Inr a, st', v')"
  shows "au_principal_id a \<noteq> PUBLIC_PRINCIPAL \<and> au_user_id a \<noteq> Some PUBLIC_PRINCIPAL
     \<and> (au_principal_type a = ''grant_key'' \<longrightarrow> au_user_id a = None
          \<and> (\<exists>root. authenticate (e_sha256 E) amb K st (snd (split_target (py_strip token))) = Inr (Some root)
               \<and> list_all (bounded_grant amb K st (mask_of (fst root))) (au_grants a)))"
  using assms by (rule resolved_shape)

text \<open>A node that knows the key of \<open>key_store\<close> and no issuer.\<close>

definition toy_env :: auth_env where
  "toy_env = \<lparr> e_jose = toy_jose, e_net = one_key, e_clock = ((0, 0), (0, 0)), e_clock2 = ((0, 0), (0, 0)), e_now = 0,
     e_sha256 = (\<lambda>_. ''A''), e_uuid5 = id, e_authority_issuer = [], e_manifest = None, e_issuer_docs = None \<rparr>"

lemma toy_resolve:
  assumes "authenticate (\<lambda>_. ''A'') sample_ambient sample_key st ''agk_x'' = Inr (Some root)"
    and "resolve sample_ambient sample_key st (fst root) = Inr gs" "g_id (fst root) = ''k1''"
  obtains a st' where "resolve_auth sample_H toy_env sample_ambient sample_key ''agk_x'' st one_issuer = (Inr a, st', one_issuer)"
    "au_principal_id a = ''k1''" "au_principal_type a = ''grant_key''" "au_scope a = None" "au_grants a = gs"
    "au_bearer_grant a = Some ((fst root)\<lparr> last_used_at := Some (now_iso sample_ambient) \<rparr>)"
proof -
  have "split_target (py_strip ''agk_x'') = (None, ''agk_x'')" by (simp add: split_target_def py_strip_def is_space_def)
  moreover have "starts_with KEY_PREFIX ''agk_x''" by (simp add: KEY_PREFIX_def)
  moreover obtain r st' where "touch sample_H sample_ambient sample_key root st = (r, st')" "fst r = (fst root)\<lparr> last_used_at := Some (now_iso sample_ambient) \<rparr>"
    by (simp add: touch_def Let_def)
  ultimately show thesis
    using assms
    by (intro that [of "AUTH_ARGS\<lparr> au_principal_id := ''k1'', au_principal_type := ''grant_key'', au_grants := gs, au_grant_key_id := some_text ''k1'',
          au_bearer_grant := Some (fst r) \<rparr>" st'])
      (simp_all add: resolve_auth_def key_auth_def toy_env_def AuthContext_init_def AUTH_ARGS_def PUBLIC_PRINCIPAL_def)
qed

lemma toy_key_store:
  obtains gs where "resolve sample_ambient sample_key key_store (fst (from_lattice_doc sample_ambient sample_key key_doc)) = Inr gs"
    "g_id (fst (from_lattice_doc sample_ambient sample_key key_doc)) = ''k1''"
proof -
  have "dget key_doc ''id'' = PStr ''k1''" by (simp add: key_doc_def dget_Cons)
  then have "g_id (fst (from_lattice_doc sample_ambient sample_key key_doc)) = ''k1''" by (rule decoded_id) simp
  with resolve_bounded [OF decoded_effect] that show thesis by blast
qed

theorem resolved_caller_shape_witness:
  "\<exists>a st'. resolve_auth sample_H toy_env sample_ambient sample_key ''agk_x'' key_store one_issuer = (Inr a, st', one_issuer)
     \<and> au_principal_id a = ''k1'' \<and> au_user_id a = None"
proof -
  obtain gs where gs: "resolve sample_ambient sample_key key_store (fst (from_lattice_doc sample_ambient sample_key key_doc)) = Inr gs"
    "g_id (fst (from_lattice_doc sample_ambient sample_key key_doc)) = ''k1''" by (rule toy_key_store)
  obtain a st' where a: "resolve_auth sample_H toy_env sample_ambient sample_key ''agk_x'' key_store one_issuer = (Inr a, st', one_issuer)"
    "au_principal_id a = ''k1''" "au_principal_type a = ''grant_key''" by (rule toy_resolve [OF key_store_authenticates gs])
  from resolved_caller_shape [OF a(1)] a show ?thesis by simp
qed

text \<open>The challenge of a nonce-gated key is accepted exactly when it decodes to a timestamp no older than the time
  to live, the target artifact, the key and the keyed hash of those three under a configured secret.
  An artifact or key id with a colon in it never has an acceptable challenge.\<close>

theorem nonce_exact:
  "verify_nonce L now token key_id artifact_id secret ttl \<longleftrightarrow> secret \<noteq> [] \<and> token \<noteq> []
     \<and> (\<exists>ts_str ts. b64_decode L (token @ replicate (4 - length token mod 4) (CHR ''=''))
            = Some (ts_str @ '':'' @ artifact_id @ '':'' @ key_id @ '':'' @ hmac_sha256 L secret (ts_str @ '':'' @ artifact_id @ '':'' @ key_id))
          \<and> CHR '':'' \<notin> set ts_str \<and> CHR '':'' \<notin> set artifact_id \<and> CHR '':'' \<notin> set key_id
          \<and> py_int ts_str = Some ts \<and> now - ts \<le> ttl)"
proof (cases "b64_decode L (token @ replicate (4 - length token mod 4) (CHR ''=''))")
  case None
  then show ?thesis by (simp add: verify_nonce_def)
next
  case (Some dec)
  let ?sig = "\<lambda>ts_str. hmac_sha256 L secret (ts_str @ '':'' @ artifact_id @ '':'' @ key_id)"
  have parts: "(case split_colon 3 dec of [t, x, k, sg] \<Rightarrow> P t x k sg | _ \<Rightarrow> False)
      \<longleftrightarrow> (\<exists>t x k sg. split_colon 3 dec = [t, x, k, sg] \<and> P t x k sg)" for P
    by (auto split: list.splits)
  have "verify_nonce L now token key_id artifact_id secret ttl \<longleftrightarrow> secret \<noteq> [] \<and> token \<noteq> []
     \<and> (\<exists>t. split_colon 3 dec = [t, artifact_id, key_id, ?sig t] \<and> (\<exists>ts. py_int t = Some ts \<and> now - ts \<le> ttl))"
    unfolding verify_nonce_def Some option.case parts by (auto split: option.splits)
  then show ?thesis unfolding Some split_colon_3 option.inject by blast
qed



end
