(* ===== verification/Check_Access.thy ===== *)
theory Check_Access
  imports Authn
begin

text \<open>
  Authorization of one request, the rest of \<open>services/dependencies.py\<close>: \<open>check_access\<close> with its grant memo and
  its audit witness, the platform-admin predicate, and the flat permission check.

  The exceptions of a store read are values; the audit record is returned beside the answer, since a
  failure to write it is swallowed. \<open>resolve_operator_id\<close> and the id of the authority collection are
  arguments (\<open>None\<close> when the slug is not resolved).
\<close>

section \<open>Definitions\<close>

record access_record =
  ar_principal_id :: string
  ar_artifact_id :: string
  ar_action :: string
  ar_result :: string
  ar_reason :: "string option"
  ar_via :: string
  ar_grant_key_id :: "string option"
  ar_tenant :: "string option"
  ar_actor :: "string option"

definition access_witness :: "auth_context \<Rightarrow> string \<Rightarrow> string \<Rightarrow> string \<Rightarrow> string option \<Rightarrow> access_record" where
  "access_witness auth artifact_id action result reason =
     \<lparr> ar_principal_id = str_or (opt_text (au_user_id auth)) (au_principal_id auth), ar_artifact_id = artifact_id, ar_action = action,
       ar_result = result, ar_reason = reason, ar_via = au_principal_type auth, ar_grant_key_id = au_grant_key_id auth,
       ar_tenant = au_authority auth, ar_actor = au_actor auth \<rparr>"

definition check_grant_permission :: "grant list \<Rightarrow> string \<Rightarrow> string \<Rightarrow> bool" where
  "check_grant_permission grants action rid =
     list_ex (\<lambda>g. \<not> grant_is_deny g \<and> get_flag g (flag_of action) \<and> (rid = [] \<or> resource_id g = rid)) grants"

type_synonym memo = "(string \<times> grant list) list option"

text \<open>Where the grants at one resource come from: a key's were resolved at authentication, a user's are looked up,
  through the memo when there is one.\<close>

definition grants_at ::
  "ambient \<Rightarrow> node_key \<Rightarrow> lattice \<Rightarrow> auth_context \<Rightarrow> memo \<Rightarrow> string \<Rightarrow> grant list result \<times> memo" where
  "grants_at amb K st auth memo rid =
     (if au_principal_type auth = ''grant_key'' then (Inr (filter (\<lambda>g. resource_id g = rid) (au_grants auth)), memo)
      else
        (case (case memo of None \<Rightarrow> None | Some m \<Rightarrow> map_of m rid) of
           Some gs \<Rightarrow> (Inr gs, memo)
         | None \<Rightarrow>
             (case get_active_grants_for_principal_resource amb K st (opt_text (au_user_id auth)) rid of
                Inl e \<Rightarrow> (Inl e, memo)
              | Inr es \<Rightarrow> (Inr (map fst es), map_option (AList.update rid (map fst es)) memo))))"

text \<open>\<open>_check_grants\<close> on the grants of one level: a deny refuses, else the first allow is held, else silence.\<close>

definition level_verdict :: "string \<Rightarrow> grant list \<Rightarrow> grant option result" where
  "level_verdict flag grants =
     (if list_ex (\<lambda>g. grant_is_deny g \<and> get_flag g flag) grants then Inl (HTTPException 404)
      else Inr (find_first (\<lambda>g. grant_is_allow g \<and> get_flag g flag) grants))"

text \<open>The handler around the loop: only a chain that did not end becomes a 500.\<close>

definition chain_raised :: "py_error \<Rightarrow> grant option result \<times> (string \<times> string option) list" where
  "chain_raised e =
     (if e = OriginChainUnterminated then (Inl (HTTPException 500), [(''denied'', Some ''origin_chain_did_not_terminate'')])
      else (Inl e, []))"

fun cone_walk ::
  "('m \<Rightarrow> string \<Rightarrow> grant list result \<times> 'm) \<Rightarrow> string \<Rightarrow> string list \<Rightarrow> py_error option \<Rightarrow> 'm
     \<Rightarrow> (grant option result \<times> (string \<times> string option) list) \<times> 'm" where
  "cone_walk fetch flag [] err memo = ((case err of None \<Rightarrow> (Inr None, []) | Some e \<Rightarrow> chain_raised e), memo)"
| "cone_walk fetch flag (r # rs) err memo =
     (case fetch memo r of
        (Inl e, memo) \<Rightarrow> (chain_raised e, memo)
      | (Inr grants, memo) \<Rightarrow>
          (case level_verdict flag grants of
             Inl e \<Rightarrow> ((Inl e, [(''denied'', Some ''deny_grant'')]), memo)
           | Inr (Some g) \<Rightarrow> ((Inr (Some g), [(''allowed'', None)]), memo)
           | Inr None \<Rightarrow> cone_walk fetch flag rs err memo))"

definition commons_grant :: "ambient \<Rightarrow> string \<Rightarrow> grant" where
  "commons_grant amb artifact_id =
     Grant_init amb (GRANT_ARGS\<lparr> resource_id := artifact_id, grantee_type := GRANTEE_USER, grantee_id := PUBLIC_PRINCIPAL \<rparr>)"

definition doc_root :: "doc \<Rightarrow> string \<Rightarrow> string" where
  "doc_root d artifact_id = (if truthy (dget d ''root_id'') then dtext d ''root_id'' else artifact_id)"

text \<open>After the walk: what it found, else the commons for a read, else a refusal; each is witnessed. A publicity
  question that cannot be answered is not a publication.\<close>

definition settle ::
  "ambient \<Rightarrow> lattice \<Rightarrow> auth_context \<Rightarrow> string \<Rightarrow> string \<Rightarrow> doc \<Rightarrow> grant option result \<times> (string \<times> string option) list
     \<Rightarrow> grant result \<times> access_record list" where
  "settle amb st auth artifact_id action d w =
     (let records = map (\<lambda>(res, why). access_witness auth artifact_id action res why) in
      case w of
        (Inl e, ws) \<Rightarrow> (Inl e, records ws)
      | (Inr (Some g), ws) \<Rightarrow> (Inr g, records ws)
      | (Inr None, ws) \<Rightarrow>
          if action = ''read'' \<and> is_made_public amb st d = Inr True
          then (Inr (commons_grant amb artifact_id), records (ws @ [(''allowed'', Some ''made_public'')]))
          else (Inl (HTTPException 404), records (ws @ [(''denied'', Some ''no_grant'')])))"

definition check_access ::
  "ambient \<Rightarrow> node_key \<Rightarrow> auth_context \<Rightarrow> string \<Rightarrow> string \<Rightarrow> lattice \<Rightarrow> memo
     \<Rightarrow> (grant result \<times> access_record list) \<times> memo" where
  "check_access amb K auth artifact_id action st memo =
     (case FLAG_OF action of
        None \<Rightarrow> ((Inl (HTTPException 400), []), memo)
      | Some flag \<Rightarrow>
          (case (case get_artifact st artifact_id of Inl _ \<Rightarrow> None | Inr d \<Rightarrow> d) of
             None \<Rightarrow> ((Inl (HTTPException 404), []), memo)
           | Some d \<Rightarrow>
               if d = [] then ((Inl (HTTPException 404), []), memo)
               else
                 (let is_key = (au_principal_type auth = ''grant_key'') in
                  if opt_text (au_user_id auth) = [] \<and> \<not> is_key then ((Inl (HTTPException 404), []), memo)
                  else if is_key \<and> au_grants auth = [] then ((Inl (HTTPException 404), []), memo)
                  else
                    (case origin_chain st artifact_id action (Some (doc_root d artifact_id)) ORIGIN_WALK_CEILING of
                       (chain, err) \<Rightarrow>
                         (case cone_walk (grants_at amb K st auth) flag chain err memo of
                            (w, memo) \<Rightarrow> (settle amb st auth artifact_id action d w, memo))))))"

text \<open>\<open>_authority_bootstrap_complete\<close> and \<open>is_platform_admin\<close>; an unresolved authority slug raises, which both swallow.\<close>

definition authority_bootstrap_complete :: "ambient \<Rightarrow> node_key \<Rightarrow> lattice \<Rightarrow> string option \<Rightarrow> bool" where
  "authority_bootstrap_complete amb K st authority_id =
     (case authority_id of
        None \<Rightarrow> False
      | Some cid \<Rightarrow>
          (case get_grants_for_collection amb K st cid of
             Inl _ \<Rightarrow> False
           | Inr es \<Rightarrow> list_ex (\<lambda>(g, _). gstate g = STATE_ACTIVE \<and> grant_is_allow g \<and> can_admin g) es))"

definition is_platform_admin :: "ambient \<Rightarrow> node_key \<Rightarrow> lattice \<Rightarrow> string \<Rightarrow> string option \<Rightarrow> string \<Rightarrow> bool" where
  "is_platform_admin amb K st operator_id authority_id user_id =
     (if user_id = [] then False
      else if operator_id \<noteq> [] \<and> user_id = operator_id \<and> \<not> authority_bootstrap_complete amb K st authority_id then True
      else
        (case authority_id of
           None \<Rightarrow> False
         | Some cid \<Rightarrow>
             (case get_active_grants_for_principal_resource amb K st user_id cid of
                Inl _ \<Rightarrow> False
              | Inr es \<Rightarrow> list_ex (\<lambda>(g, _). grant_is_allow g \<and> can_admin g) es)))"

definition require_platform_admin :: "ambient \<Rightarrow> node_key \<Rightarrow> lattice \<Rightarrow> string \<Rightarrow> string option \<Rightarrow> auth_context \<Rightarrow> string result" where
  "require_platform_admin amb K st operator_id authority_id auth =
     (if is_platform_admin amb K st operator_id authority_id (opt_text (au_user_id auth))
      then Inr (opt_text (au_user_id auth)) else Inl (HTTPException 403))"

section \<open>The walk over a source of grants\<close>

text \<open>A level speaks to an action when one of its grants that is an allow or a deny carries the flag.\<close>

definition denies :: "string \<Rightarrow> grant list \<Rightarrow> bool" where
  "denies flag gs \<longleftrightarrow> (\<exists>g \<in> set gs. grant_is_deny g \<and> get_flag g flag)"

definition speaks :: "string \<Rightarrow> grant list \<Rightarrow> bool" where
  "speaks flag gs \<longleftrightarrow> denies flag gs \<or> (\<exists>g \<in> set gs. grant_is_allow g \<and> get_flag g flag)"

lemma level_verdict_cases:
  "level_verdict flag gs = (if denies flag gs then Inl (HTTPException 404) else Inr (find_first (\<lambda>g. grant_is_allow g \<and> get_flag g flag) gs))"
  by (simp add: level_verdict_def denies_def list_ex_iff)

lemma level_silent: "level_verdict flag gs = Inr None \<longleftrightarrow> \<not> speaks flag gs"
  by (auto simp: level_verdict_cases speaks_def find_first_None)

lemma level_holds:
  assumes "level_verdict flag gs = Inr (Some g)"
  shows "g \<in> set gs \<and> grant_is_allow g \<and> get_flag g flag \<and> \<not> denies flag gs"
  using assms find_first_Some [of _ gs g] by (auto simp: level_verdict_cases split: if_splits)

lemma level_decided:
  assumes "speaks flag gs"
  shows "level_verdict flag gs = Inl (HTTPException 404) \<and> denies flag gs \<or> (\<exists>g. level_verdict flag gs = Inr (Some g))"
  using assms level_silent [of flag gs] by (auto simp: level_verdict_cases split: if_splits)

text \<open>What the walk answers when the grants at a resource are \<open>at\<close>: the verdict of the first level that speaks.\<close>

definition first_word ::
  "(string \<Rightarrow> grant list) \<Rightarrow> string \<Rightarrow> string list \<Rightarrow> py_error option \<Rightarrow> grant option result \<times> (string \<times> string option) list" where
  "first_word at flag rs err =
     (case find_first (\<lambda>r. speaks flag (at r)) rs of
        None \<Rightarrow> (case err of None \<Rightarrow> (Inr None, []) | Some e \<Rightarrow> chain_raised e)
      | Some r \<Rightarrow> (level_verdict flag (at r), [if denies flag (at r) then (''denied'', Some ''deny_grant'') else (''allowed'', None)]))"

text \<open>A source of grants with a memo: while the memo is right, a fetch answers what is there and leaves it right.\<close>

locale grant_source =
  fixes fetch :: "'m \<Rightarrow> string \<Rightarrow> grant list result \<times> 'm"
    and ok :: "'m \<Rightarrow> bool"
    and at :: "string \<Rightarrow> grant list"
  assumes fetch_at: "ok m \<Longrightarrow> \<exists>m'. fetch m r = (Inr (at r), m') \<and> ok m'"
begin

lemma walk_first_word: "ok m \<Longrightarrow> \<exists>m'. cone_walk fetch flag rs err m = (first_word at flag rs err, m') \<and> ok m'"
proof (induction rs arbitrary: m)
  case Nil
  then show ?case by (simp add: first_word_def)
next
  case (Cons r rs)
  from fetch_at [OF Cons.prems] obtain m' where m': "fetch m r = (Inr (at r), m')" "ok m'" by blast
  show ?case
  proof (cases "speaks flag (at r)")
    case True
    then show ?thesis
      using m' level_decided [OF True] level_verdict_cases [of flag "at r"] by (auto simp: first_word_def)
  next
    case False
    then have "level_verdict flag (at r) = Inr None" by (simp add: level_silent)
    with Cons.IH [OF m'(2)] m'(1) False show ?thesis by (simp add: first_word_def)
  qed
qed

lemma walk_memo_free:
  assumes "ok m" "ok n"
  shows "fst (cone_walk fetch flag rs err m) = fst (cone_walk fetch flag rs err n)"
  using walk_first_word [OF assms(1), of flag rs err] walk_first_word [OF assms(2), of flag rs err] by auto

end

definition level_grants :: "ambient \<Rightarrow> node_key \<Rightarrow> lattice \<Rightarrow> auth_context \<Rightarrow> string \<Rightarrow> grant list" where
  "level_grants amb K st auth rid =
     (if au_principal_type auth = ''grant_key'' then filter (\<lambda>g. resource_id g = rid) (au_grants auth)
      else (case get_active_grants_for_principal_resource amb K st (opt_text (au_user_id auth)) rid of
              Inl _ \<Rightarrow> [] | Inr es \<Rightarrow> map fst es))"

definition memo_ok :: "ambient \<Rightarrow> node_key \<Rightarrow> lattice \<Rightarrow> auth_context \<Rightarrow> memo \<Rightarrow> bool" where
  "memo_ok amb K st auth memo \<longleftrightarrow>
     (case memo of None \<Rightarrow> True | Some m \<Rightarrow> (\<forall>rid gs. map_of m rid = Some gs \<longrightarrow> gs = level_grants amb K st auth rid))"

interpretation ledger_source: grant_source "grants_at amb K st auth" "memo_ok amb K st auth" "level_grants amb K st auth"
  for amb K st auth
proof
  fix m r
  assume ok: "memo_ok amb K st auth m"
  obtain es where es: "get_active_grants_for_principal_resource amb K st (opt_text (au_user_id auth)) r = Inr es"
    by (rule active_grants_total)
  show "\<exists>m'. grants_at amb K st auth m r = (Inr (level_grants amb K st auth r), m') \<and> memo_ok amb K st auth m'"
  proof -
    have at: "level_grants amb K st auth r = (if au_principal_type auth = ''grant_key'' then filter (\<lambda>g. resource_id g = r) (au_grants auth) else map fst es)"
      by (simp add: level_grants_def es)
    with ok es show ?thesis by (auto simp: grants_at_def memo_ok_def split: option.splits)
  qed
qed

text \<open>The artifact a request is about, when the caller is someone and it exists.\<close>

definition subject_doc :: "lattice \<Rightarrow> auth_context \<Rightarrow> string \<Rightarrow> doc option" where
  "subject_doc st auth artifact_id =
     (case get_artifact st artifact_id of
        Inr (Some d) \<Rightarrow>
          if d \<noteq> [] \<and> (if au_principal_type auth = ''grant_key'' then au_grants auth \<noteq> [] else opt_text (au_user_id auth) \<noteq> [])
          then Some d else None
      | _ \<Rightarrow> None)"

abbreviation access_chain :: "lattice \<Rightarrow> string \<Rightarrow> string \<Rightarrow> doc \<Rightarrow> string list \<times> py_error option" where
  "access_chain st artifact_id action d \<equiv> origin_chain st artifact_id action (Some (doc_root d artifact_id)) ORIGIN_WALK_CEILING"

lemma check_access_cases:
  "check_access amb K auth artifact_id action st memo =
     (case FLAG_OF action of
        None \<Rightarrow> ((Inl (HTTPException 400), []), memo)
      | Some flag \<Rightarrow>
          (case subject_doc st auth artifact_id of
             None \<Rightarrow> ((Inl (HTTPException 404), []), memo)
           | Some d \<Rightarrow>
               (case cone_walk (grants_at amb K st auth) flag (fst (access_chain st artifact_id action d)) (snd (access_chain st artifact_id action d)) memo of
                  (w, memo) \<Rightarrow> (settle amb st auth artifact_id action d w, memo))))"
proof (cases "case get_artifact st artifact_id of Inl _ \<Rightarrow> None | Inr d \<Rightarrow> d")
  case None
  then show ?thesis by (simp add: check_access_def subject_doc_def split: sum.splits option.splits)
next
  case (Some d)
  then have "get_artifact st artifact_id = Inr (Some d)" by (simp split: sum.splits)
  then show ?thesis by (simp add: check_access_def subject_doc_def case_prod_beta split: option.split)
qed

lemma FLAG_OF_iff: "FLAG_OF action = Some flag \<longleftrightarrow> action \<in> set ACTIONS \<and> flag = flag_of action"
  by (auto simp: FLAG_OF_def map_of_eq_Some_iff comp_def dest!: map_of_SomeD simp del: append.simps)

lemma find_first_index:
  "find_first P xs = Some x \<longleftrightarrow> (\<exists>i < length xs. xs ! i = x \<and> P x \<and> (\<forall>j < i. \<not> P (xs ! j)))"
proof (induction xs)
  case (Cons y ys)
  then show ?case by (cases "P y") (auto simp: Ex_less_Suc2 All_less_Suc2)
qed simp

lemma check_access_word:
  assumes "memo_ok amb K st auth memo" "action \<in> set ACTIONS" "subject_doc st auth artifact_id = Some d"
  shows "\<exists>memo'. check_access amb K auth artifact_id action st memo
     = (settle amb st auth artifact_id action d (first_word (level_grants amb K st auth) (flag_of action)
          (fst (access_chain st artifact_id action d)) (snd (access_chain st artifact_id action d))), memo') \<and> memo_ok amb K st auth memo'"
proof -
  have "FLAG_OF action = Some (flag_of action)" using assms(2) by (simp add: FLAG_OF_iff)
  with ledger_source.walk_first_word [OF assms(1), of "flag_of action" "fst (access_chain st artifact_id action d)" "snd (access_chain st artifact_id action d)"]
    assms(3) show ?thesis by (auto simp: check_access_cases simp del: append.simps)
qed

lemma check_access_refused:
  assumes "action \<notin> set ACTIONS \<or> subject_doc st auth artifact_id = None"
  shows "check_access amb K auth artifact_id action st memo = ((Inl (HTTPException (if action \<in> set ACTIONS then 404 else 400)), []), memo)"
proof -
  have "FLAG_OF action = (if action \<in> set ACTIONS then Some (flag_of action) else None)"
    using FLAG_OF_iff [of action] by (cases "FLAG_OF action") (auto simp del: append.simps)
  with assms show ?thesis by (auto simp: check_access_cases simp del: append.simps)
qed

lemma access_chain_error:
  assumes "access_chain st artifact_id action d = (chain, Some e)"
  shows "e = EdgesTruncated \<or> e = OriginChainUnterminated \<and> ORIGIN_WALK_CEILING < length chain"
proof -
  define cur where "cur = (if doc_root d artifact_id = [] then stored_root st artifact_id else doc_root d artifact_id)"
  define seen where "seen = (if cur = artifact_id then [artifact_id] else [artifact_id, cur])"
  from assms obtain ys where "chain_loop st action ORIGIN_WALK_CEILING (rev seen) cur = (ys, Some e)" "chain = seen @ ys"
    unfolding origin_chain_def Let_def option.case cur_def [symmetric] seen_def [symmetric] by (auto split: prod.splits)
  with chain_loop_error [of st action ORIGIN_WALK_CEILING "rev seen" cur e] show ?thesis by simp
qed

lemma granted_by_level:
  assumes "check_access amb K auth artifact_id action st None = ((Inr g, ws), m)"
  obtains r where "g \<in> set (level_grants amb K st auth r)" "allows (mask_of g) action" "\<not> denies (flag_of action) (level_grants amb K st auth r)"
  | d where "action = ''read''" "get_artifact st artifact_id = Inr (Some d)" "is_made_public amb st d = Inr True" "g = commons_grant amb artifact_id"
proof -
  have "\<not> (action \<notin> set ACTIONS \<or> subject_doc st auth artifact_id = None)"
  proof
    assume "action \<notin> set ACTIONS \<or> subject_doc st auth artifact_id = None"
    from check_access_refused [OF this, of amb K None] assms show False by simp
  qed
  then obtain d where a: "action \<in> set ACTIONS" and d: "subject_doc st auth artifact_id = Some d" by auto
  have raw: "get_artifact st artifact_id = Inr (Some d)" using d by (auto simp: subject_doc_def split: sum.splits option.splits if_splits)
  let ?at = "level_grants amb K st auth" and ?c = "access_chain st artifact_id action d"
  have "memo_ok amb K st auth None" by (simp add: memo_ok_def)
  from check_access_word [OF this a d] assms
  have st: "settle amb st auth artifact_id action d (first_word ?at (flag_of action) (fst ?c) (snd ?c)) = (Inr g, ws)" by fastforce
  show thesis
  proof (cases "find_first (\<lambda>r. speaks (flag_of action) (?at r)) (fst ?c)")
    case None
    with st raw that(2) show thesis by (auto simp: first_word_def settle_def chain_raised_def Let_def split: option.splits if_splits)
  next
    case (Some r)
    from find_first_Some [OF Some] have "speaks (flag_of action) (?at r)" by simp
    with st Some have "level_verdict (flag_of action) (?at r) = Inr (Some g)"
      using level_decided by (fastforce simp: first_word_def settle_def Let_def)
    from level_holds [OF this] a show thesis by (intro that(1) [of r]) (simp_all del: append.simps)
  qed
qed

section \<open>Correctness\<close>

text \<open>The specification of the decision: the nearest level of the origin chain that speaks to the action decides,
  a deny there refuses, and only silence all the way up leaves a read to the commons.\<close>

definition may_access :: "ambient \<Rightarrow> node_key \<Rightarrow> auth_context \<Rightarrow> string \<Rightarrow> string \<Rightarrow> lattice \<Rightarrow> bool" where
  "may_access amb K auth artifact_id action st \<longleftrightarrow> action \<in> set ACTIONS
     \<and> (\<exists>d chain err. subject_doc st auth artifact_id = Some d \<and> access_chain st artifact_id action d = (chain, err)
          \<and> ((\<exists>i < length chain. speaks (flag_of action) (level_grants amb K st auth (chain ! i))
                \<and> \<not> denies (flag_of action) (level_grants amb K st auth (chain ! i))
                \<and> (\<forall>j < i. \<not> speaks (flag_of action) (level_grants amb K st auth (chain ! j))))
             \<or> (err = None \<and> action = ''read'' \<and> is_made_public amb st d = Inr True
                \<and> (\<forall>r \<in> set chain. \<not> speaks (flag_of action) (level_grants amb K st auth r)))))"

lemma settle_granted:
  "(\<exists>g ws. settle amb st auth artifact_id action d (first_word at flag chain err) = (Inr g, ws)) \<longleftrightarrow>
     (\<exists>i < length chain. speaks flag (at (chain ! i)) \<and> \<not> denies flag (at (chain ! i)) \<and> (\<forall>j < i. \<not> speaks flag (at (chain ! j))))
     \<or> (err = None \<and> action = ''read'' \<and> is_made_public amb st d = Inr True \<and> (\<forall>r \<in> set chain. \<not> speaks flag (at r)))"
proof (cases "find_first (\<lambda>r. speaks flag (at r)) chain")
  case None
  then have silent: "\<forall>r \<in> set chain. \<not> speaks flag (at r)" by (simp add: find_first_None)
  then have "\<not> (\<exists>i < length chain. speaks flag (at (chain ! i)) \<and> Q i)" for Q by auto
  with None silent show ?thesis by (auto simp: first_word_def settle_def chain_raised_def Let_def split: option.splits)
next
  case (Some r)
  then obtain i where i: "i < length chain" "chain ! i = r" "speaks flag (at r)" "\<forall>j < i. \<not> speaks flag (at (chain ! j))"
    by (auto simp: find_first_index)
  have uniq: "k = i" if "k < length chain" "speaks flag (at (chain ! k))" "\<forall>j < k. \<not> speaks flag (at (chain ! j))" for k
    using that i by (metis linorder_neqE_nat)
  have "(\<exists>g ws. settle amb st auth artifact_id action d (first_word at flag chain err) = (Inr g, ws)) \<longleftrightarrow> \<not> denies flag (at r)"
    using level_decided [OF i(3)] by (auto simp: first_word_def Some settle_def Let_def dest: level_holds)
  with i uniq show ?thesis by (metis nth_mem)
qed

lemma granted_iff_may_access:
  "(\<exists>g ws memo. check_access amb K auth artifact_id action st None = ((Inr g, ws), memo))
     \<longleftrightarrow> may_access amb K auth artifact_id action st"
proof (cases "action \<notin> set ACTIONS \<or> subject_doc st auth artifact_id = None")
  case True
  with check_access_refused [OF True, of amb K None] show ?thesis by (auto simp: may_access_def)
next
  case False
  then obtain d where d: "subject_doc st auth artifact_id = Some d" by auto
  obtain chain err where c: "access_chain st artifact_id action d = (chain, err)" by fastforce
  have "memo_ok amb K st auth None" by (simp add: memo_ok_def)
  from check_access_word [OF this _ d] False c obtain m where
    "check_access amb K auth artifact_id action st None
       = (settle amb st auth artifact_id action d (first_word (level_grants amb K st auth) (flag_of action) chain err), m)" by fastforce
  with settle_granted [of amb st auth artifact_id action d "level_grants amb K st auth" "flag_of action" chain err] False d c
  show ?thesis unfolding may_access_def by (simp del: append.simps)
qed

text \<open>(C5) The decision is exact: a request is granted precisely when the specification above allows it. A key and a user
  differ only in where the grants of a level come from.\<close>

theorem check_access_exact:
  "(\<exists>g ws memo. check_access amb K auth artifact_id action st None = ((Inr g, ws), memo))
     \<longleftrightarrow> may_access amb K auth artifact_id action st"
  by (rule granted_iff_may_access)

text \<open>(C18) The memo changes nothing but cost: with one that holds only what the ledger holds, the answer and its audit
  record are those of a call without a memo, and the memo it leaves holds only what the ledger holds.
  It keeps the grants of a level, never a verdict, so a nearer deny still wins.\<close>

theorem memo_is_transparent:
  assumes "memo_ok amb K st auth memo"
  shows "fst (check_access amb K auth artifact_id action st memo) = fst (check_access amb K auth artifact_id action st None)
    \<and> memo_ok amb K st auth (snd (check_access amb K auth artifact_id action st memo))"
proof (cases "action \<notin> set ACTIONS \<or> subject_doc st auth artifact_id = None")
  case True
  with check_access_refused [OF True, of amb K] assms show ?thesis by simp
next
  case False
  then obtain d where d: "subject_doc st auth artifact_id = Some d" by auto
  have "memo_ok amb K st auth None" by (simp add: memo_ok_def)
  from check_access_word [OF this _ d] check_access_word [OF assms _ d] False show ?thesis by fastforce
qed



text \<open>A key without an issuer, the artifact it reads, and the request.\<close>

definition open_key_doc :: doc where
  "open_key_doc = [(''id'', PStr ''k1''), (''content_type'', PStr GRANT_CT), (''grantee_id'', PStr ''41''), (''grantee_type'', PStr ''grant_key''),
     (''resource_id'', PStr ''box''), (''granted_by'', PStr []), (''state'', PStr ''active''), (''effect'', PStr ''allow''), (''can_read'', PBool True)]"

definition open_key_store :: lattice where
  "open_key_store = (empty_lattice ''o'' 4)\<lparr> vertices :=
     [(''k1'', (sample_row ''k1'' 1)\<lparr> v_ct := Some GRANT_CT, v_doc := open_key_doc \<rparr>),
      (''box'', (sample_row ''box'' 2)\<lparr> v_doc := [(''id'', PStr ''box'')] \<rparr>)] \<rparr>"

abbreviation open_key :: grant where
  "open_key \<equiv> fst (from_lattice_doc sample_ambient sample_key open_key_doc)"

lemma open_key_facts:
  "resource_id open_key = ''box''" "granted_by open_key = []" "g_id open_key = ''k1''" "grant_is_allow open_key" "can_read open_key"
  by (simp_all add: from_lattice_doc_def Let_def Grant_from_dict_def Grant_init_def dflag_def dtext_or_def open_key_doc_def unseal_fields_def
      dget_Cons SEALED_def LATTICE_INTERNAL_def dpop_def grant_is_allow_def effect_of_def norm_effect_def dtext_def str_or_def py_lower_def
      py_strip_def is_space_def lower_char_def)

lemma open_key_runs:
  "authenticate (\<lambda>_. ''A'') sample_ambient sample_key open_key_store ''agk_x'' = Inr (Some (from_lattice_doc sample_ambient sample_key open_key_doc))"
  "resolve sample_ambient sample_key open_key_store open_key = Inr [open_key]"
proof -
  have d: "dget open_key_doc ''grantee_id'' = PStr ''41''" "dget open_key_doc ''state'' = PStr ''active''"
    "dget open_key_doc ''grantee_type'' = PStr ''grant_key''" "unexpired sample_ambient open_key_doc"
    by (simp_all add: open_key_doc_def dget_Cons unexpired_def)
  have rows: "grant_rows_by open_key_store ''grantee_id'' v = (if v = ''41'' then [open_key_doc] else [])" for v
    using d(1) by (simp add: grant_rows_by_def rows_by_id_def open_key_store_def sample_row_def GRANT_CT_def)
  then show "authenticate (\<lambda>_. ''A'') sample_ambient sample_key open_key_store ''agk_x'' = Inr (Some (from_lattice_doc sample_ambient sample_key open_key_doc))"
    using d by (simp add: authenticate_def KEY_PREFIX_def invite_store_facts(4) get_active_grants_for_grantee_def grant_docs_by_eq)
  have "list_members sample_ambient sample_key open_key_store ''k1'' = Inr []"
    by (simp add: list_members_def get_active_grants_for_grantee_def grant_docs_by_eq rows)
  then show "resolve sample_ambient sample_key open_key_store open_key = Inr [open_key]"
    using open_key_facts by (simp add: resolve_def as_held_now_def MAX_BUNDLE_DEPTH_def numeral_eq_Suc)
qed

lemma open_key_reads:
  assumes "au_principal_type a = ''grant_key''" "au_grants a = [open_key]"
  obtains ws where "check_access sample_ambient sample_key a ''box'' ''read'' open_key_store None = ((Inr open_key, ws), None)"
proof -
  have "get_origin_parent open_key_store ''box'' = Inr None"
    by (simp add: get_origin_parent_def edges_of_cases matching_edges_def open_key_store_def empty_lattice_def)
  then have c: "origin_chain open_key_store ''box'' ''read'' (Some ''box'') n = ([''box''], None)" if "0 < n" for n
    using that by (simp add: origin_chain_def Let_def chain_loop.simps [of open_key_store])
  have s: "subject_doc open_key_store a ''box'' = Some [(''id'', PStr ''box'')]"
    using assms by (simp add: subject_doc_def get_artifact_def doc_of_def open_key_store_def empty_lattice_def)
  have "FLAG_OF ''read'' = Some ''can_read''" by (simp add: FLAG_OF_def ACTIONS_def)
  then show thesis
    using assms open_key_facts c [of ORIGIN_WALK_CEILING]
    by (intro that [of "[access_witness a ''box'' ''read'' ''allowed'' None]"])
      (simp add: check_access_cases s doc_root_def dget_def ORIGIN_WALK_CEILING_def grants_at_def level_verdict_def get_flag_def settle_def
        allow_not_deny)
qed


theorem memo_is_transparent_witness:
  "let auth = AUTH_ARGS\<lparr> au_user_id := Some ''ann'' \<rparr> in
     memo_ok sample_ambient sample_key open_key_store auth (Some [])
     \<and> fst (check_access sample_ambient sample_key auth ''box'' ''read'' open_key_store (Some []))
         = fst (check_access sample_ambient sample_key auth ''box'' ''read'' open_key_store None)"
  using memo_is_transparent [of sample_ambient sample_key open_key_store "AUTH_ARGS\<lparr> au_user_id := Some ''ann'' \<rparr>" "Some []" "''box''" "''read''"]
  by (simp add: memo_ok_def)

text \<open>Who is a platform administrator: a user with an active allow grant carrying \<open>can_admin\<close> on the authority
  collection, or the operator while no stored grant there, whoever holds it, is an active allow with
  \<open>can_admin\<close>. A deny takes no part, and nobody is administrator without a user id.\<close>

theorem platform_admin_exact:
  "is_platform_admin amb K st operator_id (Some cid) user_id \<longleftrightarrow> user_id \<noteq> []
     \<and> ((\<exists>g \<in> held amb K st user_id cid. grant_is_allow g \<and> can_admin g)
        \<or> (user_id = operator_id \<and> \<not> authority_bootstrap_complete amb K st (Some cid)))"
proof -
  obtain es where es: "get_active_grants_for_principal_resource amb K st user_id cid = Inr es" "fst ` set es = held amb K st user_id cid"
    by (rule active_grants_total)
  have "list_ex (\<lambda>(g, _). grant_is_allow g \<and> can_admin g) es \<longleftrightarrow> (\<exists>g \<in> held amb K st user_id cid. grant_is_allow g \<and> can_admin g)"
    unfolding es(2) [symmetric] by (force simp: list_ex_iff)
  with es(1) show ?thesis by (auto simp: is_platform_admin_def)
qed

text \<open>The bootstrap window can close on a grant that makes nobody administrator: \<open>authority_bootstrap_complete\<close> reads
  all grants on the authority collection, expired ones too, while the predicate reads the unexpired
  ones. When the only administrator grant has expired, no user is administrator, the operator included.\<close>

theorem expired_admin_locks_out:
  assumes "\<forall>d \<in> set (grant_rows_by st ''resource_id'' cid). \<not> unexpired amb d"
    and "authority_bootstrap_complete amb K st (Some cid)"
  shows "\<not> is_platform_admin amb K st operator_id (Some cid) user_id"
proof -
  have "{d \<in> set (grant_rows_by st ''grantee_id'' user_id). dget d ''state'' = PStr ''active'' \<and> dget d ''resource_id'' = PStr cid \<and> unexpired amb d} = {}"
    using assms(1) by (auto simp: set_grant_rows_by)
  then have "held amb K st user_id cid = {}"
    by (auto simp: held_def get_active_grants_for_principal_resource_def grant_docs_by_eq)
  moreover obtain es where "get_active_grants_for_principal_resource amb K st user_id cid = Inr es" "fst ` set es = held amb K st user_id cid"
    by (rule active_grants_total)
  ultimately have "get_active_grants_for_principal_resource amb K st user_id cid = Inr []" by simp
  with assms(2) show ?thesis by (simp add: is_platform_admin_def)
qed

definition lapsed_doc :: doc where
  "lapsed_doc = [(''id'', PStr ''g''), (''content_type'', PStr GRANT_CT), (''grantee_id'', PStr ''ann''), (''grantee_type'', PStr ''user''),
     (''resource_id'', PStr ''authority''), (''state'', PStr ''active''), (''effect'', PStr ''allow''), (''can_admin'', PBool True),
     (''expires_at'', PStr ''2001'')]"

definition lapsed_store :: lattice where
  "lapsed_store = (empty_lattice ''o'' 4)\<lparr> vertices := [(''g'', (sample_row ''g'' 1)\<lparr> v_ct := Some GRANT_CT, v_doc := lapsed_doc \<rparr>)] \<rparr>"

definition late_ambient :: ambient where
  "late_ambient = sample_ambient\<lparr> now_us := 10, parse_iso := (\<lambda>_. Some 5) \<rparr>"

theorem expired_admin_locks_out_witness:
  "\<not> is_platform_admin late_ambient sample_key lapsed_store ''op'' (Some ''authority'') ''op''"
proof -
  have d: "dget lapsed_doc ''resource_id'' = PStr ''authority''" "dget lapsed_doc ''state'' = PStr ''active''" "\<not> unexpired late_ambient lapsed_doc"
    by (simp_all add: lapsed_doc_def dget_Cons unexpired_def late_ambient_def)
  have rows: "grant_rows_by lapsed_store ''resource_id'' ''authority'' = [lapsed_doc]"
    using d(1) by (simp add: grant_rows_by_def rows_by_id_def lapsed_store_def)
  have "gstate (fst (from_lattice_doc late_ambient sample_key lapsed_doc)) = ''active'' \<and> grant_is_allow (fst (from_lattice_doc late_ambient sample_key lapsed_doc))
      \<and> can_admin (fst (from_lattice_doc late_ambient sample_key lapsed_doc))"
    by (simp add: from_lattice_doc_def Let_def Grant_from_dict_def Grant_init_def dflag_def dtext_or_def lapsed_doc_def unseal_fields_def dget_Cons SEALED_def
        LATTICE_INTERNAL_def dpop_def grant_is_allow_def effect_of_def norm_effect_def dtext_def str_or_def py_lower_def py_strip_def is_space_def lower_char_def)
  then have "authority_bootstrap_complete late_ambient sample_key lapsed_store (Some ''authority'')"
    using rows d(2) by (simp add: authority_bootstrap_complete_def get_grants_for_collection_def grant_docs_by_eq state_of_def case_prod_beta
        Let_def LEGACY_LIVE_STATES_def)
  with expired_admin_locks_out [of lapsed_store "''authority''" late_ambient sample_key] rows d(3) show ?thesis by simp
qed

end
