(* ===== verification/Context_Walk.thy ===== *)
theory Context_Walk
  imports Access
begin

text \<open>
  \<open>services/context_service.py\<close> with the context edges of \<open>db/edge.py\<close>: the context lattice, the attenuated and
  confined walk \<open>reach\<close>, and the fan-out of events towards the containers.

  A set that the code iterates is a list, whose order is the iteration order; it matters only when a
  bound truncates. The two bounds are the code's own: the depth bound is the recursion argument of the
  loops. The context edges of an unreadable node are none, a truncated read raises. The store is one
  with a graph.
\<close>

section \<open>Definitions\<close>

definition CONTEXT_LABEL :: string where "CONTEXT_LABEL = ''context''"

definition DEFAULT_MAX_DEPTH :: nat where "DEFAULT_MAX_DEPTH = 64"

definition DEFAULT_MAX_NODES :: nat where "DEFAULT_MAX_NODES = 10000"

text \<open>What a writer may pass as the mask of a context edge, and its encoding.\<close>

datatype ctx_propagate =
    PropNone
  | PropText string
  | PropList "string list"
  | PropSet "string list"
  | PropMask mask

definition DEFAULT_CONTEXT_PROPAGATE :: ctx_propagate where "DEFAULT_CONTEXT_PROPAGATE = PropList []"

definition encode_propagate :: "ctx_propagate \<Rightarrow> pyval result" where
  "encode_propagate p =
     (case p of
        PropNone \<Rightarrow> Inr PNone
      | PropText s \<Rightarrow> Inr (PStr s)
      | PropList vs \<Rightarrow> Inr (PStr (json_dumps vs))
      | PropSet vs \<Rightarrow> Inr (PStr (json_dumps (sort (remdups vs))))
      | PropMask m \<Rightarrow> rbind (to_propagate m) (\<lambda>v. Inr (opt_val v)))"

definition add_context_edge ::
  "hashlib \<Rightarrow> string \<Rightarrow> string \<Rightarrow> ctx_propagate \<Rightarrow> bool \<Rightarrow> string option \<Rightarrow> lattice \<Rightarrow> unit result \<times> lattice" where
  "add_context_edge H context_id node_id propagate is_origin order_key st =
     (case encode_propagate propagate of
        Inl e \<Rightarrow> (Inl e, st)
      | Inr p \<Rightarrow>
          add_edge H context_id node_id CONTEXT_LABEL
            [(''propagate'', p), (''is_origin'', PBool is_origin), (''order_key'', opt_val order_key)] True st)"

definition delete_context_edge :: "hashlib \<Rightarrow> string \<Rightarrow> string \<Rightarrow> lattice \<Rightarrow> bool \<times> lattice" where
  "delete_context_edge H context_id node_id st = delete_edge H context_id node_id CONTEXT_LABEL st"

definition set_context ::
  "hashlib \<Rightarrow> string \<Rightarrow> string \<Rightarrow> ctx_propagate \<Rightarrow> bool \<Rightarrow> string option \<Rightarrow> lattice \<Rightarrow> bool \<times> lattice" where
  "set_context H node_id context_id propagate is_origin order_key st =
     (case add_context_edge H context_id node_id propagate is_origin order_key st of
        (Inl _, st') \<Rightarrow> (False, st') | (Inr _, st') \<Rightarrow> (True, st'))"

definition clear_context :: "hashlib \<Rightarrow> string \<Rightarrow> string \<Rightarrow> lattice \<Rightarrow> bool \<times> lattice" where
  "clear_context H node_id context_id st = (True, snd (delete_context_edge H context_id node_id st))"

definition context_edges :: "lattice \<Rightarrow> string \<Rightarrow> direction \<Rightarrow> erow list result" where
  "context_edges st node_id dir = edges_of st node_id (Some CONTEXT_LABEL) dir"

definition ctx_edges :: "lattice \<Rightarrow> string \<Rightarrow> direction \<Rightarrow> erow list result" where
  "ctx_edges st node_id dir =
     (case context_edges st node_id dir of
        Inl EdgesTruncated \<Rightarrow> Inl EdgesTruncated | Inl _ \<Rightarrow> Inr [] | Inr es \<Rightarrow> Inr es)"

definition ends_of :: "(erow \<Rightarrow> string) \<Rightarrow> bool \<Rightarrow> erow list \<Rightarrow> string list" where
  "ends_of side origin_only es =
     fold (\<lambda>e out. if origin_only \<and> \<not> truthy (eprop e ''is_origin'') then out
                   else if side e \<noteq> [] \<and> side e \<notin> set out then out @ [side e] else out) es []"

definition contexts_of :: "lattice \<Rightarrow> string \<Rightarrow> bool \<Rightarrow> string list result" where
  "contexts_of st node_id origin_only = rbind (ctx_edges st node_id In) (\<lambda>es. Inr (ends_of e_src origin_only es))"

definition members_of :: "lattice \<Rightarrow> string \<Rightarrow> bool \<Rightarrow> string list result" where
  "members_of st context_id origin_only = rbind (ctx_edges st context_id Out) (\<lambda>es. Inr (ends_of e_dst origin_only es))"

fun context_root_loop :: "lattice \<Rightarrow> nat \<Rightarrow> string list \<Rightarrow> string \<Rightarrow> string result" where
  "context_root_loop st 0 visited current = Inr current"
| "context_root_loop st (Suc n) visited current =
     rbind (contexts_of st current True) (\<lambda>parents.
       case find_first (\<lambda>p. p \<noteq> [] \<and> p \<notin> set visited) parents of
         None \<Rightarrow> Inr current
       | Some p \<Rightarrow> context_root_loop st n (p # visited) p)"

definition context_root :: "lattice \<Rightarrow> string \<Rightarrow> nat \<Rightarrow> string result" where
  "context_root st node_id max_depth = context_root_loop st max_depth [node_id] node_id"

record context_reach =
  cr_ids :: "string list"
  cr_depth :: nat
  cr_limit :: "string option"

definition cr_truncated :: "context_reach \<Rightarrow> bool" where
  "cr_truncated r = (cr_limit r \<noteq> None)"

definition EMPTY_REACH :: context_reach where
  "EMPTY_REACH = \<lparr> cr_ids = [], cr_depth = 0, cr_limit = None \<rparr>"

text \<open>One hop: the nodes seen, the nodes reached, the next frontier and whether the node bound was hit.\<close>

record hop =
  h_seen :: "string list"
  h_reached :: "string list"
  h_next :: "(string \<times> mask) list"
  h_limit :: bool

definition admit :: "nat \<Rightarrow> string \<Rightarrow> mask \<Rightarrow> hop \<Rightarrow> hop" where
  "admit max_nodes dst m h =
     (if max_nodes \<le> length (h_reached h) then h\<lparr> h_limit := True \<rparr>
      else h\<lparr> h_seen := dst # h_seen h, h_reached := h_reached h @ [dst], h_next := h_next h @ [(dst, m)] \<rparr>)"

definition in_universe :: "string list option \<Rightarrow> string \<Rightarrow> bool" where
  "in_universe universe x = (case universe of None \<Rightarrow> True | Some u \<Rightarrow> x \<in> set u)"

definition walk_edge :: "string list option \<Rightarrow> string \<Rightarrow> nat \<Rightarrow> mask \<Rightarrow> erow \<Rightarrow> hop \<Rightarrow> hop" where
  "walk_edge universe action max_nodes held e h =
     (if h_limit h then h
      else if \<not> truthy (eprop e ''is_origin'') then h
      else
        (let composed = Mask_and held (from_propagate (eprop e ''propagate'')) in
         if \<not> allows composed action then h
         else if e_dst e = [] \<or> e_dst e \<in> set (h_seen h) then h
         else if \<not> in_universe universe (e_dst e) then h
         else admit max_nodes (e_dst e) composed h))"

fun walk_frontier ::
  "lattice \<Rightarrow> string list option \<Rightarrow> string \<Rightarrow> nat \<Rightarrow> (string \<times> mask) list \<Rightarrow> hop \<Rightarrow> hop result" where
  "walk_frontier st universe action max_nodes [] h = Inr h"
| "walk_frontier st universe action max_nodes ((node, held) # fr) h =
     (if h_limit h then Inr h
      else rbind (ctx_edges st node Out) (\<lambda>es.
             walk_frontier st universe action max_nodes fr (fold (walk_edge universe action max_nodes held) es h)))"

definition walk_contained :: "string list option \<Rightarrow> string \<Rightarrow> nat \<Rightarrow> string \<Rightarrow> hop \<Rightarrow> hop" where
  "walk_contained universe action max_nodes dst h =
     (if h_limit h then h
      else if dst \<in> set (h_seen h) then h
      else if \<not> in_universe universe dst then h
      else admit max_nodes dst (Mask_of [action] True) h)"

text \<open>\<open>_containment\<close>: a failed expansion withholds reach.\<close>

definition containment :: "(string list \<Rightarrow> string list result) \<Rightarrow> string list \<Rightarrow> string list" where
  "containment expander roots =
     (case expander roots of Inl _ \<Rightarrow> [] | Inr xs \<Rightarrow> dedup (filter (\<lambda>x. x \<noteq> []) xs))"

definition one_hop ::
  "lattice \<Rightarrow> string list option \<Rightarrow> string \<Rightarrow> nat \<Rightarrow> (string list \<Rightarrow> string list result) option
     \<Rightarrow> (string \<times> mask) list \<Rightarrow> string list \<Rightarrow> string list \<Rightarrow> hop result" where
  "one_hop st universe action max_nodes expander frontier seen reached =
     rbind (walk_frontier st universe action max_nodes frontier
              \<lparr> h_seen = seen, h_reached = reached, h_next = [], h_limit = False \<rparr>) (\<lambda>h.
       Inr (case expander of
              None \<Rightarrow> h
            | Some ex \<Rightarrow>
                if h_limit h \<or> h_next h = [] then h
                else fold (walk_contained universe action max_nodes) (containment ex (map fst (h_next h))) h))"

fun reach_loop ::
  "lattice \<Rightarrow> string list option \<Rightarrow> string \<Rightarrow> nat \<Rightarrow> (string list \<Rightarrow> string list result) option
     \<Rightarrow> nat \<Rightarrow> nat \<Rightarrow> (string \<times> mask) list \<Rightarrow> string list \<Rightarrow> string list \<Rightarrow> context_reach result" where
  "reach_loop st universe action max_nodes expander 0 depth frontier seen reached =
     Inr \<lparr> cr_ids = reached, cr_depth = depth, cr_limit = if frontier = [] then None else Some ''depth'' \<rparr>"
| "reach_loop st universe action max_nodes expander (Suc n) depth frontier seen reached =
     (if frontier = [] then Inr \<lparr> cr_ids = reached, cr_depth = depth, cr_limit = None \<rparr>
      else rbind (one_hop st universe action max_nodes expander frontier seen reached) (\<lambda>h.
             if h_limit h then Inr \<lparr> cr_ids = h_reached h, cr_depth = Suc depth, cr_limit = Some ''nodes'' \<rparr>
             else reach_loop st universe action max_nodes expander n (Suc depth) (h_next h) (h_seen h) (h_reached h)))"

text \<open>\<open>reach\<close>: \<open>within\<close> is \<open>None\<close> for the unconfined walk.\<close>

definition reach ::
  "lattice \<Rightarrow> string list \<Rightarrow> string \<Rightarrow> string list option \<Rightarrow> mask option \<Rightarrow> nat \<Rightarrow> nat
     \<Rightarrow> (string list \<Rightarrow> string list result) option \<Rightarrow> context_reach result" where
  "reach st seeds action within auth max_depth max_nodes expander =
     (let ceiling = (case auth of None \<Rightarrow> TOP | Some m \<Rightarrow> m);
          universe = map_option (filter (\<lambda>x. x \<noteq> [])) within;
          seen = filter (\<lambda>x. x \<noteq> []) seeds;
          walkable = dedup (filter (in_universe universe) seen) in
      if action \<notin> set ACTIONS \<or> \<not> allows ceiling action then Inr EMPTY_REACH
      else if universe = Some [] then Inr EMPTY_REACH
      else if seen = [] then Inr EMPTY_REACH
      else if (case universe of None \<Rightarrow> False | Some u \<Rightarrow> set u \<subseteq> set seen) then Inr EMPTY_REACH
      else if walkable = [] then Inr EMPTY_REACH
      else reach_loop st universe action max_nodes expander max_depth 0 (map (\<lambda>n. (n, ceiling)) walkable) seen [])"

text \<open>The fan-out of an event: upward over every context edge, no mask.\<close>

record spread =
  s_seen :: "string list"
  s_out :: "string list"
  s_next :: "string list"
  s_limit :: bool

definition announce :: "nat \<Rightarrow> string \<Rightarrow> spread \<Rightarrow> spread" where
  "announce max_nodes container s =
     (if s_limit s \<or> container \<in> set (s_seen s) then s
      else if max_nodes \<le> length (s_out s) then s\<lparr> s_limit := True \<rparr>
      else s\<lparr> s_seen := container # s_seen s, s_out := s_out s @ [container], s_next := s_next s @ [container] \<rparr>)"

fun spread_frontier :: "lattice \<Rightarrow> nat \<Rightarrow> string list \<Rightarrow> spread \<Rightarrow> spread result" where
  "spread_frontier st max_nodes [] s = Inr s"
| "spread_frontier st max_nodes (node # fr) s =
     (if s_limit s then Inr s
      else rbind (contexts_of st node False) (\<lambda>cs. spread_frontier st max_nodes fr (fold (announce max_nodes) cs s)))"

fun fan_out_loop :: "lattice \<Rightarrow> nat \<Rightarrow> nat \<Rightarrow> nat \<Rightarrow> string list \<Rightarrow> string list \<Rightarrow> string list \<Rightarrow> context_reach result" where
  "fan_out_loop st max_nodes 0 depth frontier seen out =
     Inr \<lparr> cr_ids = out, cr_depth = depth, cr_limit = if frontier = [] then None else Some ''depth'' \<rparr>"
| "fan_out_loop st max_nodes (Suc n) depth frontier seen out =
     (if frontier = [] then Inr \<lparr> cr_ids = out, cr_depth = depth, cr_limit = None \<rparr>
      else rbind (spread_frontier st max_nodes frontier \<lparr> s_seen = seen, s_out = out, s_next = [], s_limit = False \<rparr>) (\<lambda>s.
             if s_limit s then Inr \<lparr> cr_ids = s_out s, cr_depth = Suc depth, cr_limit = Some ''nodes'' \<rparr>
             else fan_out_loop st max_nodes n (Suc depth) (s_next s) (s_seen s) (s_out s)))"

definition fan_out_targets :: "lattice \<Rightarrow> string \<Rightarrow> nat \<Rightarrow> nat \<Rightarrow> context_reach result" where
  "fan_out_targets st node_id max_depth max_nodes = fan_out_loop st max_nodes max_depth 0 [node_id] [node_id] []"

section \<open>Confinement\<close>

text \<open>What a hop keeps, whatever the edges and the containment below them are.\<close>

definition hop_ok :: "string list option \<Rightarrow> nat \<Rightarrow> string set \<Rightarrow> hop \<Rightarrow> bool" where
  "hop_ok universe max_nodes seeds h \<longleftrightarrow> distinct (h_reached h) \<and> length (h_reached h) \<le> max_nodes
     \<and> set (h_seen h) = seeds \<union> set (h_reached h) \<and> seeds \<inter> set (h_reached h) = {}
     \<and> (\<forall>x \<in> set (h_reached h). in_universe universe x)"

lemma admit_ok:
  assumes "hop_ok universe max_nodes seeds h" "dst \<notin> set (h_seen h)" "in_universe universe dst"
  shows "hop_ok universe max_nodes seeds (admit max_nodes dst m h)"
  using assms by (auto simp: hop_ok_def admit_def)

lemma walk_ok:
  assumes "hop_ok universe max_nodes seeds h"
  shows "hop_ok universe max_nodes seeds (walk_edge universe action max_nodes held e h)"
    and "hop_ok universe max_nodes seeds (walk_contained universe action max_nodes dst h)"
  using assms by (auto simp: walk_edge_def walk_contained_def Let_def intro: admit_ok)

lemma fold_keeps: "P h \<Longrightarrow> (\<And>x h. P h \<Longrightarrow> P (f x h)) \<Longrightarrow> P (fold f xs h)"
  by (induction xs arbitrary: h) simp_all

lemma walk_frontier_ok:
  "hop_ok universe max_nodes seeds h \<Longrightarrow> walk_frontier st universe action max_nodes fr h = Inr h' \<Longrightarrow> hop_ok universe max_nodes seeds h'"
proof (induction fr arbitrary: h)
  case (Cons f fr)
  obtain node held where f: "f = (node, held)" by fastforce
  show ?case
  proof (cases "h_limit h")
    case False
    with Cons.prems(2) f obtain es where
      run: "walk_frontier st universe action max_nodes fr (fold (walk_edge universe action max_nodes held) es h) = Inr h'"
      by (auto simp: rbind_eq_Inr)
    have "hop_ok universe max_nodes seeds (fold (walk_edge universe action max_nodes held) es h)"
      by (rule fold_keeps [where P = "hop_ok universe max_nodes seeds"]) (simp_all add: Cons.prems(1) walk_ok(1))
    from Cons.IH [OF this run] show ?thesis .
  qed (use Cons.prems f in simp)
qed simp

lemma one_hop_ok:
  assumes "hop_ok universe max_nodes seeds \<lparr> h_seen = seen, h_reached = reached, h_next = [], h_limit = False \<rparr>"
    and "one_hop st universe action max_nodes expander frontier seen reached = Inr h"
  shows "hop_ok universe max_nodes seeds h"
proof -
  from assms(2) obtain h0 where h0: "walk_frontier st universe action max_nodes frontier
      \<lparr> h_seen = seen, h_reached = reached, h_next = [], h_limit = False \<rparr> = Inr h0"
    and h: "h = h0 \<or> (\<exists>xs. h = fold (walk_contained universe action max_nodes) xs h0)"
    by (auto simp: one_hop_def rbind_eq_Inr split: option.splits if_splits)
  have "hop_ok universe max_nodes seeds (fold (walk_contained universe action max_nodes) xs h0)" for xs
    by (rule fold_keeps [where P = "hop_ok universe max_nodes seeds"])
      (simp_all add: walk_frontier_ok [OF assms(1) h0] walk_ok(2))
  with h walk_frontier_ok [OF assms(1) h0] show ?thesis by blast
qed

lemma hop_ok_reset [simp]:
  "hop_ok universe max_nodes seeds \<lparr> h_seen = h_seen h, h_reached = h_reached h, h_next = n, h_limit = l \<rparr> = hop_ok universe max_nodes seeds h"
  by (simp add: hop_ok_def)

lemma reach_loop_ok:
  assumes "hop_ok universe max_nodes seeds \<lparr> h_seen = seen, h_reached = reached, h_next = [], h_limit = False \<rparr>"
    and "reach_loop st universe action max_nodes expander n depth frontier seen reached = Inr r"
  shows "distinct (cr_ids r) \<and> length (cr_ids r) \<le> max_nodes \<and> seeds \<inter> set (cr_ids r) = {}
    \<and> (\<forall>x \<in> set (cr_ids r). in_universe universe x) \<and> cr_depth r \<le> depth + n"
  using assms
proof (induction n arbitrary: depth frontier seen reached)
  case 0
  then show ?case by (auto simp: hop_ok_def)
next
  case (Suc n)
  show ?case
  proof (cases "frontier = []")
    case True
    with Suc.prems show ?thesis by (auto simp: hop_ok_def)
  next
    case False
    with Suc.prems(2) obtain h where h: "one_hop st universe action max_nodes expander frontier seen reached = Inr h"
      and r: "(if h_limit h then Inr \<lparr> cr_ids = h_reached h, cr_depth = Suc depth, cr_limit = Some ''nodes'' \<rparr>
        else reach_loop st universe action max_nodes expander n (Suc depth) (h_next h) (h_seen h) (h_reached h)) = Inr r"
      by (auto simp: rbind_eq_Inr)
    note ok = one_hop_ok [OF Suc.prems(1) h]
    show ?thesis
    proof (cases "h_limit h")
      case True
      with r ok show ?thesis by (auto simp: hop_ok_def)
    next
      case False
      with r have run: "reach_loop st universe action max_nodes expander n (Suc depth) (h_next h) (h_seen h) (h_reached h) = Inr r" by simp
      from Suc.IH [OF _ run] ok show ?thesis by simp
    qed
  qed
qed

section \<open>Exactness\<close>

text \<open>One conducting context edge inside the universe, from the readable edges of its source.\<close>

definition ctx_conducts :: "string list option \<Rightarrow> string \<Rightarrow> erow \<Rightarrow> bool" where
  "ctx_conducts universe action e \<longleftrightarrow> truthy (eprop e ''is_origin'') \<and> allows (from_propagate (eprop e ''propagate'')) action
     \<and> e_dst e \<noteq> [] \<and> in_universe universe (e_dst e)"

definition ctx_rel :: "lattice \<Rightarrow> string list option \<Rightarrow> string \<Rightarrow> (string \<times> string) set" where
  "ctx_rel st universe action =
     {(s, d). in_universe universe s \<and> (\<exists>es. ctx_edges st s Out = Inr es \<and> d \<in> e_dst ` {e \<in> set es. ctx_conducts universe action e})}"

lemma fold_walk_limit: "h_limit h \<Longrightarrow> fold (walk_edge universe action max_nodes held) es h = h"
  by (induction es) (simp_all add: walk_edge_def)

text \<open>What the edges of one node add to a hop.\<close>

lemma fold_walk_edge:
  assumes "allows held action"
  shows "\<exists>new. h_reached (fold (walk_edge universe action max_nodes held) es h) = h_reached h @ new
     \<and> h_seen (fold (walk_edge universe action max_nodes held) es h) = rev new @ h_seen h
     \<and> map fst (h_next (fold (walk_edge universe action max_nodes held) es h)) = map fst (h_next h) @ new
     \<and> (list_all (\<lambda>(_, m). allows m action) (h_next h) \<longrightarrow> list_all (\<lambda>(_, m). allows m action) (h_next (fold (walk_edge universe action max_nodes held) es h)))
     \<and> distinct new \<and> set new \<subseteq> e_dst ` {e \<in> set es. ctx_conducts universe action e} - set (h_seen h)
     \<and> (\<not> h_limit (fold (walk_edge universe action max_nodes held) es h) \<longrightarrow>
          \<not> h_limit h \<and> set new = e_dst ` {e \<in> set es. ctx_conducts universe action e} - set (h_seen h))"
proof (induction es arbitrary: h)
  case (Cons e es)
  let ?h = "walk_edge universe action max_nodes held e h"
  consider (limit) "h_limit h" | (skip) "\<not> h_limit h" "\<not> ctx_conducts universe action e \<or> e_dst e \<in> set (h_seen h)"
    | (full) "\<not> h_limit h" "ctx_conducts universe action e" "e_dst e \<notin> set (h_seen h)" "max_nodes \<le> length (h_reached h)"
    | (new) "\<not> h_limit h" "ctx_conducts universe action e" "e_dst e \<notin> set (h_seen h)" "length (h_reached h) < max_nodes" by linarith
  then show ?case
  proof cases
    case limit
    then show ?thesis unfolding fold_walk_limit [OF limit] by simp
  next
    case skip
    then have "?h = h" using assms by (auto simp: walk_edge_def Let_def ctx_conducts_def)
    with Cons [of h] skip show ?thesis by (auto 4 4)
  next
    case full
    then have h: "?h = h\<lparr> h_limit := True \<rparr>" using assms by (simp add: walk_edge_def Let_def ctx_conducts_def admit_def)
    show ?thesis by (simp add: h fold_walk_limit)
  next
    case new
    then have h: "?h = h\<lparr> h_seen := e_dst e # h_seen h, h_reached := h_reached h @ [e_dst e],
        h_next := h_next h @ [(e_dst e, Mask_and held (from_propagate (eprop e ''propagate'')))] \<rparr>"
      using assms by (simp add: walk_edge_def Let_def ctx_conducts_def admit_def)
    from Cons [of ?h] obtain n where n: "h_reached (fold (walk_edge universe action max_nodes held) es ?h) = h_reached ?h @ n"
      "h_seen (fold (walk_edge universe action max_nodes held) es ?h) = rev n @ h_seen ?h"
      "map fst (h_next (fold (walk_edge universe action max_nodes held) es ?h)) = map fst (h_next ?h) @ n"
      "list_all (\<lambda>(_, m). allows m action) (h_next ?h) \<longrightarrow> list_all (\<lambda>(_, m). allows m action) (h_next (fold (walk_edge universe action max_nodes held) es ?h))"
      "distinct n" "set n \<subseteq> e_dst ` {e \<in> set es. ctx_conducts universe action e} - set (h_seen ?h)"
      "\<not> h_limit (fold (walk_edge universe action max_nodes held) es ?h) \<longrightarrow>
          \<not> h_limit ?h \<and> set n = e_dst ` {e \<in> set es. ctx_conducts universe action e} - set (h_seen ?h)" by blast
    show ?thesis
      using n new unfolding fold_simps by (intro exI [of _ "e_dst e # n"]) (use assms in \<open>auto simp: h ctx_conducts_def\<close>)
  qed
qed simp

lemma ctx_edges_total:
  obtains es where "ctx_edges st n Out = Inr es" | "ctx_edges st n Out = Inl EdgesTruncated"
  by (cases "ctx_edges st n Out") (auto simp: ctx_edges_def context_edges_def edges_of_cases split: if_splits)

lemma Image_ctx_rel:
  "ctx_edges st n Out = Inr es \<Longrightarrow> in_universe universe n \<Longrightarrow>
    ctx_rel st universe action `` {n} = e_dst ` {e \<in> set es. ctx_conducts universe action e}"
  by (auto simp: ctx_rel_def)

text \<open>A hop over the frontier: the loop invariant of a breadth-first search, with the nodes still to be walked and
  the nodes just reached as its frontier.\<close>

lemma walk_frontier_exact:
  assumes "cone_inv (ctx_rel st universe action) roots (map fst fr @ map fst (h_next h)) (h_seen h) (h_reached h)"
    and "list_all (\<lambda>(n, m). allows m action \<and> in_universe universe n) fr" "list_all (\<lambda>(n, m). allows m action \<and> in_universe universe n) (h_next h)"
    and "\<forall>x \<in> set (h_reached h). in_universe universe x" "\<not> h_limit h"
  shows "case walk_frontier st universe action max_nodes fr h of
      Inl e \<Rightarrow> e = EdgesTruncated
    | Inr h' \<Rightarrow> set (h_reached h') \<subseteq> (ctx_rel st universe action)\<^sup>* `` roots - roots
        \<and> (\<not> h_limit h' \<longrightarrow> cone_inv (ctx_rel st universe action) roots (map fst (h_next h')) (h_seen h') (h_reached h')
             \<and> list_all (\<lambda>(n, m). allows m action \<and> in_universe universe n) (h_next h') \<and> (\<forall>x \<in> set (h_reached h'). in_universe universe x))"
  using assms
proof (induction fr arbitrary: h)
  case Nil
  then have "set (h_reached h) \<subseteq> (ctx_rel st universe action)\<^sup>* `` roots - roots" unfolding cone_inv_def by blast
  with Nil show ?case by simp
next
  case (Cons f fr)
  let ?R = "ctx_rel st universe action"
  obtain n held where f: "f = (n, held)" by fastforce
  from Cons.prems(2) f have held: "allows held action" "in_universe universe n" by simp_all
  show ?case
  proof (rule ctx_edges_total [of st n])
    assume "ctx_edges st n Out = Inl EdgesTruncated"
    with f Cons.prems(5) show ?thesis by simp
  next
    fix es
    assume es: "ctx_edges st n Out = Inr es"
    let ?h = "fold (walk_edge universe action max_nodes held) es h"
    note img = Image_ctx_rel [OF es held(2), of action]
    obtain new where new: "h_reached ?h = h_reached h @ new" "h_seen ?h = rev new @ h_seen h"
      "map fst (h_next ?h) = map fst (h_next h) @ new" "list_all (\<lambda>(_, m). allows m action) (h_next h) \<longrightarrow> list_all (\<lambda>(_, m). allows m action) (h_next ?h)"
      "distinct new" "set new \<subseteq> ?R `` {n} - set (h_seen h)" "\<not> h_limit ?h \<longrightarrow> set new = ?R `` {n} - set (h_seen h)"
      using fold_walk_edge [OF held(1), of universe max_nodes es h] unfolding img by blast
    have inv: "set (h_seen h) = roots \<union> set (h_reached h)" "set (h_seen h) \<subseteq> ?R\<^sup>* `` roots" "n \<in> set (h_seen h)" "roots \<inter> set (h_reached h) = {}"
      using Cons.prems(1) unfolding cone_inv_def f by auto
    have "n \<in> ?R\<^sup>* `` roots" using inv(2,3) by blast
    then have "?R `` {n} \<subseteq> ?R\<^sup>* `` roots" by (blast intro: rtrancl_into_rtrancl)
    then have sound: "set (h_reached ?h) \<subseteq> ?R\<^sup>* `` roots - roots"
      unfolding new(1) using inv(1,2,4) new(6) by auto
    have uni: "\<forall>x \<in> set (h_reached ?h). in_universe universe x"
      unfolding new(1) using Cons.prems(4) new(6) by (auto simp: ctx_rel_def ctx_conducts_def)
    have nxt: "list_all (\<lambda>(n, m). allows m action \<and> in_universe universe n) (h_next ?h)"
    proof -
      have "list_all (in_universe universe) (map fst (h_next ?h))"
        unfolding new(3) using Cons.prems(3) uni new(1) by (auto simp: list_all_iff)
      moreover have "list_all (\<lambda>(_, m). allows m action) (h_next ?h)" using Cons.prems(3) new(4) by (auto simp: list_all_iff)
      ultimately show ?thesis by (auto simp: list_all_iff)
    qed
    have step: "walk_frontier st universe action max_nodes (f # fr) h = walk_frontier st universe action max_nodes fr ?h"
      using f es Cons.prems(5) by simp
    show ?thesis
    proof (cases "h_limit ?h")
      case True
      then have "walk_frontier st universe action max_nodes fr ?h = Inr ?h" by (cases fr) auto
      with True sound step show ?thesis by simp
    next
      case False
      have "cone_inv ?R roots ((map fst fr @ map fst (h_next h)) @ new) (rev new @ h_seen h) (h_reached h @ new)"
        by (rule cone_inv_pop [OF Cons.prems(1) _ new(5)]) (use f new(7) False in simp_all)
      then have "cone_inv ?R roots (map fst fr @ map fst (h_next ?h)) (h_seen ?h) (h_reached ?h)" by (simp add: new)
      from Cons.IH [OF this _ nxt uni False] Cons.prems(2) step show ?thesis by simp
    qed
  qed
qed

lemma reach_loop_exact:
  assumes "cone_inv (ctx_rel st universe action) roots (map fst fr) seen reached"
    and "list_all (\<lambda>(n, m). allows m action \<and> in_universe universe n) fr" "\<forall>x \<in> set reached. in_universe universe x"
  shows "case reach_loop st universe action max_nodes None n depth fr seen reached of
      Inl e \<Rightarrow> e = EdgesTruncated
    | Inr r \<Rightarrow> set (cr_ids r) \<subseteq> (ctx_rel st universe action)\<^sup>* `` roots - roots
        \<and> (cr_limit r = None \<longrightarrow> set (cr_ids r) = (ctx_rel st universe action)\<^sup>* `` roots - roots)"
  using assms
proof (induction n arbitrary: depth fr seen reached)
  case 0
  have "set reached \<subseteq> (ctx_rel st universe action)\<^sup>* `` roots - roots" using 0(1) unfolding cone_inv_def by blast
  with 0(1) cone_inv_done [of "ctx_rel st universe action" roots seen reached] show ?case by auto
next
  case (Suc n)
  let ?h = "\<lparr> h_seen = seen, h_reached = reached, h_next = [], h_limit = False \<rparr>"
  show ?case
  proof (cases "fr = []")
    case True
    with Suc.prems(1) cone_inv_done [of "ctx_rel st universe action" roots seen reached] show ?thesis by auto
  next
    case False
    have "cone_inv (ctx_rel st universe action) roots (map fst fr @ map fst (h_next ?h)) (h_seen ?h) (h_reached ?h)" using Suc.prems(1) by simp
    from walk_frontier_exact [OF this Suc.prems(2), of max_nodes] Suc.prems(3)
    have w: "case walk_frontier st universe action max_nodes fr ?h of
        Inl e \<Rightarrow> e = EdgesTruncated
      | Inr h' \<Rightarrow> set (h_reached h') \<subseteq> (ctx_rel st universe action)\<^sup>* `` roots - roots
          \<and> (\<not> h_limit h' \<longrightarrow> cone_inv (ctx_rel st universe action) roots (map fst (h_next h')) (h_seen h') (h_reached h')
               \<and> list_all (\<lambda>(n, m). allows m action \<and> in_universe universe n) (h_next h') \<and> (\<forall>x \<in> set (h_reached h'). in_universe universe x))" by simp
    show ?thesis
    proof (cases "walk_frontier st universe action max_nodes fr ?h")
      case (Inl e)
      with w False show ?thesis by (simp add: one_hop_def)
    next
      case (Inr h')
      with w have r: "set (h_reached h') \<subseteq> (ctx_rel st universe action)\<^sup>* `` roots - roots"
        "\<not> h_limit h' \<longrightarrow> cone_inv (ctx_rel st universe action) roots (map fst (h_next h')) (h_seen h') (h_reached h')
           \<and> list_all (\<lambda>(n, m). allows m action \<and> in_universe universe n) (h_next h') \<and> (\<forall>x \<in> set (h_reached h'). in_universe universe x)" by simp_all
      show ?thesis
      proof (cases "h_limit h'")
        case True
        with r(1) Inr False show ?thesis by (simp add: one_hop_def)
      next
        case nolimit: False
        with r(2) Suc.IH [of "h_next h'" "h_seen h'" "h_reached h'" "Suc depth"] Inr False show ?thesis by (simp add: one_hop_def)
      qed
    qed
  qed
qed

text \<open>Seeds outside the universe are held but not walked from, and the empty id is never reached.\<close>

lemma walkable_roots:
  fixes universe seeds st action
  defines "R \<equiv> ctx_rel st universe action" and "W \<equiv> {s \<in> set seeds. s \<noteq> [] \<and> in_universe universe s}"
    and "S \<equiv> {s \<in> set seeds. s \<noteq> []}"
  shows "R\<^sup>* `` S - S = R\<^sup>* `` W - set seeds"
    and "(case universe of None \<Rightarrow> False | Some u \<Rightarrow> set u \<subseteq> S) \<Longrightarrow> R\<^sup>* `` W - set seeds = {}"
proof -
  have out: "in_universe universe s" "d \<noteq> []" "in_universe universe d" if "(s, d) \<in> R" for s d
    using that by (auto simp: R_def ctx_rel_def ctx_conducts_def)
  have first: "x = s \<or> in_universe universe s" if "(s, x) \<in> R\<^sup>*" for s x
    using that out(1) by (metis converse_rtranclE)
  have last: "x = s \<or> x \<noteq> [] \<and> in_universe universe x" if "(s, x) \<in> R\<^sup>*" for s x
    using that out(2,3) by (metis rtranclE)
  show "R\<^sup>* `` S - S = R\<^sup>* `` W - set seeds"
    using first last by (fastforce simp: S_def W_def)
  show "R\<^sup>* `` W - set seeds = {}" if "case universe of None \<Rightarrow> False | Some u \<Rightarrow> set u \<subseteq> S"
    using that last by (fastforce simp: S_def W_def in_universe_def split: option.splits)
qed

section \<open>Correctness\<close>

text \<open>A context walk never leaves the universe it is confined to: whatever the context edges say and whatever the
  containment below them answers, every id it returns is one the caller already holds, is none of the
  seeds, and there are at most \<open>max_nodes\<close> of them after at most \<open>max_depth\<close> hops. Seeded with the whole
  universe it returns nothing.\<close>

theorem context_walk_confined:
  "case reach st seeds action (Some within) auth max_depth max_nodes expander of
     Inl e \<Rightarrow> True
   | Inr r \<Rightarrow> set (cr_ids r) \<subseteq> set within - set seeds \<and> distinct (cr_ids r) \<and> length (cr_ids r) \<le> max_nodes
       \<and> cr_depth r \<le> max_depth \<and> (set within \<subseteq> set seeds \<longrightarrow> r = EMPTY_REACH)"
proof (cases "reach st seeds action (Some within) auth max_depth max_nodes expander")
  case (Inr r)
  define u where "u = filter (\<lambda>x. x \<noteq> []) within"
  define seen where "seen = filter (\<lambda>x. x \<noteq> []) seeds"
  show ?thesis
  proof (cases "r = EMPTY_REACH")
    case False
    with Inr have nsub: "\<not> set u \<subseteq> set seen"
      and run: "reach_loop st (Some u) action max_nodes expander max_depth 0
        (map (\<lambda>n. (n, case auth of None \<Rightarrow> TOP | Some m \<Rightarrow> m)) (dedup (filter (in_universe (Some u)) seen))) seen [] = Inr r"
      by (auto simp: reach_def Let_def u_def [symmetric] seen_def [symmetric] split: if_splits)
    have "hop_ok (Some u) max_nodes (set seen) \<lparr> h_seen = seen, h_reached = [], h_next = [], h_limit = False \<rparr>"
      by (simp add: hop_ok_def)
    from reach_loop_ok [OF this run] have "distinct (cr_ids r)" "length (cr_ids r) \<le> max_nodes" "set seen \<inter> set (cr_ids r) = {}"
      "set (cr_ids r) \<subseteq> set u" "cr_depth r \<le> max_depth" by (auto simp: in_universe_def)
    with Inr nsub show ?thesis by (auto simp: u_def seen_def)
  qed (simp add: Inr EMPTY_REACH_def)
qed simp

text \<open>(C20) Without containment below it the walk is exact: it returns only nodes reachable over defining context edges
  whose mask carries the action, starting from the seeds inside the universe and staying there, and
  all of them unless it says that a bound truncated it; it raises only when an edge read was truncated.\<close>

theorem context_walk_exact:
  assumes "allows (case auth of None \<Rightarrow> TOP | Some m \<Rightarrow> m) action"
  shows "case reach st seeds action within auth max_depth max_nodes None of
      Inl e \<Rightarrow> e = EdgesTruncated
    | Inr r \<Rightarrow>
        (let u = map_option (filter (\<lambda>x. x \<noteq> [])) within;
             reachable = (ctx_rel st u action)\<^sup>* `` {s \<in> set seeds. s \<noteq> [] \<and> in_universe u s} - set seeds in
         set (cr_ids r) \<subseteq> reachable \<and> (\<not> cr_truncated r \<longrightarrow> set (cr_ids r) = reachable))"
proof -
  define u where "u = map_option (filter (\<lambda>x. x \<noteq> [])) within"
  define seen where "seen = filter (\<lambda>x. x \<noteq> []) seeds"
  define ceiling where "ceiling = (case auth of None \<Rightarrow> TOP | Some m \<Rightarrow> m)"
  define W where "W = {s \<in> set seeds. s \<noteq> [] \<and> in_universe u s}"
  let ?R = "ctx_rel st u action"
  have sets: "set seen = {s \<in> set seeds. s \<noteq> []}" "set (dedup (filter (in_universe u) seen)) = W" by (auto simp: seen_def W_def)
  have act: "action \<in> set ACTIONS" "allows ceiling action" using assms by (auto simp: allows_def ceiling_def dest: carries_in_ACTIONS)
  have roots: "?R\<^sup>* `` set seen - set seen = ?R\<^sup>* `` W - set seeds" unfolding sets W_def by (rule walkable_roots(1))
  consider (stop) "reach st seeds action within auth max_depth max_nodes None = Inr EMPTY_REACH" "?R\<^sup>* `` W - set seeds = {}"
    | (go) "reach st seeds action within auth max_depth max_nodes None
        = reach_loop st u action max_nodes None max_depth 0 (map (\<lambda>n. (n, ceiling)) (dedup (filter (in_universe u) seen))) seen []"
  proof (cases "u = Some [] \<or> seen = [] \<or> dedup (filter (in_universe u) seen) = []")
    case True
    moreover have "W \<subseteq> set seen" unfolding sets W_def by blast
    moreover have "u = Some [] \<Longrightarrow> W = {}" by (simp add: W_def in_universe_def)
    ultimately have "W = {}" using sets(2) by (metis empty_set subset_empty)
    with True act that(1) show thesis by (auto simp: reach_def Let_def u_def [symmetric] seen_def [symmetric] ceiling_def [symmetric])
  next
    case False
    show thesis
    proof (cases "case u of None \<Rightarrow> False | Some v \<Rightarrow> set v \<subseteq> set seen")
      case True
      with walkable_roots(2) [where universe = u and seeds = seeds and st = st and action = action] have "?R\<^sup>* `` W - set seeds = {}" unfolding sets W_def by blast
      with True False act that(1) show thesis by (simp add: reach_def Let_def u_def [symmetric] seen_def [symmetric] ceiling_def [symmetric])
    next
      case nsub: False
      with False act that(2) show thesis by (simp add: reach_def Let_def u_def [symmetric] seen_def [symmetric] ceiling_def [symmetric])
    qed
  qed
  then show ?thesis
  proof cases
    case stop
    then show ?thesis unfolding u_def [symmetric] Let_def W_def [symmetric] by (simp add: EMPTY_REACH_def)
  next
    case go
    have "cone_inv ?R (set seen) (map fst (map (\<lambda>n. (n, ceiling)) (dedup (filter (in_universe u) seen)))) seen []"
      by (auto simp: cone_inv_def comp_def sets W_def ctx_rel_def)
    from reach_loop_exact [OF this, of max_nodes max_depth 0] act(2) sets(2) show ?thesis
      unfolding go u_def [symmetric] Let_def W_def [symmetric] roots cr_truncated_def
      by (auto simp: list_all_iff W_def split: sum.splits)
  qed
qed

definition context_pair :: lattice where
  "context_pair = empty_lattice ''o'' 1\<lparr> edges := [(''1'', (sample_edge ''a'' ''b'' PNone)\<lparr> e_label := CONTEXT_LABEL \<rparr>)] \<rparr>"

lemma context_pair_edges:
  "ctx_edges context_pair n Out
     = Inr (if n = ''a'' then [(sample_edge ''a'' ''b'' PNone)\<lparr> e_label := CONTEXT_LABEL \<rparr>] else [])"
  by (simp add: ctx_edges_def context_edges_def context_pair_def sample_simps CONTEXT_LABEL_def)

lemma context_pair_reach:
  "reach context_pair [''a''] ''read'' None None 3 10 None = Inr \<lparr> cr_ids = [''b''], cr_depth = 2, cr_limit = None \<rparr>"
proof -
  have top: "allows TOP ''read''" "''read'' \<in> set ACTIONS" by code_simp+
  have same: "Mask_and TOP (from_propagate PNone) = TOP" by code_simp
  show ?thesis
    by (simp add: reach_def Let_def dedup_def top in_universe_def numeral_3_eq_3 one_hop_def context_pair_edges walk_edge_def
        sample_edge_def eprop_def e_col_def dget_def same admit_def)
qed

theorem context_walk_exact_witness:
  "(ctx_rel context_pair None ''read'')\<^sup>* `` {s \<in> set [''a'']. s \<noteq> [] \<and> in_universe None s} - set [''a''] = {''b''}"
proof -
  have "allows (case None of None \<Rightarrow> TOP | Some m \<Rightarrow> m) ''read''" by code_simp
  from context_walk_exact [OF this, where st = context_pair and seeds = "[''a'']" and within = None and max_depth = 3 and max_nodes = 10] show ?thesis
    by (simp only: context_pair_reach sum.case Let_def cr_truncated_def context_reach.simps option.map list.set simp_thms)
qed

theorem context_walk_confined_witness:
  "case reach context_pair [''a''] ''read'' (Some [''a'', ''a'']) None 3 10 None of Inl e \<Rightarrow> True | Inr r \<Rightarrow> r = EMPTY_REACH"
  using context_walk_confined [where st = context_pair and seeds = "[''a'']" and action = "''read''"
      and within = "[''a'', ''a'']" and auth = None and max_depth = 3 and max_nodes = 10 and expander = None]
  by (simp split: sum.splits)

end
