(* ===== verification/Light_Cone.thy ===== *)
theory Light_Cone
  imports Check_Access Context_Walk
begin

text \<open>
  \<open>search/mantle/lightcone.py\<close> and \<open>search/mantle/principal.py\<close>: which artifacts a principal may reach, and under which
  keys. \<open>lc_resolve\<close> enumerates the light cone; \<open>reaches\<close> asks the same question of one artifact by walking up, and
  \<open>authorized_page\<close> and the narrowed route of \<open>resolve_authorized_scope\<close> are built on it.

  Sets are lists. The store answers SQL, so the fallback of \<open>_raw_artifacts\<close> to single reads is not
  modelled. A caller's document filter and token lookup are arguments; a raise is \<open>Inl\<close>.
\<close>

section \<open>Definitions\<close>

definition PRINCIPAL_GRANT_TYPE :: string where "PRINCIPAL_GRANT_TYPE = ''user''"

definition ledger_grantee_type :: "string \<Rightarrow> string" where
  "ledger_grantee_type principal_type = (if principal_type = ''grant_key'' then principal_type else PRINCIPAL_GRANT_TYPE)"

definition grants_for :: "ambient \<Rightarrow> node_key \<Rightarrow> lattice \<Rightarrow> string \<Rightarrow> string \<Rightarrow> grant list result" where
  "grants_for amb K st principal_id principal_type =
     (if principal_type = ''grant_key'' then
        rbind (get_grant_by_id amb K st principal_id) (\<lambda>root.
          case root of
            None \<Rightarrow> Inr []
          | Some (g, _) \<Rightarrow> if \<not> Grant_is_active g then Inr [] else resolve amb K st g)
      else rbind (get_active_grants_for_grantee amb K st principal_id (ledger_grantee_type principal_type)) (\<lambda>es. Inr (map fst es)))"

definition granted_ids :: "string \<Rightarrow> grant list \<Rightarrow> string list" where
  "granted_ids action gs = map resource_id (filter (\<lambda>g. resource_id g \<noteq> [] \<and> allows (mask_of g) action) gs)"

definition denied_ids :: "string \<Rightarrow> grant list \<Rightarrow> string list" where
  "denied_ids action gs = map resource_id (filter (\<lambda>g. resource_id g \<noteq> [] \<and> is_deny (mask_of g) \<and> carries (mask_of g) action) gs)"

text \<open>\<open>LightConeResolver.resolve\<close>; the two bounds are those of the constructor.\<close>

definition lc_resolve ::
  "ambient \<Rightarrow> node_key \<Rightarrow> lattice \<Rightarrow> nat \<Rightarrow> nat \<Rightarrow> string \<Rightarrow> string \<Rightarrow> string \<Rightarrow> string list result" where
  "lc_resolve amb K st max_depth max_nodes principal_id action principal_type =
     (if action \<notin> set ACTIONS then Inr []
      else rbind (grants_for amb K st principal_id principal_type) (\<lambda>gs.
        (let allow = granted_ids action gs; deny = denied_ids action gs in
         if allow = [] then Inr []
         else
           rbind (list_origin_descendants st allow action) (\<lambda>below.
           rbind (if deny = [] then Inr (allow @ below)
                  else rbind (list_origin_descendants st deny action) (\<lambda>denied.
                         Inr (filter (\<lambda>x. x \<notin> set (deny @ denied)) (allow @ below)))) (\<lambda>granted.
           rbind (reach st granted action (Some granted) (Some (Mask_of [action] True)) max_depth max_nodes
                    (Some (\<lambda>roots. list_origin_descendants st roots action))) (\<lambda>r.
             Inr (dedup (granted @ filter (\<lambda>x. x \<in> set granted) (cr_ids r)))))))))"

definition grant_sets ::
  "ambient \<Rightarrow> node_key \<Rightarrow> lattice \<Rightarrow> string \<Rightarrow> string \<Rightarrow> string \<Rightarrow> (string list \<times> string list) result" where
  "grant_sets amb K st principal_id principal_type action =
     rbind (grants_for amb K st principal_id principal_type) (\<lambda>gs.
       Inr (map resource_id (filter (\<lambda>g. resource_id g \<noteq> [] \<and> \<not> (is_deny (mask_of g) \<and> carries (mask_of g) action) \<and> allows (mask_of g) action) gs),
            denied_ids action gs))"

text \<open>The walk up: deny before allow at every level; the end of the chain, and any error, is a no.\<close>

fun first_mark :: "string list \<Rightarrow> string list \<Rightarrow> string list \<Rightarrow> bool" where
  "first_mark allow deny [] = False"
| "first_mark allow deny (r # rs) = (if r \<in> set deny then False else if r \<in> set allow then True else first_mark allow deny rs)"

definition reaches :: "lattice \<Rightarrow> string \<Rightarrow> string \<Rightarrow> string list \<Rightarrow> string list \<Rightarrow> string option \<Rightarrow> bool" where
  "reaches st artifact_id action allow deny root_id =
     first_mark allow deny (fst (origin_chain st artifact_id action root_id ORIGIN_WALK_CEILING))"

text \<open>\<open>_authorized\<close>: the same walk handed over, at the first resource that is neither the artifact nor its root, to a
  walk from there that is memoised.\<close>

fun authorized_scan ::
  "lattice \<Rightarrow> string \<Rightarrow> string list \<Rightarrow> string list \<Rightarrow> string \<Rightarrow> string \<Rightarrow> string list \<Rightarrow> (string \<times> bool) list \<Rightarrow> bool \<times> (string \<times> bool) list" where
  "authorized_scan st action allow deny artifact_id root_id [] tails = (False, tails)"
| "authorized_scan st action allow deny artifact_id root_id (r # rs) tails =
     (if r \<in> set deny then (False, tails)
      else if r \<in> set allow then (True, tails)
      else if r \<noteq> artifact_id \<and> r \<noteq> root_id then
        (case map_of tails r of
           Some b \<Rightarrow> (b, tails)
         | None \<Rightarrow> (let b = reaches st r action allow deny (Some r) in (b, AList.update r b tails)))
      else authorized_scan st action allow deny artifact_id root_id rs tails)"

definition authorized ::
  "lattice \<Rightarrow> string \<Rightarrow> string list \<Rightarrow> string list \<Rightarrow> string \<Rightarrow> string \<Rightarrow> (string \<times> bool) list \<Rightarrow> bool \<times> (string \<times> bool) list" where
  "authorized st action allow deny artifact_id root_id tails =
     authorized_scan st action allow deny artifact_id root_id
       (fst (origin_chain st artifact_id action (Some root_id) ORIGIN_WALK_CEILING)) tails"

text \<open>\<open>_resolve_roots\<close> and \<open>_raw_artifacts\<close>: documents by id, then by root the newest version that is not archived.\<close>

definition newest_live :: "doc list \<Rightarrow> doc option" where
  "newest_live docs = find_first (\<lambda>d. state_of d \<noteq> STATE_ARCHIVED) (rev docs)"

definition resolve_roots :: "lattice \<Rightarrow> string list \<Rightarrow> (string \<times> doc) list \<Rightarrow> (string \<times> doc) list" where
  "resolve_roots st wanted out =
     (let missing = filter (\<lambda>a. map_of out a = None) wanted in
      fold (\<lambda>(root_id, docs) out. case newest_live docs of None \<Rightarrow> out | Some d \<Rightarrow> AList.update root_id d out)
        (if missing = [] then [] else versions_of_many st missing) out)"

definition raw_artifacts :: "lattice \<Rightarrow> string list \<Rightarrow> (string \<times> doc) list" where
  "raw_artifacts st wanted =
     (let hits = concat (map (\<lambda>a. case map_of (vertices st) a of None \<Rightarrow> [] | Some r \<Rightarrow> [(a, v_doc r)]) wanted) in
      resolve_roots st wanted (fold (\<lambda>(a, d) out. AList.update a d out) hits []))"

text \<open>\<open>authorized_page\<close>.\<close>

definition authorized_page ::
  "ambient \<Rightarrow> node_key \<Rightarrow> lattice \<Rightarrow> string \<Rightarrow> string \<Rightarrow> string \<Rightarrow> nat \<Rightarrow> nat \<Rightarrow> string list result" where
  "authorized_page amb K st principal_id principal_type action offset limit =
     rbind (grant_sets amb K st principal_id principal_type action) (\<lambda>(allow, deny).
       if allow = [] then Inr []
       else Inr (take (max 1 limit) (drop offset (map fst (filter (\<lambda>(aid, r).
              reaches st aid action allow deny (Some (if truthy (dget (v_doc r) ''root_id'') then dtext (v_doc r) ''root_id'' else aid)))
              (rows_by_id st (\<lambda>_. True)))))))"

definition resolve_cell_principal :: "lattice \<Rightarrow> string \<Rightarrow> string result" where
  "resolve_cell_principal st collection_id =
     (if collection_id = [] then Inr []
      else (case get_origin_root st collection_id of
              Inl _ \<Rightarrow> Inl CellPrincipalUnresolved
            | Inr root \<Rightarrow> Inr (if root = [] then collection_id else root)))"

type_synonym pairs = "(string \<times> string) list"

definition sort_pairs :: "pairs \<Rightarrow> pairs" where
  "sort_pairs ps = sort_key fst (sort_key snd ps)"

definition add_pair :: "lattice \<Rightarrow> string \<Rightarrow> pairs \<Rightarrow> pairs" where
  "add_pair st collection_id pairs =
     (if collection_id = [] \<or> collection_id \<in> snd ` set pairs then pairs
      else (case resolve_cell_principal st collection_id of
              Inl _ \<Rightarrow> pairs
            | Inr cell \<Rightarrow> if cell = [] then pairs else pairs @ [(cell, collection_id)]))"

definition custody_contexts ::
  "ambient \<Rightarrow> node_key \<Rightarrow> lattice \<Rightarrow> string \<Rightarrow> string \<Rightarrow> string \<Rightarrow> pairs result" where
  "custody_contexts amb K st principal_id action principal_type =
     rbind (grant_sets amb K st principal_id principal_type action) (\<lambda>(allow, deny).
       if allow = [] then Inr []
       else
         (let collections = (case list_artifacts st None (Some COLLECTION_CONTENT_TYPE) None None None 0 False of
                               Inl _ \<Rightarrow> [] | Inr ds \<Rightarrow> map (\<lambda>d. dtext d ''id'') (filter (\<lambda>d. truthy (dget d ''id'')) ds));
              reached = filter (\<lambda>c. reaches st c action allow deny None) collections;
              direct = concat (map (\<lambda>r. if r \<in> set deny then []
                         else (case get_artifact st r of
                                 Inr (Some d) \<Rightarrow> if d = [] then [] else [if truthy (dget d ''collection_id'') then dtext d ''collection_id'' else r]
                               | _ \<Rightarrow> [])) allow) in
          Inr (sort_pairs (fold (add_pair st) (reached @ direct) []))))"

record authorized_scope =
  sc_contexts :: pairs
  sc_artifact_ids :: "string list"
  sc_updated_at :: "(string \<times> string) list"

definition EMPTY_SCOPE :: authorized_scope where
  "EMPTY_SCOPE = \<lparr> sc_contexts = [], sc_artifact_ids = [], sc_updated_at = [] \<rparr>"

type_synonym token_lookup = "pairs \<Rightarrow> string list result"
type_synonym doc_filter = "doc \<Rightarrow> bool result"

definition token_narrowing :: "token_lookup \<Rightarrow> pairs \<Rightarrow> string list" where
  "token_narrowing lookup contexts =
     (if contexts = [] then [] else (case lookup contexts of Inl _ \<Rightarrow> [] | Inr found \<Rightarrow> dedup found))"

definition passes :: "doc_filter option \<Rightarrow> doc \<Rightarrow> bool" where
  "passes flt d = (case flt of None \<Rightarrow> True | Some f \<Rightarrow> f d = Inr True)"

definition stamp :: "string \<Rightarrow> doc \<Rightarrow> (string \<times> string) list \<Rightarrow> (string \<times> string) list" where
  "stamp aid d stamps =
     (if truthy (dget d ''modified_time'') then AList.update aid (dtext d ''modified_time'') stamps else stamps)"

text \<open>The narrowed route: the candidates of the lookup, each checked by the walk up.\<close>

fun narrowed_loop ::
  "lattice \<Rightarrow> string \<Rightarrow> string list \<Rightarrow> string list \<Rightarrow> doc_filter option \<Rightarrow> (string \<times> doc) list \<Rightarrow> string list
     \<Rightarrow> (string \<times> bool) list \<Rightarrow> string list \<times> (string \<times> string) list" where
  "narrowed_loop st action allow deny flt docs [] tails = ([], [])"
| "narrowed_loop st action allow deny flt docs (aid # rest) tails =
     (case map_of docs aid of
        None \<Rightarrow> narrowed_loop st action allow deny flt docs rest tails
      | Some d \<Rightarrow>
          if d = [] then narrowed_loop st action allow deny flt docs rest tails
          else
            (case authorized st action allow deny aid (doc_root d aid) tails of
               (ok, tails) \<Rightarrow>
                 if \<not> ok \<or> \<not> passes flt d then narrowed_loop st action allow deny flt docs rest tails
                 else
                   (case narrowed_loop st action allow deny flt docs rest tails of
                      (ids, stamps) \<Rightarrow> (aid # ids, stamp aid d stamps))))"

definition narrowed_scope ::
  "ambient \<Rightarrow> node_key \<Rightarrow> lattice \<Rightarrow> string \<Rightarrow> string \<Rightarrow> string \<Rightarrow> doc_filter option \<Rightarrow> token_lookup \<Rightarrow> authorized_scope result" where
  "narrowed_scope amb K st principal_id action principal_type flt lookup =
     rbind (custody_contexts amb K st principal_id action principal_type) (\<lambda>contexts.
       if contexts = [] then Inr EMPTY_SCOPE
       else rbind (grant_sets amb K st principal_id principal_type action) (\<lambda>(allow, deny).
         (let matched = token_narrowing lookup contexts in
          case narrowed_loop st action allow deny flt (raw_artifacts st matched) matched [] of
            (ids, stamps) \<Rightarrow> Inr \<lparr> sc_contexts = contexts, sc_artifact_ids = ids, sc_updated_at = stamps \<rparr>)))"

text \<open>The enumerating route: every authorized artifact is read for its collection. A collection whose origin root
  cannot be resolved raises.\<close>

fun scope_loop ::
  "lattice \<Rightarrow> doc_filter option \<Rightarrow> string list \<Rightarrow> pairs \<times> string list \<times> (string \<times> string) list
     \<Rightarrow> (pairs \<times> string list \<times> (string \<times> string) list) result" where
  "scope_loop st flt [] acc = Inr acc"
| "scope_loop st flt (aid # rest) acc =
     (case get_artifact st aid of
        Inr (Some d) \<Rightarrow>
          if d = [] then scope_loop st flt rest acc
          else
            (case acc of (pairs, matched, stamps) \<Rightarrow>
               (let stamps = stamp aid d stamps;
                    matched = (if flt \<noteq> None \<and> passes flt d then matched @ [aid] else matched);
                    cid = py_or (dget d ''collection_id'') (py_or (dget d ''_key'') (dget d ''id'')) in
                if \<not> truthy cid then scope_loop st flt rest (pairs, matched, stamps)
                else rbind (resolve_cell_principal st (as_text cid)) (\<lambda>cell.
                       scope_loop st flt rest
                         (if cell = [] \<or> (cell, as_text cid) \<in> set pairs then pairs else pairs @ [(cell, as_text cid)], matched, stamps))))
      | _ \<Rightarrow> scope_loop st flt rest acc)"

definition enumerated_scope ::
  "ambient \<Rightarrow> node_key \<Rightarrow> lattice \<Rightarrow> nat \<Rightarrow> nat \<Rightarrow> string \<Rightarrow> string \<Rightarrow> string \<Rightarrow> doc_filter option \<Rightarrow> authorized_scope result" where
  "enumerated_scope amb K st max_depth max_nodes principal_id action principal_type flt =
     rbind (lc_resolve amb K st max_depth max_nodes principal_id action principal_type) (\<lambda>ids.
       if ids = [] then Inr EMPTY_SCOPE
       else rbind (scope_loop st flt ids ([], [], [])) (\<lambda>(pairs, matched, stamps).
         (let kept = (if flt = None then ids else matched) in
          Inr \<lparr> sc_contexts = sort_pairs pairs, sc_artifact_ids = kept,
                sc_updated_at = filter (\<lambda>(a, _). a \<in> set kept) stamps \<rparr>)))"

definition resolve_authorized_scope ::
  "ambient \<Rightarrow> node_key \<Rightarrow> lattice \<Rightarrow> nat \<Rightarrow> nat \<Rightarrow> string \<Rightarrow> string \<Rightarrow> string \<Rightarrow> doc_filter option \<Rightarrow> token_lookup option
     \<Rightarrow> authorized_scope result" where
  "resolve_authorized_scope amb K st max_depth max_nodes principal_id action principal_type flt lookup =
     (case lookup of
        Some look \<Rightarrow> narrowed_scope amb K st principal_id action principal_type flt look
      | None \<Rightarrow> enumerated_scope amb K st max_depth max_nodes principal_id action principal_type flt)"

definition resolve_authorized_contexts ::
  "ambient \<Rightarrow> node_key \<Rightarrow> lattice \<Rightarrow> nat \<Rightarrow> nat \<Rightarrow> string \<Rightarrow> string \<Rightarrow> string \<Rightarrow> pairs result" where
  "resolve_authorized_contexts amb K st max_depth max_nodes principal_id action principal_type =
     rbind (resolve_authorized_scope amb K st max_depth max_nodes principal_id action principal_type None None) (\<lambda>s. Inr (sc_contexts s))"

section \<open>The enumerated cone\<close>

lemma set_ids:
  "set (granted_ids action gs) = {resource_id g | g. g \<in> set gs \<and> resource_id g \<noteq> [] \<and> allows (mask_of g) action}"
  "set (denied_ids action gs) = {resource_id g | g. g \<in> set gs \<and> resource_id g \<noteq> [] \<and> is_deny (mask_of g) \<and> carries (mask_of g) action}"
  by (auto simp: granted_ids_def denied_ids_def simp del: mask_of_simps)

text \<open>The context walk inside \<open>resolve\<close> is seeded with its own universe, so it adds nothing and cannot fail.\<close>

lemma reach_own_universe:
  "reach st granted action (Some granted) auth max_depth max_nodes expander = Inr EMPTY_REACH"
  by (cases "filter (\<lambda>x. x \<noteq> []) granted = []") (auto simp: reach_def Let_def)

lemma lc_resolve_cases:
  assumes "action \<in> set ACTIONS" "grants_for amb K st principal_id principal_type = Inr gs"
  shows "case lc_resolve amb K st max_depth max_nodes principal_id action principal_type of
      Inl e \<Rightarrow> e = EdgesTruncated
    | Inr out \<Rightarrow> distinct out \<and> set out = (conduct_rel st action)\<^sup>* `` set (granted_ids action gs) - (conduct_rel st action)\<^sup>* `` set (denied_ids action gs)"
proof -
  let ?R = "conduct_rel st action" and ?A = "granted_ids action gs" and ?D = "denied_ids action gs"
  have cone: "case list_origin_descendants st roots action of
      Inr out \<Rightarrow> set (roots @ out) = ?R\<^sup>* `` set roots | Inl e \<Rightarrow> e = EdgesTruncated" for roots
    using cone_exact [where st = st and root_ids = roots and action = action] by (auto split: sum.splits)
  show ?thesis
  proof (cases "?A = []")
    case True
    with assms show ?thesis by (simp add: lc_resolve_def)
  next
    case False
    have "set (dedup (filter P xs @ filter Q [])) = {x \<in> set xs. P x}" for P Q and xs :: "string list" by auto
    with False assms cone [of ?A] cone [of ?D] show ?thesis
      by (auto simp: lc_resolve_def Let_def rbind_def reach_own_universe EMPTY_REACH_def split: sum.splits if_splits)
  qed
qed

lemma lc_resolve_total:
  assumes "grants_for amb K st principal_id principal_type = Inr gs" "\<forall>roots. \<exists>out. list_origin_descendants st roots action = Inr out"
  shows "\<exists>out. lc_resolve amb K st max_depth max_nodes principal_id action principal_type = Inr out"
proof -
  obtain below denied where "list_origin_descendants st (granted_ids action gs) action = Inr below"
    "list_origin_descendants st (denied_ids action gs) action = Inr denied" using assms(2) by blast
  with assms(1) show ?thesis by (simp add: lc_resolve_def Let_def reach_own_universe)
qed

section \<open>The walk up\<close>

lemma first_mark_index:
  "first_mark allow deny rs \<longleftrightarrow>
     (\<exists>i < length rs. rs ! i \<in> set allow - set deny \<and> (\<forall>j < i. rs ! j \<notin> set allow \<union> set deny))"
  by (induction rs) (auto simp: Ex_less_Suc2 All_less_Suc2)

lemma chain_loop_nonempty: "[] \<notin> set (fst (chain_loop st action ceiling seen cur))"
  by (induction seen cur rule: chain_loop_induct [of st action ceiling]) (auto simp: map_prod_def dest: up_nonempty split: prod.splits)

text \<open>On a readable store in which every artifact has one origin edge, the chain of an artifact that is its own root
  is the set of its conducting ancestors.\<close>

lemma chain_ancestors:
  assumes "healthy st" "single_origin st" "aid \<noteq> []" "origin_chain st aid action (Some aid) n = (ys, None)"
  shows "set ys = {r. r \<noteq> [] \<and> (r, aid) \<in> (conduct_rel st action)\<^sup>*}"
proof -
  obtain zs where run: "chain_loop st action n [aid] aid = (zs, None)" and ys: "ys = aid # zs"
    using assms(3,4) by (auto simp: origin_chain_def Let_def split: prod.splits)
  have "y \<noteq> []" "(y, aid) \<in> (conduct_rel st action)\<^sup>*" if "y \<in> set zs" for y
    using chain_loop_sound [OF assms(1,3), of y action n "[aid]"] chain_loop_nonempty [of st action n "[aid]" aid] that run
    by (auto dest: trancl_into_rtrancl)
  moreover have "{x. x \<noteq> [] \<and> (x, aid) \<in> (conduct_rel st action)\<^sup>*} \<subseteq> set [aid] \<union> set (fst (chain_loop st action n [aid] aid))"
    by (rule chain_loop_complete [OF assms(1-3)]) (use assms(3) run in auto)
  ultimately show ?thesis using run assms(3) by (auto simp: ys)
qed

text \<open>The resolver and the gate read the same grants: at every resource the gate finds exactly the resolved grants
  that name it.\<close>

definition same_grants :: "ambient \<Rightarrow> node_key \<Rightarrow> lattice \<Rightarrow> auth_context \<Rightarrow> grant list \<Rightarrow> bool" where
  "same_grants amb K st auth gs \<longleftrightarrow> (\<forall>r. r \<noteq> [] \<longrightarrow> set (level_grants amb K st auth r) = {g \<in> set gs. resource_id g = r})"

lemma same_grants_key: "au_principal_type auth = ''grant_key'' \<Longrightarrow> same_grants amb K st auth (au_grants auth)"
  by (auto simp: same_grants_def level_grants_def)

text \<open>The stored grants of a user are filed: each names a resource and is held as a user.\<close>

definition user_filed :: "lattice \<Rightarrow> string \<Rightarrow> bool" where
  "user_filed st uid \<longleftrightarrow> (\<forall>d \<in> set (grant_rows_by st ''grantee_id'' uid).
     dget d ''grantee_type'' = PStr ''user'' \<and> (\<exists>r. r \<noteq> [] \<and> dget d ''resource_id'' = PStr r))"

lemma same_grants_user:
  assumes "user_filed st uid" "uid \<noteq> []" "au_principal_type auth \<noteq> ''grant_key''" "au_user_id auth = Some uid"
    and "grants_for amb K st uid ''user'' = Inr gs"
  shows "same_grants amb K st auth gs"
proof -
  let ?rows = "grant_rows_by st ''grantee_id'' uid"
  let ?dec = "\<lambda>d. fst (from_lattice_doc amb K d)"
  have filed: "dget d ''grantee_type'' = PStr ''user''" "\<exists>r. r \<noteq> [] \<and> dget d ''resource_id'' = PStr r" "dget d ''grantee_id'' = PStr uid"
    if "d \<in> set ?rows" for d using assms(1) that by (auto simp: user_filed_def set_grant_rows_by)
  have gs: "set gs = ?dec ` {d \<in> set ?rows. dget d ''state'' = PStr ''active'' \<and> unexpired amb d}"
    using assms(2,5) filed(1) by (auto simp: grants_for_def ledger_grantee_type_def PRINCIPAL_GRANT_TYPE_def get_active_grants_for_grantee_def grant_docs_by_eq)
  have level: "set (level_grants amb K st auth r)
      = ?dec ` {d \<in> set ?rows. dget d ''state'' = PStr ''active'' \<and> dget d ''resource_id'' = PStr r \<and> unexpired amb d}" for r
    using assms(2-4) by (auto simp: level_grants_def opt_text_def get_active_grants_for_principal_resource_def grant_docs_by_eq)
  have place: "resource_id (?dec d) = r \<longleftrightarrow> dget d ''resource_id'' = PStr r" if "d \<in> set ?rows" "dget d ''state'' = PStr ''active''" for d r
    using filed(2,3) [OF that(1)] decoded_place(1) [of d _ uid amb K] that(2) assms(2) by auto
  show ?thesis unfolding same_grants_def gs level using place by auto
qed

text \<open>The marks of a resource in the two piles are what its grants say, when every effect is recognized.\<close>

lemma marks_speak:
  assumes "grant_sets amb K st principal_id principal_type action = Inr (allow, deny)" "grants_for amb K st principal_id principal_type = Inr gs"
    and "same_grants amb K st auth gs" "action \<in> set ACTIONS" "\<forall>g \<in> set gs. grant_is_allow g \<or> grant_is_deny g" "r \<noteq> []"
  shows "denies (flag_of action) (level_grants amb K st auth r) \<longleftrightarrow> r \<in> set deny"
    and "speaks (flag_of action) (level_grants amb K st auth r) \<longleftrightarrow> r \<in> set allow \<union> set deny"
proof -
  have piles: "set allow = set (granted_ids action gs)" "set deny = set (denied_ids action gs)"
    using assms(1,2) by (auto simp: grant_sets_def set_ids is_deny_def granted_ids_def)
  have at: "set (level_grants amb K st auth r) = {g \<in> set gs. resource_id g = r}" using assms(3,6) by (simp add: same_grants_def)
  show "denies (flag_of action) (level_grants amb K st auth r) \<longleftrightarrow> r \<in> set deny"
    unfolding denies_def at piles(2) using assms(4-6) by (auto simp: set_ids is_deny_def dest: allow_not_deny simp del: append.simps)
  then show "speaks (flag_of action) (level_grants amb K st auth r) \<longleftrightarrow> r \<in> set allow \<union> set deny"
    unfolding speaks_def at piles using assms(4,6) by (auto simp: set_ids simp del: append.simps)
qed

lemma chain_nonempty:
  assumes "aid \<noteq> []" "root \<noteq> []"
  shows "[] \<notin> set (fst (origin_chain st aid action (Some root) n))"
  using assms chain_loop_nonempty [of st action n] by (auto simp: origin_chain_def Let_def split: prod.splits)
    (metis fst_conv)+

text \<open>Forgetting visited resources that are no ancestors of the cursor changes nothing about a chain that ends.\<close>

lemma chain_loop_forget:
  "snd (chain_loop st action n seen cur) = None \<Longrightarrow> set seen' \<subseteq> set seen \<Longrightarrow> length seen' \<le> length seen \<Longrightarrow>
   \<forall>x \<in> set seen - set seen'. (x, cur) \<notin> (parent_rel st)\<^sup>+ \<Longrightarrow>
   chain_loop st action n seen' cur = chain_loop st action n seen cur"
proof (induction seen cur arbitrary: seen' rule: chain_loop_induct [of st action n])
  case (stop seen cur)
  have fin: "length seen \<le> n" "\<exists>r. get_origin_parent st cur = Inr r"
    using stop(1) by (auto simp: chain_loop_cases [of st action n seen cur] split: if_splits sum.splits)
  have "p \<in> set seen'" if "up st action cur = Some p" for p
  proof -
    have "(p, cur) \<in> parent_rel st" using that up_nonempty [OF that] by (auto simp: up_def parent_rel_def split: sum.splits option.splits if_splits)
    with stop(2,6) that show ?thesis by auto
  qed
  with stop(1,2,5) fin show ?case by (auto simp: chain_loop_cases [of st action n seen' cur] split: option.splits sum.splits)
next
  case (hop seen cur p)
  have pr: "(p, cur) \<in> parent_rel st" using hop(1) up_nonempty [OF hop(1)] by (auto simp: up_def parent_rel_def split: sum.splits option.splits if_splits)
  have "\<exists>r. get_origin_parent st cur = Inr r" using hop(1) by (auto simp: up_def split: sum.splits)
  moreover have "p \<notin> set seen'" "length seen' \<le> n" using hop(2,3,7,8) by auto
  moreover have "chain_loop st action n (p # seen') p = chain_loop st action n (p # seen) p"
    using hop(4,6,7,8,9) pr by (intro hop(5)) (auto intro: trancl_into_trancl)
  ultimately show ?case using hop(1,4) by (auto simp: chain_loop_cases [of st action n seen' cur] split: sum.splits)
qed simp

definition tails_ok :: "lattice \<Rightarrow> string \<Rightarrow> string list \<Rightarrow> string list \<Rightarrow> (string \<times> bool) list \<Rightarrow> bool" where
  "tails_ok st action allow deny tails \<longleftrightarrow> (\<forall>r b. map_of tails r = Some b \<longrightarrow> b = reaches st r action allow deny (Some r))"

lemma first_mark_append:
  "first_mark allow deny (hs @ ys) = (if set hs \<inter> (set allow \<union> set deny) = {} then first_mark allow deny ys else first_mark allow deny hs)"
  by (induction hs) auto

lemma authorized_head:
  assumes "set hs \<subseteq> {aid, root}"
  shows "authorized_scan st action allow deny aid root (hs @ ys) tails
    = (if set hs \<inter> (set allow \<union> set deny) = {} then authorized_scan st action allow deny aid root ys tails else (first_mark allow deny hs, tails))"
  using assms by (induction hs) auto

section \<open>Correctness\<close>

text \<open>The light cone of a principal is exact: the artifacts reachable from a granted resource over conducting
  origin edges, less those reachable from a denied one; a deny on a container reaches everything in
  it, however near an allow is. The context walk adds nothing. It fails only when a container has more
  edges than one read may return.\<close>

theorem resolver_exact:
  assumes "action \<in> set ACTIONS" "grants_for amb K st principal_id principal_type = Inr gs"
  shows "case lc_resolve amb K st max_depth max_nodes principal_id action principal_type of
      Inl e \<Rightarrow> e = EdgesTruncated
    | Inr out \<Rightarrow> distinct out \<and> set out = (conduct_rel st action)\<^sup>* `` set (granted_ids action gs) - (conduct_rel st action)\<^sup>* `` set (denied_ids action gs)"
  using assms by (rule lc_resolve_cases)



text \<open>The memoised walk of the narrowed route answers what the plain walk answers, and its memo stays right: on a
  lineage without cycles that can be walked to its end, in which an artifact is not an ancestor of its
  own root.\<close>

theorem memoised_walk_agrees:
  assumes "tails_ok st action allow deny tails" "acyclic (parent_rel st)"
    and "snd (origin_chain st aid action (Some root) ORIGIN_WALK_CEILING) = None" "root \<noteq> []" "(aid, root) \<notin> (parent_rel st)\<^sup>+"
  shows "fst (authorized st action allow deny aid root tails) = reaches st aid action allow deny (Some root)
    \<and> tails_ok st action allow deny (snd (authorized st action allow deny aid root tails))"
proof -
  let ?n = ORIGIN_WALK_CEILING
  define hs where "hs = (if root = aid then [aid] else [aid, root])"
  obtain ys where run: "chain_loop st action ?n (rev hs) root = (ys, None)" and chain: "fst (origin_chain st aid action (Some root) ?n) = hs @ ys"
    using assms(3,4) by (auto simp: origin_chain_def Let_def hs_def split: prod.splits)
  have hs: "set hs \<subseteq> {aid, root}" "root \<in> set hs" by (auto simp: hs_def)
  note simps = authorized_def reaches_def chain first_mark_append authorized_head [OF hs(1)]
  show ?thesis
  proof (cases ys)
    case Nil
    with assms(1) show ?thesis unfolding simps Nil by simp
  next
    case (Cons y zs)
    have y: "up st action root = Some y" "y \<notin> set hs" "chain_loop st action ?n (y # rev hs) y = (zs, None)"
      using run Cons by (auto simp: chain_loop_cases [of st action ?n "rev hs" root] map_prod_def split: if_splits sum.splits option.splits prod.splits)
    have pr: "(y, root) \<in> parent_rel st" using y(1) up_nonempty [OF y(1)] by (auto simp: up_def parent_rel_def split: sum.splits option.splits if_splits)
    have "\<forall>x \<in> set (y # rev hs) - set [y]. (x, y) \<notin> (parent_rel st)\<^sup>+"
      using assms(2,5) pr hs(1) by (auto simp: acyclic_def dest: trancl_into_trancl)
    from chain_loop_forget [OF _ _ _ this, of action ?n] y(3) have "chain_loop st action ?n [y] y = (zs, None)" by simp
    then have tail: "reaches st y action allow deny (Some y) = first_mark allow deny (y # zs)"
      using up_nonempty [OF y(1)] by (simp add: reaches_def origin_chain_def Let_def)
    have "y \<noteq> aid \<and> y \<noteq> root" using y(2) by (auto simp: hs_def split: if_splits)
    then have scan: "fst (authorized_scan st action allow deny aid root (y # zs) tails) = first_mark allow deny (y # zs)"
      "tails_ok st action allow deny (snd (authorized_scan st action allow deny aid root (y # zs) tails))"
      using assms(1) tail unfolding tails_ok_def by (auto simp: Let_def split: option.splits)
    then show ?thesis using assms(1) unfolding simps Cons by simp
  qed
qed

text \<open>A note in a folder in a home. Bob may read the home; Ann may read the folder and is denied the home.\<close>

definition tree_grant :: "string \<Rightarrow> string \<Rightarrow> string \<Rightarrow> string \<Rightarrow> doc" where
  "tree_grant gid who rid eff = [(''id'', PStr gid), (''content_type'', PStr GRANT_CT), (''grantee_id'', PStr who), (''grantee_type'', PStr ''user''),
     (''resource_id'', PStr rid), (''state'', PStr ''active''), (''effect'', PStr eff), (''can_read'', PBool True)]"

definition tree_row :: "string \<Rightarrow> string \<Rightarrow> string \<Rightarrow> string \<Rightarrow> int \<Rightarrow> vrow" where
  "tree_row gid who rid eff n = (sample_row gid n)\<lparr> v_ct := Some GRANT_CT, v_doc := tree_grant gid who rid eff \<rparr>"

definition tree_store :: lattice where
  "tree_store = sample_tree\<lparr> vertices :=
     [(''1'', tree_row ''1'' ''ann'' ''folder'' ''allow'' 1), (''2'', tree_row ''2'' ''ann'' ''home'' ''deny'' 2),
      (''3'', tree_row ''3'' ''bob'' ''home'' ''allow'' 3), (''note'', (sample_row ''note'' 4)\<lparr> v_doc := [(''id'', PStr ''note'')] \<rparr>)] \<rparr>"

abbreviation tree_dec :: "string \<Rightarrow> string \<Rightarrow> string \<Rightarrow> string \<Rightarrow> grant" where
  "tree_dec gid who rid eff \<equiv> fst (from_lattice_doc sample_ambient sample_key (tree_grant gid who rid eff))"

lemma tree_dec_facts:
  assumes "rid \<noteq> []"
  shows "resource_id (tree_dec gid who rid eff) = rid" "can_read (tree_dec gid who rid eff)" "effect_of (tree_dec gid who rid ''allow'') = ''allow''"
    "effect_of (tree_dec gid who rid ''deny'') = ''deny''"
  using assms
  by (simp_all add: from_lattice_doc_def Let_def Grant_from_dict_def Grant_init_def dflag_def dtext_or_def tree_grant_def unseal_fields_def
      dget_Cons SEALED_def LATTICE_INTERNAL_def dpop_def effect_of_def norm_effect_def dtext_def str_or_def py_lower_def
      py_strip_def is_space_def lower_char_def)

lemma tree_rows:
  "grant_rows_by tree_store ''grantee_id'' ''ann'' = [tree_grant ''1'' ''ann'' ''folder'' ''allow'', tree_grant ''2'' ''ann'' ''home'' ''deny'']"
  "grant_rows_by tree_store ''grantee_id'' ''bob'' = [tree_grant ''3'' ''bob'' ''home'' ''allow'']"
proof -
  have g: "dget (tree_grant gid who rid eff) ''grantee_id'' = PStr who" for gid who rid eff by (simp add: tree_grant_def dget_Cons)
  have le: "(''1'' :: string) \<le> ''2''" by code_simp
  show "grant_rows_by tree_store ''grantee_id'' ''ann'' = [tree_grant ''1'' ''ann'' ''folder'' ''allow'', tree_grant ''2'' ''ann'' ''home'' ''deny'']"
    "grant_rows_by tree_store ''grantee_id'' ''bob'' = [tree_grant ''3'' ''bob'' ''home'' ''allow'']"
    using g le by (simp_all add: grant_rows_by_def rows_by_id_def tree_store_def tree_row_def sample_row_def GRANT_CT_def)
qed

lemma tree_walk:
  "healthy tree_store" "single_origin tree_store" "get_origin_parent tree_store = get_origin_parent sample_tree"
  "origin_chain tree_store ''note'' ''read'' (Some ''note'') ORIGIN_WALK_CEILING = ([''note'', ''folder'', ''home''], None)"
proof -
  show h: "healthy tree_store" "single_origin tree_store"
    using sample_tree_simps(1,2) by (simp_all add: healthy_def single_origin_def tree_store_def)
  show p: "get_origin_parent tree_store = get_origin_parent sample_tree"
    by (simp add: fun_eq_iff get_origin_parent_def edges_of_cases matching_edges_def tree_store_def)
  show "origin_chain tree_store ''note'' ''read'' (Some ''note'') ORIGIN_WALK_CEILING = ([''note'', ''folder'', ''home''], None)"
    by (simp add: origin_chain_def chain_loop.simps p sample_parents sample_propagates ORIGIN_WALK_CEILING_def)
qed

lemma tree_conducts: "(''home'', ''folder'') \<in> conduct_rel tree_store ''read''" "(''folder'', ''note'') \<in> conduct_rel tree_store ''read''"
  by (rule up_conducts [OF tree_walk(1)]; simp add: up_def tree_walk(3) sample_parents sample_propagates)+

lemma tree_grants_for:
  "grants_for sample_ambient sample_key tree_store ''ann'' ''user'' = Inr [tree_dec ''1'' ''ann'' ''folder'' ''allow'', tree_dec ''2'' ''ann'' ''home'' ''deny'']"
  "grants_for sample_ambient sample_key tree_store ''bob'' ''user'' = Inr [tree_dec ''3'' ''bob'' ''home'' ''allow'']"
proof -
  have d: "dget (tree_grant gid who rid eff) ''state'' = PStr ''active''" "dget (tree_grant gid who rid eff) ''grantee_type'' = PStr ''user''"
    "unexpired sample_ambient (tree_grant gid who rid eff)" for gid who rid eff
    by (simp_all add: tree_grant_def dget_Cons unexpired_def)
  show "grants_for sample_ambient sample_key tree_store ''ann'' ''user'' = Inr [tree_dec ''1'' ''ann'' ''folder'' ''allow'', tree_dec ''2'' ''ann'' ''home'' ''deny'']"
    "grants_for sample_ambient sample_key tree_store ''bob'' ''user'' = Inr [tree_dec ''3'' ''bob'' ''home'' ''allow'']"
    by (simp_all add: grants_for_def ledger_grantee_type_def PRINCIPAL_GRANT_TYPE_def get_active_grants_for_grantee_def grant_docs_by_eq tree_rows d)
qed

lemma tree_masks:
  "allows (mask_of (tree_dec gid who ''home'' ''allow'')) ''read''" "allows (mask_of (tree_dec gid who ''folder'' ''allow'')) ''read''"
  "is_deny (mask_of (tree_dec gid who ''home'' ''deny''))" "carries (mask_of (tree_dec gid who ''home'' ''deny'')) ''read''"
  "\<not> is_deny (mask_of (tree_dec gid who ''home'' ''allow''))" "\<not> is_deny (mask_of (tree_dec gid who ''folder'' ''allow''))"
  "\<not> allows (mask_of (tree_dec gid who ''home'' ''deny'')) ''read''"
  by (simp_all add: is_deny_def grant_is_allow_def tree_dec_facts get_flag_def ACTIONS_def)

lemma tree_cones: "\<exists>out. list_origin_descendants tree_store roots ''read'' = Inr out"
proof -
  have "length (matching_edges tree_store n (Some CONTAINS) Out) \<le> 1000000" for n
    using sample_tree_simps(3) by (auto simp: matching_edges_def tree_store_def intro: order_trans [OF length_filter_le])
  then show ?thesis using cone_exact [where st = tree_store and root_ids = roots and action = "''read''"]
    by (auto simp: not_less [symmetric] split: sum.splits)
qed

abbreviation bob :: auth_context where
  "bob \<equiv> AUTH_ARGS\<lparr> au_principal_id := ''bob'', au_user_id := Some ''bob'' \<rparr>"

lemma bob_facts:
  "same_grants sample_ambient sample_key tree_store bob [tree_dec ''3'' ''bob'' ''home'' ''allow'']"
  "subject_doc tree_store bob ''note'' = Some [(''id'', PStr ''note'')]" "doc_root [(''id'', PStr ''note'')] ''note'' = ''note''"
  "snd (access_chain tree_store ''note'' ''read'' [(''id'', PStr ''note'')]) = None"
proof -
  have "user_filed tree_store ''bob''" by (simp add: user_filed_def tree_rows tree_grant_def dget_Cons)
  from same_grants_user [OF this _ _ _ tree_grants_for(2), of bob]
  show "same_grants sample_ambient sample_key tree_store bob [tree_dec ''3'' ''bob'' ''home'' ''allow'']" by (simp add: AUTH_ARGS_def)
  show "subject_doc tree_store bob ''note'' = Some [(''id'', PStr ''note'')]"
    by (simp add: subject_doc_def get_artifact_def doc_of_def tree_store_def sample_tree_def empty_lattice_def AUTH_ARGS_def opt_text_def)
  show r: "doc_root [(''id'', PStr ''note'')] ''note'' = ''note''" by (simp add: doc_root_def dget_Cons)
  show "snd (access_chain tree_store ''note'' ''read'' [(''id'', PStr ''note'')]) = None" by (simp add: r tree_walk(4))
qed

lemma bob_cone:
  obtains out where "lc_resolve sample_ambient sample_key tree_store 64 10000 ''bob'' ''read'' ''user'' = Inr out" "''note'' \<in> set out"
proof -
  let ?gs = "[tree_dec ''3'' ''bob'' ''home'' ''allow'']"
  have ids: "granted_ids ''read'' ?gs = [''home'']" "denied_ids ''read'' ?gs = []"
    by (simp_all add: granted_ids_def denied_ids_def tree_masks tree_dec_facts del: mask_of_simps)
  obtain out where out: "lc_resolve sample_ambient sample_key tree_store 64 10000 ''bob'' ''read'' ''user'' = Inr out"
    using lc_resolve_total [OF tree_grants_for(2)] tree_cones by blast
  have "''read'' \<in> set ACTIONS" by (simp add: ACTIONS_def)
  from lc_resolve_cases [OF this tree_grants_for(2), of 64 10000] out
  have "set out = (conduct_rel tree_store ''read'')\<^sup>* `` {''home''}" by (simp add: ids)
  moreover have "(''home'', ''note'') \<in> (conduct_rel tree_store ''read'')\<^sup>*"
    using tree_conducts by (meson converse_rtrancl_into_rtrancl r_into_rtrancl)
  ultimately show thesis using out that by blast
qed


theorem resolver_exact_witness:
  "\<exists>out. lc_resolve sample_ambient sample_key tree_store 64 10000 ''bob'' ''read'' ''user'' = Inr out \<and> distinct out"
proof -
  have "''read'' \<in> set ACTIONS" by (simp add: ACTIONS_def)
  note c = resolver_exact [OF this tree_grants_for(2), of 64 10000]
  obtain out where "lc_resolve sample_ambient sample_key tree_store 64 10000 ''bob'' ''read'' ''user'' = Inr out" by (rule bob_cone)
  with c show ?thesis by simp
qed


theorem memoised_walk_agrees_witness:
  "fst (authorized tree_store ''read'' [''home''] [] ''note'' ''note'' []) = reaches tree_store ''note'' ''read'' [''home''] [] (Some ''note'')"
proof -
  have "parent_rel tree_store = parent_rel sample_tree" by (simp add: parent_rel_def tree_walk(3))
  then have ac: "acyclic (parent_rel tree_store)" using sample_acyclic by simp
  moreover have "(''note'', ''note'') \<notin> (parent_rel tree_store)\<^sup>+" using ac by (simp add: acyclic_def)
  ultimately show ?thesis using memoised_walk_agrees [of tree_store "''read''" "[''home'']" "[]" "[]" "''note''" "''note''"]
    by (simp add: tails_ok_def tree_walk(4))
qed

text \<open>The paged route can return what the enumerating route withholds: a deny on an ancestor takes an artifact out of
  the enumerated light cone even when a nearer allow makes the walk up, and the gate, grant it.\<close>

theorem page_exceeds_enumeration:
  "lc_resolve sample_ambient sample_key tree_store max_depth max_nodes ''ann'' ''read'' ''user'' = Inr []
   \<and> authorized_page sample_ambient sample_key tree_store ''ann'' ''user'' ''read'' 0 100 = Inr [''note'']"
proof
  let ?gs = "[tree_dec ''1'' ''ann'' ''folder'' ''allow'', tree_dec ''2'' ''ann'' ''home'' ''deny'']"
  have ids: "granted_ids ''read'' ?gs = [''folder'']" "denied_ids ''read'' ?gs = [''home'']"
    by (simp_all add: granted_ids_def denied_ids_def tree_masks tree_dec_facts del: mask_of_simps)
  have sub: "(conduct_rel tree_store ''read'')\<^sup>* `` {''folder''} \<subseteq> (conduct_rel tree_store ''read'')\<^sup>* `` {''home''}"
    using tree_conducts(1) by (auto intro: converse_rtrancl_into_rtrancl)
  have "''read'' \<in> set ACTIONS" by (simp add: ACTIONS_def)
  note c = lc_resolve_cases [OF this tree_grants_for(1), of max_depth max_nodes, unfolded ids]
  obtain out where out: "lc_resolve sample_ambient sample_key tree_store max_depth max_nodes ''ann'' ''read'' ''user'' = Inr out"
    using lc_resolve_total [OF tree_grants_for(1)] tree_cones by blast
  from c have "set out = (conduct_rel tree_store ''read'')\<^sup>* `` {''folder''} - (conduct_rel tree_store ''read'')\<^sup>* `` {''home''}" by (simp add: out)
  also have "\<dots> = {}" using sub by (rule Diff_eq_empty_iff [THEN iffD2])
  finally show "lc_resolve sample_ambient sample_key tree_store max_depth max_nodes ''ann'' ''read'' ''user'' = Inr []" by (simp add: out)
  have sets: "grant_sets sample_ambient sample_key tree_store ''ann'' ''user'' ''read'' = Inr ([''folder''], [''home''])"
    by (simp add: grant_sets_def tree_grants_for tree_masks tree_dec_facts ids del: mask_of_simps)
  have none: "get_origin_parent tree_store v = Inr None" if "v \<in> {''1'', ''2'', ''3''}" for v
    using that by (auto simp: tree_walk(3) sample_tree_def sample_simps)
  have "reaches tree_store v ''read'' [''folder''] [''home''] (Some v) = (v = ''note'')" if "v \<in> {''1'', ''2'', ''3'', ''note''}" for v
  proof (cases "v = ''note''")
    case True
    then show ?thesis by (simp add: reaches_def tree_walk(4))
  next
    case False
    with that none [of v] have "chain_loop tree_store ''read'' ORIGIN_WALK_CEILING [v] v = ([], None)" "v \<noteq> []" "v \<notin> {''folder'', ''home''}"
      by (auto simp: chain_loop.simps ORIGIN_WALK_CEILING_def)
    with False show ?thesis by (simp add: reaches_def origin_chain_def Let_def)
  qed
  note marks = this [of "''1''"] this [of "''2''"] this [of "''3''"] this [of "''note''"]
  have rows: "rows_by_id tree_store (\<lambda>_. True) = vertices tree_store"
  proof -
    have "sorted (map fst (vertices tree_store))" by (simp add: tree_store_def)
    then show ?thesis unfolding rows_by_id_def by (simp add: case_prod_beta' sorted_sort_id sort_key_id_if_sorted)
  qed
  have "dget (tree_grant gid who rid eff) ''root_id'' = PNone" for gid who rid eff by (simp add: tree_grant_def dget_Cons)
  then show "authorized_page sample_ambient sample_key tree_store ''ann'' ''user'' ''read'' 0 100 = Inr [''note'']"
    unfolding authorized_page_def sets rbind_simps prod.case rows using marks by (simp add: tree_store_def tree_row_def dget_Cons)
qed

end
