(* ===== verification/Work_Pool.thy ===== *)
theory Work_Pool
  imports Store
begin

text \<open>
  The work pool of \<open>db/vertex.py\<close>: the \<open>task\<close> table is a projection of the documents that carry a
  \<open>status\<close>, and claims are compare-and-set updates of it. Every transition writes the row, the
  document and the two queue-depth counters in one transaction.

  A row is selected by the code's \<open>WHERE\<close> clause, so an update of an absent or moved row answers
  \<open>False\<close> and changes nothing. \<open>LIMIT\<close> is \<open>sql_limit\<close>; \<open>ORDER BY priority DESC, id\<close> is two stable sorts.
\<close>

section \<open>Definitions\<close>

text \<open>\<open>_patch_doc\<close>: the document follows a sidecar-only update; no version is allocated.\<close>

definition doc_update :: "doc \<Rightarrow> doc \<Rightarrow> doc" where
  "doc_update new d = fold (\<lambda>(k, v). dset k v) new d"

definition patch_doc :: "string \<Rightarrow> doc \<Rightarrow> lattice \<Rightarrow> lattice" where
  "patch_doc aid new st =
     (case map_of (vertices st) aid of
        None \<Rightarrow> st
      | Some r \<Rightarrow>
          (let d = doc_update new (v_doc r);
               st = st\<lparr> vertices := AList.update aid (r\<lparr> v_doc := d \<rparr>) (vertices st) \<rparr> in
           if list_ex (\<lambda>(k, _). k \<in> set LIST_INDEX_FIELDS) new
           then index_lists aid (Some d) (v_ct r) True st else st))"

definition set_task :: "string \<Rightarrow> task_row \<Rightarrow> lattice \<Rightarrow> lattice" where
  "set_task tid t st = st\<lparr> tasks := AList.update tid t (tasks st) \<rparr>"

definition move_depth :: "string \<Rightarrow> string \<Rightarrow> string \<Rightarrow> lattice \<Rightarrow> lattice" where
  "move_depth ct from_status to_status st =
     bump (c_task_status ct to_status) 1 (bump (c_task_status ct from_status) (- 1) st)"

definition pending_window ::
  "lattice \<Rightarrow> string \<Rightarrow> int \<Rightarrow> string option \<Rightarrow> string option \<Rightarrow> (string \<times> task_row) list" where
  "pending_window st ct limit now_iso operator =
     sql_limit (Some limit)
       (sort_key (\<lambda>(_, t). - t_priority t) (sort_key fst
          (filter (\<lambda>(_, t). t_ct t = ct \<and> t_status t = ''pending''
             \<and> (case operator of None \<Rightarrow> True | Some op \<Rightarrow> t_operator t = PStr op)
             \<and> (case now_iso of None \<Rightarrow> True
                 | Some now \<Rightarrow> t_next_retry_at t = PNone \<or> as_text (t_next_retry_at t) \<le> now)) (tasks st))))"

definition try_claim :: "string \<Rightarrow> string \<Rightarrow> string \<Rightarrow> lattice \<Rightarrow> bool \<times> lattice" where
  "try_claim tid worker now st =
     (case map_of (tasks st) tid of
        None \<Rightarrow> (False, st)
      | Some t \<Rightarrow>
          if t_status t \<noteq> ''pending'' then (False, st)
          else
            (let st = set_task tid (t\<lparr> t_status := ''claimed'', t_claimed_by := PStr worker, t_claimed_at := PStr now \<rparr>) st;
                 st = patch_doc tid [(''status'', PStr ''claimed''), (''claimed_by'', PStr worker), (''claimed_at'', PStr now)] st in
             (True, move_depth (t_ct t) ''pending'' ''claimed'' st)))"

definition renew_lease :: "string \<Rightarrow> string \<Rightarrow> lattice \<Rightarrow> bool \<times> lattice" where
  "renew_lease tid now st =
     (case map_of (tasks st) tid of
        None \<Rightarrow> (False, st)
      | Some t \<Rightarrow>
          if t_status t \<noteq> ''claimed'' then (False, st)
          else (True, patch_doc tid [(''claimed_at'', PStr now)] (set_task tid (t\<lparr> t_claimed_at := PStr now \<rparr>) st)))"

definition claimed :: "lattice \<Rightarrow> string \<Rightarrow> int \<Rightarrow> (string \<times> task_row) list" where
  "claimed st ct limit =
     sql_limit (Some limit) (sort_key fst (filter (\<lambda>(_, t). t_ct t = ct \<and> t_status t = ''claimed'') (tasks st)))"

definition release :: "string \<Rightarrow> string \<Rightarrow> string option \<Rightarrow> lattice \<Rightarrow> bool \<times> lattice" where
  "release tid to_status next_retry_at st =
     (case map_of (tasks st) tid of
        None \<Rightarrow> (False, st)
      | Some t \<Rightarrow>
          if t_status t \<noteq> ''claimed'' then (False, st)
          else
            (let st = set_task tid (t\<lparr> t_status := to_status, t_claimed_by := PNone, t_next_retry_at := opt_val next_retry_at \<rparr>) st;
                 st = patch_doc tid [(''status'', PStr to_status), (''claimed_by'', PNone),
                        (''next_retry_at'', opt_val next_retry_at)] st in
             (True, move_depth (t_ct t) ''claimed'' to_status st)))"

definition settle_task ::
  "string \<Rightarrow> string \<Rightarrow> string \<Rightarrow> string option \<Rightarrow> string option \<Rightarrow> doc \<Rightarrow> lattice \<Rightarrow> bool \<times> lattice" where
  "settle_task tid worker to_status next_retry_at completed_at extra st =
     (case map_of (tasks st) tid of
        None \<Rightarrow> (False, st)
      | Some t \<Rightarrow>
          if t_status t \<noteq> ''claimed'' \<or> t_claimed_by t \<noteq> PStr worker then (False, st)
          else
            (let st = set_task tid (t\<lparr> t_status := to_status, t_claimed_by := PNone,
                        t_next_retry_at := opt_val next_retry_at, t_completed_at := opt_val completed_at \<rparr>) st;
                 st = patch_doc tid (doc_update [(''status'', PStr to_status), (''claimed_by'', PNone),
                        (''next_retry_at'', opt_val next_retry_at), (''completed_at'', opt_val completed_at)] extra) st in
             (True, move_depth (t_ct t) ''claimed'' to_status st)))"

definition count_by_status :: "lattice \<Rightarrow> string \<Rightarrow> string list \<Rightarrow> (string \<times> int) list" where
  "count_by_status st ct statuses = map (\<lambda>s. (s, counter_of st (c_task_status ct s))) statuses"

section \<open>The projection\<close>

text \<open>The row that \<open>_sync_task\<close> derives from a document, if it carries a status.\<close>

definition project_task :: "doc \<Rightarrow> string \<Rightarrow> task_row result" where
  "project_task d c =
     rbind (py_int (py_or (dget d ''priority'') (PInt 0))) (\<lambda>prio.
     rbind (bind_text (dget d ''operator'')) (\<lambda>operator.
     rbind (bind_text (dget d ''task_key'')) (\<lambda>task_key.
     rbind (bind_text (dget d ''claimed_by'')) (\<lambda>claimed_by.
     rbind (bind_text (dget d ''claimed_at'')) (\<lambda>claimed_at.
     rbind (bind_text (dget d ''next_retry_at'')) (\<lambda>next_retry_at.
     rbind (bind_text (dget d ''completed_at'')) (\<lambda>completed_at.
       Inr \<lparr> t_ct = c, t_status = dtext d ''status'', t_priority = prio, t_operator = operator,
             t_task_key = task_key, t_claimed_by = claimed_by, t_claimed_at = claimed_at,
             t_next_retry_at = next_retry_at, t_completed_at = completed_at \<rparr>)))))))"

definition task_of :: "vrow \<Rightarrow> task_row option" where
  "task_of r =
     (case v_ct r of
        None \<Rightarrow> None
      | Some c \<Rightarrow>
          if c = [] \<or> dtext (v_doc r) ''status'' = [] then None
          else (case project_task (v_doc r) c of Inl _ \<Rightarrow> None | Inr t \<Rightarrow> Some t))"

definition depth :: "lattice \<Rightarrow> string \<Rightarrow> int" where
  "depth st name = cnt.total (\<lambda>_ t. of_bool (c_task_status (t_ct t) (t_status t) = name)) (tasks st)"

text \<open>The sidecar is exactly the projection of the documents and every queue-depth counter is the number of
  rows it names. A stored document's content type is text or absent.\<close>

definition typed_row :: "vrow \<Rightarrow> bool" where
  "typed_row r = (dget (v_doc r) ''content_type'' = opt_val (v_ct r))"

definition projects :: "vrow \<Rightarrow> bool" where
  "projects r = (\<forall>c. v_ct r = Some c \<longrightarrow> c \<noteq> [] \<longrightarrow> dtext (v_doc r) ''status'' \<noteq> [] \<longrightarrow> (\<exists>t. project_task (v_doc r) c = Inr t))"

definition pool_ok :: "lattice \<Rightarrow> bool" where
  "pool_ok st = (distinct (map fst (tasks st))
     \<and> (\<forall>aid. map_of (tasks st) aid = Option.bind (map_of (vertices st) aid) task_of)
     \<and> (\<forall>aid r. map_of (vertices st) aid = Some r \<longrightarrow> typed_row r \<and> projects r)
     \<and> (\<forall>ct s. counter st (c_task_status ct s) = depth st (c_task_status ct s)))"

section \<open>What a write does to the pool\<close>

definition same_pool :: "lattice \<Rightarrow> lattice \<Rightarrow> bool" where
  "same_pool s t = (vertices t = vertices s \<and> tasks t = tasks s
     \<and> (\<forall>ct x. counter t (c_task_status ct x) = counter s (c_task_status ct x)))"

lemma same_pool_refl [simp]: "same_pool s s"
  by (simp add: same_pool_def)

lemma same_pool_trans [trans]: "same_pool s t \<Longrightarrow> same_pool t u \<Longrightarrow> same_pool s u"
  by (simp add: same_pool_def)

lemma same_pool_ok: "same_pool s t \<Longrightarrow> pool_ok t = pool_ok s"
  by (simp add: same_pool_def pool_ok_def depth_def)

lemma task_names [simp]:
  "c_task_status ct x \<noteq> c_vertex_total" "c_task_status ct x \<noteq> c_edge_total" "c_task_status ct x \<noteq> c_edge_label l"
  "c_task_status ct x \<noteq> c_rows a" "c_task_status ct x \<noteq> c_vacated a" "c_task_status ct x \<noteq> c_ct c"
  "c_task_status ct x \<noteq> c_state v" "c_task_status ct x \<noteq> c_collection cid b" "c_task_status ct x \<noteq> c_missing f b"
  "c_task_status ct x \<noteq> ''conflict:unordered''" "c_task_status ct x \<noteq> ''conflict:unordered_edge''"
  by (simp_all add: c_task_status_def c_vertex_total_def c_edge_total_def c_edge_label_def c_rows_def
      c_vacated_def c_ct_def c_state_def c_collection_def c_missing_def)

lemma tasks_fields [simp]:
  "tasks (bump n x st) = tasks st" "tasks (vacate a st) = tasks st" "tasks (xor_leaf l v st) = tasks st"
  "tasks (index_lists aid d ct had st) = tasks st" "vertices (index_lists aid d ct had st) = vertices st"
  "counter (index_lists aid d ct had st) = counter st"
  by (simp_all add: bump_def vacate_def xor_leaf_def index_lists_def Let_def)

lemma vac_move_task [simp]: "vac_move a (c_task_status ct x) = 0"
  by (simp add: vac_move_def)

lemma counter_deltas_task: "(m, y) \<in> set (counter_deltas old new old_ct new_ct) \<Longrightarrow> m \<noteq> c_task_status ct x"
proof -
  let ?adds = "(case old of None \<Rightarrow> [] | Some d \<Rightarrow> counter_adds d old_ct (- 1))
      @ (case new of None \<Rightarrow> [] | Some d \<Rightarrow> counter_adds d new_ct 1)"
  assume "(m, y) \<in> set (counter_deltas old new old_ct new_ct)"
  then have "m \<in> fst ` set (counter_deltas old new old_ct new_ct)" by (rule image_eqI [rotated]) simp
  then have "m \<in> fst ` set ?adds"
    using summed_keys [of ?adds "[]"] unfolding counter_deltas_def Let_def by auto
  moreover have "n \<noteq> c_task_status ct x" if "(n, z) \<in> set (counter_adds d c sign)" for n z d c sign
    using that unfolding counter_adds_def Let_def
    by (auto simp: task_names [THEN not_sym] split: option.splits if_splits)
  ultimately show ?thesis by (cases old; cases new) auto
qed

lemma same_pool_bump_all:
  "(\<And>m y ct x. (m, y) \<in> set ds \<Longrightarrow> m \<noteq> c_task_status ct x) \<Longrightarrow> same_pool st (bump_all ds st)"
  unfolding bump_all_def
proof (induction ds arbitrary: st)
  case (Cons p ds)
  obtain m y where p: "p = (m, y)" by (cases p)
  have "same_pool st (bump m y st)" using Cons.prems [of m y] by (auto simp: p same_pool_def)
  moreover have "same_pool (bump m y st) (fold (\<lambda>(n, x) st. bump n x st) ds (bump m y st))"
    by (rule Cons.IH) (use Cons.prems in auto)
  ultimately show ?case using same_pool_trans by (simp add: p)
qed simp

lemma same_pool_deltas: "same_pool st (bump_all (counter_deltas old new old_ct new_ct) st)"
  by (rule same_pool_bump_all) (use counter_deltas_task in blast)

lemma same_pool_write_edge: "write_edge H a b l ps origin n st = Inr st' \<Longrightarrow> same_pool st st'"
  by (auto simp: write_edge_def Let_def rbind_eq_Inr same_pool_def split: option.splits)

lemma same_pool_place: "place H d st = Inr st' \<Longrightarrow> same_pool st st'"
proof -
  assume "place H d st = Inr st'"
  then consider "same_pool st st'" | st1 n where "st_allocate st = (n, st1)"
      "write_edge H (dtext d ''collection_id'') (doc_root d) ''contains'' [(''root_id'', PStr (doc_root d)), (''is_origin'', PInt 1)] (st_origin st) n st1 = Inr st'"
    by (auto simp: place_def Let_def add_one_def same_pool_def split: if_splits sum.splits prod.splits)
  then show ?thesis
  proof cases
    case 2
    then have "same_pool st st1" by (auto simp: st_allocate_def Let_def same_pool_def)
    from same_pool_trans [OF this same_pool_write_edge [OF 2(2)]] show ?thesis .
  qed
qed

text \<open>The projection step itself.\<close>

definition old_name :: "doc option \<Rightarrow> string option" where
  "old_name old =
     (case old of
        None \<Rightarrow> None
      | Some d \<Rightarrow> if dtext d ''status'' = [] \<or> dtext d ''content_type'' = [] then None
                  else Some (c_task_status (dtext d ''content_type'') (dtext d ''status'')))"

definition row_name :: "task_row option \<Rightarrow> string option" where
  "row_name t = map_option (\<lambda>t. c_task_status (t_ct t) (t_status t)) t"

definition new_task :: "doc option \<Rightarrow> string option \<Rightarrow> task_row option result" where
  "new_task new ct =
     (case (new, ct) of
        (Some d, Some c) \<Rightarrow> if dtext d ''status'' = [] \<or> c = [] then Inr None else rbind (project_task d c) (\<lambda>t. Inr (Some t))
      | _ \<Rightarrow> Inr None)"

lemma sync_task_effect:
  assumes "sync_task aid old new ct st = Inr st'"
  obtains t where "new_task new ct = Inr t" "vertices st' = vertices st"
    "tasks st' = (case t of None \<Rightarrow> AList.delete aid (tasks st) | Some t \<Rightarrow> AList.update aid t (tasks st))"
    "\<forall>n. counter st' n = counter st n - of_bool (old_name old = Some n) + of_bool (row_name t = Some n)"
proof -
  define st1 where "st1 = (if doc_status old \<noteq> [] \<and> (case old of None \<Rightarrow> [] | Some d \<Rightarrow> dtext d ''content_type'') \<noteq> []
     then bump (c_task_status (case old of None \<Rightarrow> [] | Some d \<Rightarrow> dtext d ''content_type'') (doc_status old)) (- 1) st else st)"
  have c1: "counter st1 n = counter st n - of_bool (old_name old = Some n)" for n
    by (auto simp: st1_def old_name_def doc_status_def split: option.splits)
  have s1: "vertices st1 = vertices st" "tasks st1 = tasks st" by (simp_all add: st1_def)
  consider (off) "new_task new ct = Inr None" "st' = st1\<lparr> tasks := AList.delete aid (tasks st1) \<rparr>"
    | (on) d c t where "new = Some d" "ct = Some c" "dtext d ''status'' \<noteq> []" "c \<noteq> []" "project_task d c = Inr t"
        "st' = (bump (c_task_status c (dtext d ''status'')) 1 st1)\<lparr> tasks := AList.update aid t (tasks st1) \<rparr>"
    using assms unfolding sync_task_def Let_def st1_def [symmetric] new_task_def
    by (cases new; cases ct) (auto simp: doc_status_def project_task_def rbind_eq_Inr split: if_splits)
  then show ?thesis
  proof cases
    case off
    show ?thesis by (rule that [OF off(1)]) (simp_all add: off(2) c1 s1 row_name_def)
  next
    case on
    have t: "t_ct t = c" "t_status t = dtext d ''status''" using on(5) by (auto simp: project_task_def rbind_eq_Inr)
    show ?thesis
      by (rule that [of "Some t"]) (use on t in \<open>auto simp: new_task_def c1 s1 row_name_def\<close>)
  qed
qed

text \<open>One vertex, its row in the sidecar and the two counters it moves.\<close>

lemma pool_update:
  assumes ok: "pool_ok st"
    and v: "vertices st' = AList.update aid r (vertices st)"
    and t: "tasks st' = (case task_of r of None \<Rightarrow> AList.delete aid (tasks st) | Some t \<Rightarrow> AList.update aid t (tasks st))"
    and ty: "typed_row r" "projects r"
    and c: "\<And>n. counter st' n = counter st n - of_bool (row_name (map_of (tasks st) aid) = Some n) + of_bool (row_name (task_of r) = Some n) + other n"
    and o: "\<And>ct x. other (c_task_status ct x) = (0 :: int)"
  shows "pool_ok st'"
proof -
  let ?f = "\<lambda>n (_ :: string) t. of_bool (c_task_status (t_ct t) (t_status t) = n) :: int"
  have d: "distinct (map fst (tasks st))" using ok by (simp add: pool_ok_def)
  have "depth st' n = depth st n - of_bool (row_name (map_of (tasks st) aid) = Some n) + of_bool (row_name (task_of r) = Some n)" for n
  proof (cases "task_of r")
    case None
    show ?thesis
    proof (cases "map_of (tasks st) aid")
      case none: None
      moreover from none have "AList.delete aid (tasks st) = tasks st" by (simp add: delete_id map_of_eq_None_iff)
      ultimately show ?thesis by (simp add: depth_def t None row_name_def)
    next
      case (Some u)
      then show ?thesis by (simp add: depth_def t None row_name_def cnt.total_delete [OF d Some])
    qed
  next
    case (Some u)
    then show ?thesis by (simp add: depth_def t row_name_def cnt.total_update split: option.splits)
  qed
  moreover have "distinct (map fst (tasks st'))"
    using d by (auto simp: t distinct_update distinct_delete split: option.splits)
  moreover have "map_of (tasks st') a = Option.bind (map_of (vertices st') a) task_of" for a
  proof -
    have "map_of (tasks st) a = Option.bind (map_of (vertices st) a) task_of" using ok by (simp add: pool_ok_def)
    then show ?thesis by (cases "task_of r") (auto simp: t v update_conv' delete_conv')
  qed
  moreover have "typed_row q \<and> projects q" if "map_of (vertices st') a = Some q" for a q
    using that ok ty by (auto simp: v update_conv' pool_ok_def split: if_splits)
  ultimately show ?thesis using ok c o by (simp add: pool_ok_def)
qed

lemma pool_row_name:
  assumes "pool_ok st"
  shows "row_name (map_of (tasks st) aid) = old_name (map_option v_doc (map_of (vertices st) aid))"
proof (cases "map_of (vertices st) aid")
  case None
  with assms show ?thesis by (simp add: pool_ok_def row_name_def old_name_def)
next
  case (Some r)
  with assms have "map_of (tasks st) aid = task_of r" "typed_row r" "projects r" by (simp_all add: pool_ok_def)
  with Some show ?thesis
    by (cases "v_ct r") (auto simp: row_name_def old_name_def task_of_def typed_row_def projects_def dtext_def
        opt_val_def project_task_def rbind_eq_Inr split: sum.splits)
qed

definition typed_doc :: "doc \<Rightarrow> bool" where
  "typed_doc d = (case dget d ''content_type'' of PNone \<Rightarrow> True | PStr _ \<Rightarrow> True | _ \<Rightarrow> False)"

lemma typed_bind: "typed_doc d \<Longrightarrow> bind_col (dget d ''content_type'') = Inr ct \<Longrightarrow> dget d ''content_type'' = opt_val ct"
  by (auto simp: typed_doc_def bind_col_def opt_val_def split: pyval.splits)

lemma write_row_pool:
  assumes ok: "pool_ok st" and ty: "typed_doc doc" and w: "write_row H doc origin n st = Inr (d, st')"
  shows "pool_ok st'"
proof -
  define aid where "aid = dtext doc ''id''"
  define prev where "prev = map_of (vertices st) aid"
  define pdoc where "pdoc = map_option v_doc prev"
  from w obtain row st1 where
    row: "vertex_row prev d origin n (leaf_of H aid (st_leaves st)) = Inr row"
    and s1: "sync_task aid pdoc (Some d) (v_ct row)
       (recount pdoc d (case prev of None \<Rightarrow> None | Some r \<Rightarrow> v_ct r) (v_ct row) (upsert_vertex H aid row st)) = Inr st1"
    and pl: "place H d (index_lists aid (Some d) (v_ct row) (prev \<noteq> None) st1) = Inr st'"
    and d: "d = stored_doc pdoc doc origin n"
    unfolding write_row_def Let_def aid_def [symmetric] prev_def [symmetric] pdoc_def [symmetric]
    by (auto simp: rbind_eq_Inr)
  define st0 where "st0 = recount pdoc d (case prev of None \<Rightarrow> None | Some r \<Rightarrow> v_ct r) (v_ct row) (upsert_vertex H aid row st)"
  have same0: "same_pool (row_core H aid row st) st0"
    using same_pool_deltas [of "row_core H aid row st"] unfolding st0_def recount_def row_core_def pdoc_def prev_def by simp
  have core: "vertices (row_core H aid row st) = AList.update aid row (vertices st)" "tasks (row_core H aid row st) = tasks st"
    "counter (row_core H aid row st) (c_task_status ct x) = counter st (c_task_status ct x)" for ct x
    by (simp add: row_core_vertices) (auto simp: row_core_def upsert_vertex_def Let_def split: option.splits)
  note fields = vertex_row_fields [OF row]
  from sync_task_effect [OF s1 [folded st0_def]] obtain t where
    t: "new_task (Some d) (v_ct row) = Inr t" "vertices st1 = vertices st0"
      "tasks st1 = (case t of None \<Rightarrow> AList.delete aid (tasks st0) | Some t \<Rightarrow> AList.update aid t (tasks st0))"
    and c: "\<forall>n. counter st1 n = counter st0 n - of_bool (old_name pdoc = Some n) + of_bool (row_name t = Some n)" .
  have typed: "typed_row row"
  proof -
    have "dget d ''content_type'' = dget doc ''content_type''"
      unfolding d by (rule dget_stored_doc) (simp add: TIME_CLAIM_KEY_def)
    with ty have "typed_doc d" by (simp add: typed_doc_def)
    moreover have "bind_col (dget d ''content_type'') = Inr (v_ct row)" using row by (auto simp: vertex_row_def rbind_eq_Inr)
    ultimately show ?thesis using typed_bind fields by (simp add: typed_row_def)
  qed
  have tt: "task_of row = t" "projects row"
    using t(1) fields by (auto simp: task_of_def new_task_def projects_def rbind_eq_Inr split: option.splits if_splits)
  have "pool_ok st1"
  proof (rule pool_update [OF ok, where r = row and aid = aid and other = "\<lambda>n. counter st0 n - counter st n"])
    show "vertices st1 = AList.update aid row (vertices st)" using t(2) same0 core by (simp add: same_pool_def)
    show "tasks st1 = (case task_of row of None \<Rightarrow> AList.delete aid (tasks st) | Some t \<Rightarrow> AList.update aid t (tasks st))"
      using t(3) same0 core(2) unfolding same_pool_def tt by metis
    show "counter st1 n = counter st n - of_bool (row_name (map_of (tasks st) aid) = Some n) + of_bool (row_name (task_of row) = Some n)
      + (counter st0 n - counter st n)" for n
      using c pool_row_name [OF ok, of aid] by (simp add: tt pdoc_def prev_def)
    show "counter st0 (c_task_status ct x) - counter st (c_task_status ct x) = 0" for ct x
      using same0 core by (simp add: same_pool_def)
  qed (use typed tt in auto)
  moreover have "same_pool st1 (index_lists aid (Some d) (v_ct row) (prev \<noteq> None) st1)" by (simp add: same_pool_def)
  ultimately show ?thesis using same_pool_ok same_pool_trans same_pool_place [OF pl] by blast
qed

section \<open>The transitions\<close>

lemma project_task_iff:
  "project_task d c = Inr t \<longleftrightarrow> t_ct t = c \<and> t_status t = dtext d ''status''
     \<and> py_int (py_or (dget d ''priority'') (PInt 0)) = Inr (t_priority t)
     \<and> bind_text (dget d ''operator'') = Inr (t_operator t) \<and> bind_text (dget d ''task_key'') = Inr (t_task_key t)
     \<and> bind_text (dget d ''claimed_by'') = Inr (t_claimed_by t) \<and> bind_text (dget d ''claimed_at'') = Inr (t_claimed_at t)
     \<and> bind_text (dget d ''next_retry_at'') = Inr (t_next_retry_at t) \<and> bind_text (dget d ''completed_at'') = Inr (t_completed_at t)"
  by (cases t) (auto simp: project_task_def rbind_eq_Inr)

lemma dget_doc_update:
  "dget (doc_update new d) k = (case map_of (rev new) k of None \<Rightarrow> dget d k | Some v \<Rightarrow> v)"
  unfolding doc_update_def
proof (induction new arbitrary: d)
  case (Cons p new)
  obtain k' v where "p = (k', v)" by (cases p)
  with Cons show ?case by (auto simp: map_add_def split: option.splits)
qed simp

lemma patch_pool:
  assumes ok: "pool_ok st" and t: "map_of (tasks st) tid = Some t"
    and same: "t_ct t' = t_ct t" "dget (doc_update new []) ''content_type'' = PNone" "\<forall>v. (''content_type'', v) \<notin> set new"
    and upd: "\<And>d. project_task d (t_ct t) = Inr t \<Longrightarrow> project_task (doc_update new d) (t_ct t) = Inr t' \<and> t_status t' \<noteq> []"
  shows "pool_ok (move_depth (t_ct t) (t_status t) (t_status t') (patch_doc tid new (set_task tid t' st)))"
    and "t_status t' = t_status t \<Longrightarrow> pool_ok (patch_doc tid new (set_task tid t' st))"
proof -
  from ok t obtain r where r: "map_of (vertices st) tid = Some r" "task_of r = Some t" "typed_row r"
    by (auto simp: pool_ok_def Option.bind_eq_Some_conv)
  then have p: "v_ct r = Some (t_ct t)" "t_ct t \<noteq> []" "project_task (v_doc r) (t_ct t) = Inr t"
    by (auto simp: task_of_def project_task_def rbind_eq_Inr split: option.splits if_splits sum.splits)
  define d where "d = doc_update new (v_doc r)"
  define q where "q = r\<lparr> v_doc := d \<rparr>"
  from upd [OF p(3)] have d: "project_task d (t_ct t) = Inr t'" "t_status t' \<noteq> []" by (simp_all add: d_def)
  then have "t_status t' = dtext d ''status''" by (auto simp: project_task_def rbind_eq_Inr)
  with d p have q: "task_of q = Some t'" "projects q" by (auto simp: q_def task_of_def projects_def)
  have "map_of (rev new) ''content_type'' = None" using same(3) by (auto simp: map_of_eq_None_iff)
  then have "typed_row q" using r(3) by (simp add: q_def typed_row_def d_def dget_doc_update)
  let ?s = "patch_doc tid new (set_task tid t' st)"
  have s: "vertices ?s = AList.update tid q (vertices st)" "tasks ?s = AList.update tid t' (tasks st)" "counter ?s = counter st"
    by (simp_all add: patch_doc_def set_task_def r(1) Let_def q_def d_def)
  show "pool_ok (move_depth (t_ct t) (t_status t) (t_status t') ?s)"
    by (rule pool_update [OF ok, where r = q and aid = tid and other = "\<lambda>_. 0"])
      (use q \<open>typed_row q\<close> same(1) in \<open>auto simp: move_depth_def s t row_name_def\<close>)
  assume "t_status t' = t_status t"
  then show "pool_ok ?s"
    by (intro pool_update [OF ok, where r = q and aid = tid and other = "\<lambda>_. 0"])
      (use q \<open>typed_row q\<close> same(1) in \<open>auto simp: s t row_name_def\<close>)
qed

lemma try_claim_pool: "pool_ok st \<Longrightarrow> pool_ok (snd (try_claim tid worker now st))"
proof (cases "map_of (tasks st) tid")
  case (Some t)
  assume ok: "pool_ok st"
  show ?thesis
  proof (cases "t_status t = ''pending''")
    case True
    let ?t = "t\<lparr> t_status := ''claimed'', t_claimed_by := PStr worker, t_claimed_at := PStr now \<rparr>"
    let ?new = "[(''status'', PStr ''claimed''), (''claimed_by'', PStr worker), (''claimed_at'', PStr now)]"
    have "pool_ok (move_depth (t_ct t) (t_status t) (t_status ?t) (patch_doc tid ?new (set_task tid ?t st)))"
      by (rule patch_pool(1) [OF ok Some]) (auto simp: project_task_iff doc_update_def dtext_def dget_def [of "[]"])
    with Some True show ?thesis by (simp add: try_claim_def Let_def)
  qed (use ok Some in \<open>simp add: try_claim_def\<close>)
qed (simp add: try_claim_def)

lemma renew_lease_pool: "pool_ok st \<Longrightarrow> pool_ok (snd (renew_lease tid now st))"
proof (cases "map_of (tasks st) tid")
  case (Some t)
  assume ok: "pool_ok st"
  show ?thesis
  proof (cases "t_status t = ''claimed''")
    case True
    let ?t = "t\<lparr> t_claimed_at := PStr now \<rparr>"
    have "pool_ok (patch_doc tid [(''claimed_at'', PStr now)] (set_task tid ?t st))"
      by (rule patch_pool(2) [OF ok Some]) (use True in \<open>auto simp: project_task_iff doc_update_def dtext_def dget_def [of "[]"]\<close>)
    with Some True show ?thesis by (simp add: renew_lease_def)
  qed (use ok Some in \<open>simp add: renew_lease_def\<close>)
qed (simp add: renew_lease_def)

lemma bind_opt [simp]: "bind_text (opt_val x) = Inr (opt_val x)"
  by (cases x) (simp_all add: opt_val_def)

lemma release_pool:
  assumes ok: "pool_ok st" and s: "to_status \<noteq> []"
  shows "pool_ok (snd (release tid to_status retry st))"
proof (cases "map_of (tasks st) tid")
  case (Some t)
  show ?thesis
  proof (cases "t_status t = ''claimed''")
    case True
    let ?t = "t\<lparr> t_status := to_status, t_claimed_by := PNone, t_next_retry_at := opt_val retry \<rparr>"
    let ?new = "[(''status'', PStr to_status), (''claimed_by'', PNone), (''next_retry_at'', opt_val retry)]"
    have "pool_ok (move_depth (t_ct t) (t_status t) (t_status ?t) (patch_doc tid ?new (set_task tid ?t st)))"
      by (rule patch_pool(1) [OF ok Some]) (use s in \<open>auto simp: project_task_iff doc_update_def dtext_def dget_def [of "[]"]\<close>)
    with Some True show ?thesis by (simp add: release_def Let_def)
  qed (use ok Some in \<open>simp add: release_def\<close>)
qed (use ok in \<open>simp add: release_def\<close>)

text \<open>The fields that a column of the sidecar projects; \<open>settle\<close>'s extra fields are the others.\<close>

definition PROJECTED :: "string list" where
  "PROJECTED = [''content_type'', ''status'', ''priority'', ''operator'', ''task_key'', ''claimed_by'', ''claimed_at'',
     ''next_retry_at'', ''completed_at'']"

definition doc_only :: "doc \<Rightarrow> bool" where
  "doc_only extra = (distinct (map fst extra) \<and> list_all (\<lambda>(k, _). k \<notin> set PROJECTED) extra)"

lemma distinct_doc_update: "distinct (map fst d) \<Longrightarrow> distinct (map fst (doc_update new d))"
  unfolding doc_update_def
  by (induction new arbitrary: d) (auto simp: dset_def distinct_update)

lemma keys_doc_update: "fst ` set (doc_update new d) = fst ` set new \<union> fst ` set d"
  unfolding doc_update_def
proof (induction new arbitrary: d)
  case (Cons p new)
  obtain k v where "p = (k, v)" by (cases p)
  with Cons show ?case by (simp add: dset_def dom_update)
qed simp

lemma settle_patch:
  fixes s :: string and a b v :: pyval
  assumes "doc_only extra"
  defines "patch \<equiv> doc_update [(''status'', PStr s), (''claimed_by'', PNone), (''next_retry_at'', a), (''completed_at'', b)] extra"
  shows "dget (doc_update patch d) ''status'' = PStr s" "dget (doc_update patch d) ''claimed_by'' = PNone"
    "dget (doc_update patch d) ''next_retry_at'' = a" "dget (doc_update patch d) ''completed_at'' = b"
    "k \<in> {''content_type'', ''priority'', ''operator'', ''task_key'', ''claimed_at''} \<Longrightarrow> dget (doc_update patch d) k = dget d k"
    "(''content_type'', v) \<notin> set patch"
proof -
  have dist: "distinct (map fst patch)" using assms(1) by (simp add: doc_only_def patch_def distinct_doc_update)
  then have ro: "map_of (rev patch) k = map_of patch k" for k
    by (metis map_of_inject_set distinct_rev rev_map set_rev)
  have val: "map_of patch k = Some (dget patch k)" if "k \<in> fst ` set patch" for k
    using that by (cases "map_of patch k") (simp_all add: dget_def map_of_eq_None_iff)
  have keys: "fst ` set patch = {''status'', ''claimed_by'', ''next_retry_at'', ''completed_at''} \<union> fst ` set extra"
    by (auto simp: patch_def keys_doc_update)
  have four: "dget (doc_update patch d) k = dget patch k" if "k \<in> {''status'', ''claimed_by'', ''next_retry_at'', ''completed_at''}" for k
  proof -
    have "k \<in> fst ` set patch" using that unfolding keys by (rule UnI1)
    from val [OF this] show ?thesis by (simp add: dget_doc_update ro)
  qed
  have p: "dget patch ''status'' = PStr s" "dget patch ''claimed_by'' = PNone" "dget patch ''next_retry_at'' = a" "dget patch ''completed_at'' = b"
    by (simp_all add: patch_def doc_update_def)
  with four show "dget (doc_update patch d) ''status'' = PStr s" "dget (doc_update patch d) ''claimed_by'' = PNone"
    "dget (doc_update patch d) ''next_retry_at'' = a" "dget (doc_update patch d) ''completed_at'' = b" by simp_all
  have out: "k \<notin> fst ` set patch" if "k \<in> {''content_type'', ''priority'', ''operator'', ''task_key'', ''claimed_at''}" for k
  proof -
    have "k \<in> set PROJECTED" using that by (elim insertE) (simp_all add: PROJECTED_def)
    moreover have "fst ` set extra \<inter> set PROJECTED = {}" using assms(1) by (fastforce simp: doc_only_def list_all_iff)
    moreover have "k \<notin> {''status'', ''claimed_by'', ''next_retry_at'', ''completed_at''}" using that by (elim insertE) simp_all
    ultimately show ?thesis unfolding keys by blast
  qed
  then show "k \<in> {''content_type'', ''priority'', ''operator'', ''task_key'', ''claimed_at''} \<Longrightarrow> dget (doc_update patch d) k = dget d k"
    by (simp only: dget_doc_update ro) (simp add: map_of_eq_None_iff [THEN iffD2])
  show "(''content_type'', v) \<notin> set patch" using out [of "''content_type''"] by force
qed

lemma settle_pool:
  assumes ok: "pool_ok st" and s: "to_status \<noteq> []" and e: "doc_only extra"
  shows "pool_ok (snd (settle_task tid worker to_status retry completed extra st))"
proof (cases "map_of (tasks st) tid")
  case (Some t)
  show ?thesis
  proof (cases "t_status t = ''claimed'' \<and> t_claimed_by t = PStr worker")
    case True
    let ?t = "t\<lparr> t_status := to_status, t_claimed_by := PNone, t_next_retry_at := opt_val retry, t_completed_at := opt_val completed \<rparr>"
    let ?new = "doc_update [(''status'', PStr to_status), (''claimed_by'', PNone), (''next_retry_at'', opt_val retry),
      (''completed_at'', opt_val completed)] extra"
    have "dget (doc_update ?new []) ''content_type'' = PNone" using settle_patch(5) [OF e] by (simp add: dget_def [of "[]"])
    then have "pool_ok (move_depth (t_ct t) (t_status t) (t_status ?t) (patch_doc tid ?new (set_task tid ?t st)))"
      by (rule patch_pool(1) [OF ok Some, rotated])
        (use s settle_patch [OF e] in \<open>auto simp: project_task_iff dtext_def\<close>)
    with Some True show ?thesis by (simp add: settle_task_def Let_def)
  qed (use ok Some in \<open>auto simp: settle_task_def\<close>)
qed (use ok in \<open>simp add: settle_task_def\<close>)

section \<open>Puts and deletes\<close>

lemma snapshot_pool:
  assumes ok: "pool_ok st" and m: "map_of (vertices st) aid = Some prev" and s: "snapshot_prior H aid prev st = Inr (sid, st')"
  shows "pool_ok st'"
proof -
  have ty: "typed_row prev" using ok m by (auto simp: pool_ok_def)
  from s consider "st' = st" | snap origin n st1 d where
      "version_for snap True st = Inr ((origin, n), st1)" "write_row H snap origin n st1 = Inr (d, st')"
      "dget snap ''content_type'' = dget (v_doc prev) ''content_type''"
    by (auto simp: snapshot_prior_def Let_def rbind_eq_Inr split: if_splits)
  then show ?thesis
  proof cases
    case 2
    then have "same_pool st st1" by (auto simp: version_for_def st_allocate_def Let_def same_pool_def)
    with ok have "pool_ok st1" using same_pool_ok by blast
    moreover have "typed_doc snap" using ty 2(3) by (cases "v_ct prev") (simp_all add: typed_doc_def typed_row_def opt_val_def)
    ultimately show ?thesis using write_row_pool 2(2) by blast
  qed (use ok in simp)
qed

lemma put_artifact_pool:
  assumes ok: "pool_ok st" and ty: "typed_doc doc" and p: "put_artifact H doc stamp_rev new_version st = Inr (d, st')"
  shows "pool_ok st'"
proof -
  from p obtain doc1 st1 origin n st2 where
    cv: "cut_version H doc stamp_rev new_version st = Inr (doc1, st1)"
    and v: "version_for doc1 stamp_rev st1 = Inr ((origin, n), st2)"
    and w: "write_row H doc1 origin n (if stamp_rev then st2 else st_observe origin n st2) = Inr (d, st')"
    by (auto simp: put_artifact_def rbind_eq_Inr split: if_split_asm)
  from cv consider "doc1 = doc" "st1 = st"
    | prev sid u where "map_of (vertices st) (dtext doc ''id'') = Some prev"
        "snapshot_prior H (dtext doc ''id'') prev st = Inr (sid, st1)" "doc1 = dset ''parent_id'' u doc"
  proof (cases "map_of (vertices st) (dtext doc ''id'')")
    case None
    with cv that(1) show thesis by (simp add: cut_version_def split: if_split_asm)
  next
    case (Some prev)
    show thesis
    proof (cases "doc1 = doc \<and> st1 = st")
      case False
      with cv Some obtain sid u where "snapshot_prior H (dtext doc ''id'') prev st = Inr (sid, st1)" "doc1 = dset ''parent_id'' u doc"
        unfolding cut_version_def Some option.case by (simp only: split: if_split_asm) (force simp: rbind_eq_Inr)+
      with Some that(2) show thesis by blast
    qed (use that(1) in blast)
  qed
  then have "pool_ok st1 \<and> typed_doc doc1"
  proof cases
    case 2
    with snapshot_pool [OF ok 2(1,2)] ty show ?thesis by (simp add: typed_doc_def)
  qed (use ok ty in simp)
  moreover have "same_pool st1 (if stamp_rev then st2 else st_observe origin n st2)"
    using v by (auto simp: version_for_def st_allocate_def st_observe_def Let_def same_pool_def split: if_splits pyval.splits)
  ultimately show ?thesis using write_row_pool w same_pool_ok by blast
qed

lemma same_pool_retire: "retire_edge_row H key l r st = (b, st') \<Longrightarrow> same_pool st st'"
  by (auto simp: retire_edge_row_def Let_def same_pool_def split: if_splits)

lemma same_pool_retire_rows: "retire_rows H rows (g, st) = (g', st') \<Longrightarrow> same_pool st st'"
proof (induction rows arbitrary: g st)
  case (Cons p rows)
  obtain k r where p: "p = (k, r)" by (cases p)
  obtain b s1 where s1: "retire_edge_row H k (e_label r) r st = (b, s1)" by fastforce
  from Cons.prems have "retire_rows H rows (if b then Suc g else g, s1) = (g', st')" by (simp add: retire_rows_def p s1)
  from same_pool_trans [OF same_pool_retire [OF s1] Cons.IH [OF this]] show ?case .
qed (simp add: retire_rows_def)

lemma delete_pool:
  assumes ok: "pool_ok st" and d: "delete_artifact_full H aid accounted st = Inr st'"
  shows "pool_ok st'"
proof (cases "map_of (vertices st) aid")
  case None
  with d have "same_pool st st'" by (auto simp: delete_artifact_full_def same_pool_def)
  with ok show ?thesis using same_pool_ok by blast
next
  case (Some r)
  define s0 where "s0 = st\<lparr> vertices := AList.delete aid (vertices st) \<rparr>"
  define s1 where "s1 = (if accounted then snd (retire_edges_touching H aid s0) else s0)"
  define s2 where "s2 = bump c_vertex_total (- 1) (xor_leaf (v_leaf r) (row_hash H aid (v_seq r)) s1)"
  define s3 where "s3 = bump_all (counter_deltas (Some (v_doc r)) None (v_ct r) None) (if accounted then vacate (v_origin r) s2 else s2)"
  have "same_pool s0 s1"
  proof (cases accounted)
    case True
    let ?rows = "filter (\<lambda>(_, r). e_src r = aid \<or> e_dst r = aid) (edges s0)"
    obtain g t where "retire_rows H ?rows (0, s0) = (g, t)" by fastforce
    from this same_pool_retire_rows [OF this] True show ?thesis by (simp add: s1_def retire_edges_touching_rows)
  qed (simp add: s1_def)
  also have "same_pool s1 s2" by (simp add: s2_def same_pool_def)
  also have "same_pool s2 (if accounted then vacate (v_origin r) s2 else s2)" by (simp add: same_pool_def)
  also have "same_pool (if accounted then vacate (v_origin r) s2 else s2) s3" unfolding s3_def by (rule same_pool_deltas)
  finally have s3: "vertices s3 = AList.delete aid (vertices st)" "tasks s3 = tasks st"
    "\<And>ct x. counter s3 (c_task_status ct x) = counter st (c_task_status ct x)"
    by (simp_all add: same_pool_def s0_def)
  from d obtain s4 where s4: "sync_task aid (Some (v_doc r)) None (v_ct r) s3 = Inr s4"
    and st': "same_pool s4 st'"
    unfolding delete_artifact_full_def Some option.case Let_def s0_def [symmetric] s1_def [symmetric] s2_def [symmetric]
      s3_def [symmetric]
    by (simp only: rbind_eq_Inr) (fastforce simp: same_pool_def)
  from sync_task_effect [OF s4] obtain t where t: "new_task None (v_ct r) = Inr t" "vertices s4 = vertices s3"
    "tasks s4 = (case t of None \<Rightarrow> AList.delete aid (tasks s3) | Some t \<Rightarrow> AList.update aid t (tasks s3))"
    "\<forall>n. counter s4 n = counter s3 n - of_bool (old_name (Some (v_doc r)) = Some n) + of_bool (row_name t = Some n)" .
  then have tn: "t = None" by (simp add: new_task_def)
  have dist: "distinct (map fst (tasks st))" using ok by (simp add: pool_ok_def)
  have "depth s4 n = depth st n - of_bool (row_name (map_of (tasks st) aid) = Some n)" for n
  proof (cases "map_of (tasks st) aid")
    case None
    then have "AList.delete aid (tasks st) = tasks st" by (simp add: delete_id map_of_eq_None_iff)
    with None show ?thesis by (simp add: depth_def t tn s3 row_name_def)
  next
    case (Some u)
    then show ?thesis by (simp add: depth_def t tn s3 row_name_def cnt.total_delete [OF dist Some])
  qed
  with pool_row_name [OF ok, of aid] Some ok t tn s3 have "pool_ok s4"
    by (auto simp: pool_ok_def distinct_delete delete_conv' row_name_def [of None])
  with st' show ?thesis using same_pool_ok by blast
qed

lemma put_one_pool:
  assumes ok: "pool_ok st" and ty: "typed_doc doc" and p: "put_one H doc stamp_rev pol st = Inr st'"
  shows "pool_ok st'"
proof -
  from p obtain origin n st1 where v: "version_for doc stamp_rev st = Inr ((origin, n), st1)"
    by (auto simp: put_one_def Let_def split: if_splits sum.splits)
  let ?st1 = "if stamp_rev then st1 else st_observe origin n st1"
  have s1: "same_pool st ?st1"
    using v by (auto simp: version_for_def st_allocate_def st_observe_def Let_def same_pool_def split: if_splits pyval.splits)
  from p v consider (w) d where "write_row H doc origin n ?st1 = Inr (d, st')"
    | (keep) "st' = ?st1 \<or> st' = bump ''conflict:unordered'' 1 ?st1"
    by (auto simp: put_one_def Let_def split: if_splits sum.splits version_order.splits unordered_policy.splits)
  then show ?thesis
  proof cases
    case w
    with write_row_pool ty s1 ok same_pool_ok show ?thesis by blast
  next
    case keep
    then have "same_pool ?st1 st'"
      by (elim disjE) (simp_all only: same_pool_refl, simp add: same_pool_def)
    from same_pool_ok [OF same_pool_trans [OF s1 this]] ok show ?thesis by simp
  qed
qed

lemma put_chunk_loop_pool:
  "pool_ok st \<Longrightarrow> list_all typed_doc ds \<Longrightarrow> put_chunk_loop H stamp_rev pol ds h k l st = (h', k', l', st') \<Longrightarrow> pool_ok st'"
proof (induction ds arbitrary: h k l st)
  case (Cons d ds)
  show ?case
  proof (cases "put_one H d stamp_rev pol st")
    case (Inl e)
    with Cons show ?thesis by (cases e) auto
  next
    case (Inr s)
    from put_one_pool [OF Cons.prems(1) _ Inr] Cons.prems(2) have "pool_ok s" by simp
    with Cons.IH [of s] Cons.prems Inr show ?thesis by simp
  qed
qed simp

lemma put_chunks_pool:
  "pool_ok st \<Longrightarrow> list_all typed_doc (concat cs) \<Longrightarrow> put_chunks H stamp_rev pol cs st = (r, st') \<Longrightarrow> pool_ok st'"
proof (induction cs arbitrary: st r)
  case (Cons c cs)
  show ?case
  proof (cases "put_chunk H stamp_rev pol c st")
    case (Inl e)
    with Cons.prems show ?thesis by auto
  next
    case (Inr p)
    then obtain h s k l where p: "p = (h, s)" "put_chunk_loop H stamp_rev pol c 0 False False st = (h, k, l, s)"
      by (auto simp: put_chunk_def split: if_splits prod.splits)
    from put_chunk_loop_pool [OF Cons.prems(1) _ p(2)] Cons.prems(2) have "pool_ok s" by simp
    with Cons.IH [of s] Cons.prems Inr p show ?thesis by (auto split: prod.splits sum.splits)
  qed
qed simp

lemma same_pool_add_one: "add_one H e stamp_rev st = Inr st' \<Longrightarrow> same_pool st st'"
proof -
  obtain src dst label props where e: "e = (src, dst, label, props)" by (cases e)
  assume a: "add_one H e stamp_rev st = Inr st'"
  have seq: "same_pool st (st\<lparr> seq_counter := q \<rparr>)" for q by (simp add: same_pool_def)
  have via: "same_pool st st'" if "write_edge H src dst label props origin n (st\<lparr> seq_counter := q \<rparr>) = Inr st'" for origin n q
    using same_pool_trans [OF seq same_pool_write_edge [OF that]] .
  from a show ?thesis
    unfolding e add_one_def
    by (auto simp: st_allocate_def st_observe_def Let_def same_pool_def [of st "bump _ _ _"] seq dest: via
        split: if_splits sum.splits pyval.splits version_order.splits)
qed

lemma same_pool_add_chunk_loop:
  "add_chunk_loop H stamp_rev es h k l st = (h', k', l', st') \<Longrightarrow> same_pool st st'"
proof (induction es arbitrary: h k l st)
  case (Cons e es)
  show ?case
  proof (cases "add_one H e stamp_rev st")
    case (Inl x)
    with Cons show ?thesis by (cases x) auto
  next
    case (Inr s)
    with Cons have "same_pool s st'" by simp
    with same_pool_add_one [OF Inr] show ?thesis by (rule same_pool_trans)
  qed
qed simp

lemma same_pool_add_chunks: "add_chunks H stamp_rev cs st = (r, st') \<Longrightarrow> same_pool st st'"
proof (induction cs arbitrary: st r)
  case (Cons c cs)
  show ?case
  proof (cases "add_chunk H stamp_rev c st")
    case (Inr p)
    then obtain h s k l where p: "p = (h, s)" "add_chunk_loop H stamp_rev c 0 False False st = (h, k, l, s)"
      by (auto simp: add_chunk_def split: if_splits prod.splits)
    with Cons Inr have "same_pool s st'" by (auto split: prod.splits sum.splits)
    with same_pool_add_chunk_loop [OF p(2)] show ?thesis by (rule same_pool_trans)
  qed (use Cons.prems in auto)
qed simp

section \<open>The pool as a state machine\<close>

text \<open>What anyone may do to the pool: the four transitions, and the store writes that rewrite documents.\<close>

datatype pool_op =
    Claim string string string
  | Renew string string
  | Release string string "string option"
  | Settle string string string "string option" "string option" doc

fun pool_step :: "pool_op \<Rightarrow> lattice \<Rightarrow> bool \<times> lattice" where
  "pool_step (Claim tid worker now) st = try_claim tid worker now st"
| "pool_step (Renew tid now) st = renew_lease tid now st"
| "pool_step (Release tid to_status retry) st = release tid to_status retry st"
| "pool_step (Settle tid worker to_status retry completed extra) st = settle_task tid worker to_status retry completed extra st"

fun op_ok :: "pool_op \<Rightarrow> bool" where
  "op_ok (Release tid to_status retry) = (to_status \<noteq> [])"
| "op_ok (Settle tid worker to_status retry completed extra) = (to_status \<noteq> [] \<and> doc_only extra)"
| "op_ok _ = True"

inductive pool_reach :: "hashlib \<Rightarrow> lattice \<Rightarrow> bool" for H where
  pool_init: "pool_reach H (empty_lattice origin leaves)"
| pool_put: "pool_reach H st \<Longrightarrow> typed_doc doc \<Longrightarrow> put_artifact H doc stamp_rev new_version st = Inr (d, st') \<Longrightarrow> pool_reach H st'"
| pool_put_many: "pool_reach H st \<Longrightarrow> list_all typed_doc docs \<Longrightarrow> put_many H docs batch stamp_rev pol st = (r, st') \<Longrightarrow> pool_reach H st'"
| pool_edges: "pool_reach H st \<Longrightarrow> add_edges H batch stamp_rev es st = (r, st') \<Longrightarrow> pool_reach H st'"
| pool_delete: "pool_reach H st \<Longrightarrow> delete_artifact_full H aid accounted st = Inr st' \<Longrightarrow> pool_reach H st'"
| pool_move: "pool_reach H st \<Longrightarrow> op_ok p \<Longrightarrow> pool_step p st = (b, st') \<Longrightarrow> pool_reach H st'"

inductive_cases pool_reach_cases: "pool_reach H st"

lemma pool_empty: "pool_ok (empty_lattice origin leaves)"
  by (simp add: pool_ok_def depth_def empty_lattice_def)

lemma pool_step_pool: "pool_ok st \<Longrightarrow> op_ok p \<Longrightarrow> pool_ok (snd (pool_step p st))"
  by (cases p) (simp_all add: try_claim_pool renew_lease_pool release_pool settle_pool)

lemma pool_invariant: "pool_reach H st \<Longrightarrow> pool_ok st"
proof (induction rule: pool_reach.induct)
  case (pool_put_many st docs batch stamp_rev pol r st')
  then show ?case using put_chunks_pool [of st "chunks (batch - 1) docs"] by (simp add: put_many_def)
next
  case (pool_edges st batch stamp_rev es r st')
  then show ?case using same_pool_add_chunks same_pool_ok unfolding add_edges_def by blast
next
  case (pool_move st p b st')
  then show ?case using pool_step_pool [of st p] by simp
qed (use pool_empty put_artifact_pool delete_pool in blast)+

definition run_pool :: "pool_op list \<Rightarrow> lattice \<Rightarrow> lattice" where
  "run_pool ps st = fold (\<lambda>p st. snd (pool_step p st)) ps st"

definition holder :: "lattice \<Rightarrow> string \<Rightarrow> string option" where
  "holder st tid =
     (case map_of (tasks st) tid of
        None \<Rightarrow> None
      | Some t \<Rightarrow> if t_status t = ''claimed'' then as_opt_text (t_claimed_by t) else None)"

text \<open>The two ways out of a claim: a third party's release, or the settlement of its holder.\<close>

fun ends_claim :: "string \<Rightarrow> string \<Rightarrow> pool_op \<Rightarrow> bool" where
  "ends_claim tid w (Release t to_status retry) = (t = tid)"
| "ends_claim tid w (Settle t w' to_status retry completed extra) = (t = tid \<and> w' = w)"
| "ends_claim tid w _ = False"

lemma tasks_patch [simp]:
  "tasks (patch_doc tid new st) = tasks st" "tasks (set_task tid t st) = AList.update tid t (tasks st)"
  "tasks (move_depth ct a b st) = tasks st"
  by (simp_all add: patch_doc_def set_task_def move_depth_def Let_def split: option.splits)

lemmas pool_defs = try_claim_def renew_lease_def release_def settle_task_def

lemma holder_row: "holder st tid = Some w \<Longrightarrow> \<exists>t. map_of (tasks st) tid = Some t \<and> t_status t = ''claimed'' \<and> t_claimed_by t = PStr w"
  by (auto simp: holder_def elim: as_opt_text.elims split: option.splits if_splits)

lemma holder_step:
  assumes h: "holder st tid = Some w" and e: "\<not> ends_claim tid w p"
  shows "holder (snd (pool_step p st)) tid = Some w"
proof -
  obtain t where t: "map_of (tasks st) tid = Some t" "t_status t = ''claimed''" "t_claimed_by t = PStr w"
    using holder_row [OF h] by blast
  show ?thesis
    by (cases p) (use h t e in \<open>auto simp: pool_defs holder_def Let_def update_conv' split: option.splits if_splits\<close>)
qed

lemma holder_run:
  "holder st tid = Some w \<Longrightarrow> list_all (\<lambda>p. \<not> ends_claim tid w p) ps \<Longrightarrow> holder (run_pool ps st) tid = Some w"
proof (induction ps arbitrary: st)
  case (Cons p ps)
  then have "holder (snd (pool_step p st)) tid = Some w" using holder_step by auto
  with Cons show ?case by (simp add: run_pool_def)
qed (simp add: run_pool_def)

lemma claim_holder: "fst (try_claim tid w now st) \<Longrightarrow> holder (snd (try_claim tid w now st)) tid = Some w"
  by (auto simp: try_claim_def holder_def Let_def update_conv' split: option.splits if_splits)

text \<open>A lease is bookkeeping: it allocates no version and moves no merkle leaf.\<close>

lemma patch_doc_core:
  assumes "store_inv H p st"
  shows "store_inv H p (patch_doc aid new st)" "leaf_digest (patch_doc aid new st) = leaf_digest st"
    "seq_counter (patch_doc aid new st) = seq_counter st"
proof -
  show "leaf_digest (patch_doc aid new st) = leaf_digest st" "seq_counter (patch_doc aid new st) = seq_counter st"
    by (simp_all add: patch_doc_def index_lists_def Let_def split: option.splits)
  show "store_inv H p (patch_doc aid new st)"
  proof (cases "map_of (vertices st) aid")
    case (Some r)
    define q where "q = r\<lparr> v_doc := doc_update new (v_doc r) \<rparr>"
    define s where "s = st\<lparr> vertices := AList.update aid q (vertices st) \<rparr>"
    have q: "v_origin q = v_origin r" "v_seq q = v_seq r" "v_leaf q = v_leaf r" by (simp_all add: q_def)
    have c: "cnt.total f (AList.update aid q (vertices st)) = cnt.total f (vertices st)" if "f aid q = f aid r" for f
      using that by (simp add: cnt.total_update Some)
    have g: "dig.total f (AList.update aid q (vertices st)) = dig.total f (vertices st)" if "f aid q = f aid r" for f
      using that by (simp add: dig.total_update Some ac_simps)
    have "seq_of s = seq_of st" "hw s = hw st" "live_rows s = live_rows st"
      using Some q by (auto simp: fun_eq_iff s_def seq_of_def hw_def live_rows_def update_conv' c split: sum.splits)
    moreover have "leaves_ok H s"
    proof -
      have d: "distinct (map fst (AList.update aid q (vertices st)))"
        using assms by (simp add: store_inv_def keys_ok_def distinct_update)
      have old: "v_leaf r' = leaf_of H k (st_leaves st)" if "map_of (vertices st) k = Some r'" for k r'
        using assms map_of_SomeD [OF that] by (auto simp: store_inv_def leaves_ok_def)
      have "v_leaf r' = leaf_of H k (st_leaves st)" if "(k, r') \<in> set (AList.update aid q (vertices st))" for k r'
        using map_of_is_SomeI [OF d that] old [OF Some] old q by (auto simp: update_conv' split: if_splits)
      with assms show ?thesis by (auto simp: store_inv_def leaves_ok_def s_def)
    qed
    moreover have f: "edges s = edges st" "counter s = counter st" "st_origin s = st_origin st" "leaf_digest s = leaf_digest st"
      "vertices s = AList.update aid q (vertices st)" by (simp_all add: s_def)
    ultimately have "counts_ok s = counts_ok st" "rows_ok s = rows_ok st" "balance_ok p s = balance_ok p st"
      "seqs_ok p s = seqs_ok p st" "digest_ok H s = digest_ok H st" "leaves_ok H s"
      by (simp_all add: counts_ok_def rows_ok_def balance_ok_def seqs_ok_def digest_ok_def c g q)
    moreover have "keys_ok s" using assms by (simp add: store_inv_def keys_ok_def f distinct_update)
    ultimately have "store_inv H p s" using assms by (simp add: store_inv_def)
    moreover have "same_core s (patch_doc aid new st)"
      by (simp add: patch_doc_def Some Let_def q_def [symmetric] s_def [symmetric] same_core_index) (simp add: q_def)?
    ultimately show ?thesis using same_core_inv by blast
  qed (use assms in \<open>simp add: patch_doc_def\<close>)
qed

lemma pool_step_core:
  assumes "store_inv H p st"
  shows "store_inv H p (snd (pool_step q st)) \<and> leaf_digest (snd (pool_step q st)) = leaf_digest st
    \<and> seq_counter (snd (pool_step q st)) = seq_counter st"
proof -
  have set: "same_core st (set_task tid t st)" "leaf_digest (set_task tid t st) = leaf_digest st"
    "seq_counter (set_task tid t st) = seq_counter st" for tid t
    by (simp_all add: set_task_def same_core_def)
  have move: "same_core s (move_depth ct a b s)" for s ct a b
    by (auto simp: move_depth_def same_core_def bump_def)
  have one: "store_inv H p (patch_doc tid new (set_task tid t st)) \<and> leaf_digest (patch_doc tid new (set_task tid t st)) = leaf_digest st
      \<and> seq_counter (patch_doc tid new (set_task tid t st)) = seq_counter st" for tid new t
    using patch_doc_core [OF same_core_inv [OF set(1) assms]] set(2,3) by simp
  have "store_inv H p (move_depth ct a b (patch_doc tid new (set_task tid t st)))
      \<and> leaf_digest (move_depth ct a b (patch_doc tid new (set_task tid t st))) = leaf_digest st
      \<and> seq_counter (move_depth ct a b (patch_doc tid new (set_task tid t st))) = seq_counter st" for ct a b tid new t
    using one [of tid new t] same_core_inv [OF move] move [of "patch_doc tid new (set_task tid t st)" ct a b]
    by (simp add: same_core_def)
  with one assms show ?thesis
    by (cases q) (auto simp: pool_defs Let_def split: option.splits if_splits)
qed

section \<open>Correctness\<close>

text \<open>(C33) The task sidecar never disagrees with the documents: after any sequence of puts, bulk puts, edge
  writes, deletes, claims, renewals, releases and settlements every task row is exactly what its
  document projects, no other row exists, and each queue depth read off a counter is the number of
  rows in that state.\<close>

theorem pool_projection_exact:
  assumes "pool_reach H st"
  shows "map_of (tasks st) tid = Option.bind (map_of (vertices st) tid) task_of
    \<and> count_by_status st ct [s] = [(s, int (length (filter (\<lambda>(_, t). c_task_status (t_ct t) (t_status t) = c_task_status ct s) (tasks st))))]"
proof -
  have "pool_ok st" by (rule pool_invariant [OF assms])
  moreover have "depth st n = int (length (filter (\<lambda>(_, t). c_task_status (t_ct t) (t_status t) = n) (tasks st)))" for n
    by (simp add: depth_def total_count comp_def case_prod_beta')
  ultimately show ?thesis by (simp add: pool_ok_def count_by_status_def counter_of_def)
qed

definition sample_task :: doc where
  "sample_task = [(''id'', PStr ''t''), (''content_type'', PStr ''task''), (''status'', PStr ''pending'')]"

definition sample_pool :: lattice where
  "sample_pool = (case put_artifact sample_H sample_task True False (empty_lattice ''o'' 4) of Inr (_, st) \<Rightarrow> st | Inl _ \<Rightarrow> empty_lattice ''o'' 4)"

lemma sample_pool_task:
  "map_of (tasks sample_pool) ''t'' \<noteq> None" "fst (try_claim ''t'' ''w'' ''now'' sample_pool)"
  by code_simp+

lemma sample_pool_reach: "pool_reach sample_H sample_pool"
proof (cases "put_artifact sample_H sample_task True False (empty_lattice ''o'' 4)")
  case (Inr p)
  obtain d st where p: "p = (d, st)" by (cases p)
  have "typed_doc sample_task" by code_simp
  from pool_put [OF pool_init this Inr [unfolded p]] show ?thesis by (simp add: sample_pool_def Inr p)
qed (simp add: sample_pool_def pool_init)

theorem pool_projection_exact_witness:
  "map_of (tasks sample_pool) ''t'' = Option.bind (map_of (vertices sample_pool) ''t'') task_of \<and> map_of (tasks sample_pool) ''t'' \<noteq> None"
  using pool_projection_exact [OF sample_pool_reach] sample_pool_task(1) by blast

text \<open>(C34) A claim is exclusive. From the moment a worker wins a task, whatever every other worker does to the
  pool and in whatever order, until the task is released or its holder settles it: the worker stays
  its holder, every other claim loses, every settlement by somebody else answers \<open>False\<close> and writes
  nothing, and the holder's own settlement is accepted.\<close>

theorem claim_exclusive:
  assumes "fst (try_claim tid w now st)" and "list_all (\<lambda>p. \<not> ends_claim tid w p) ps"
  shows "let after = run_pool ps (snd (try_claim tid w now st)) in
    holder after tid = Some w \<and> try_claim tid w' now' after = (False, after)
    \<and> (w' \<noteq> w \<longrightarrow> settle_task tid w' to_status retry completed extra after = (False, after))
    \<and> fst (settle_task tid w to_status retry completed extra after)"
proof -
  define after where "after = run_pool ps (snd (try_claim tid w now st))"
  have h: "holder after tid = Some w" unfolding after_def by (rule holder_run [OF claim_holder [OF assms(1)] assms(2)])
  then obtain t where t: "map_of (tasks after) tid = Some t" "t_status t = ''claimed''" "t_claimed_by t = PStr w"
    using holder_row by blast
  with h show ?thesis unfolding after_def [symmetric] Let_def by (simp add: try_claim_def settle_task_def)
qed

theorem claim_exclusive_witness:
  "holder (run_pool [Claim ''t'' ''rival'' ''later'', Settle ''t'' ''rival'' ''done'' None None []] (snd (try_claim ''t'' ''w'' ''now'' sample_pool))) ''t'' = Some ''w''"
proof -
  let ?ps = "[Claim ''t'' ''rival'' ''later'', Settle ''t'' ''rival'' ''done'' None None []]"
  have "list_all (\<lambda>p. \<not> ends_claim ''t'' ''w'' p) ?ps" by simp
  from claim_exclusive [OF sample_pool_task(2) this] show ?thesis unfolding Let_def by blast
qed

text \<open>A lease is bookkeeping, not an authored event: no transition of the pool allocates a version or moves
  a merkle leaf, and every one keeps the store's invariant.\<close>

theorem lease_is_bookkeeping:
  assumes "store_inv H 0 st"
  shows "store_inv H 0 (snd (pool_step p st)) \<and> leaf_digest (snd (pool_step p st)) = leaf_digest st
    \<and> seq_counter (snd (pool_step p st)) = seq_counter st"
  by (rule pool_step_core [OF assms])

theorem lease_is_bookkeeping_witness:
  "leaf_digest (snd (pool_step (Claim ''t'' ''w'' ''now'') sample_pool)) = leaf_digest sample_pool"
proof -
  have "store_inv sample_H 0 sample_pool"
  proof (cases "put_artifact sample_H sample_task True False (empty_lattice ''o'' 4)")
    case (Inr p)
    obtain d st where p: "p = (d, st)" by (cases p)
    have "store_inv sample_H 0 (empty_lattice ''o'' 4)" by (rule store_inv_empty) simp
    from put_artifact_inv [OF this _ Inr [unfolded p]] show ?thesis by (simp add: sample_pool_def Inr p)
  qed (simp add: sample_pool_def store_inv_empty)
  from lease_is_bookkeeping [OF this] show ?thesis by blast
qed

end
