(* ===== verification/Merkle.thy ===== *)
theory Merkle
  imports Store
begin

text \<open>
  \<open>mesh/merkle.py\<close> and the resolution of the tree in \<open>db/vertex.py\<close>: leaf digests as XOR accumulators, the
  fold of a fine tree onto a coarse one, the comparison of two trees of different sizes, and the
  reshard of a store to the leaf count its corpus calls for.

  A digest is a Python integer; those of the store are its 64-bit words. \<open>None\<close> is the fold of two
  shapes that do not nest, and the root of digests that no eight bytes hold.
\<close>

section \<open>Definitions\<close>

unbundle bit_operations_syntax

fun floor_log2 :: "nat \<Rightarrow> nat" where
  "floor_log2 n = (if n \<le> 1 then 0 else Suc (floor_log2 (n div 2)))"

declare floor_log2.simps [simp del]

text \<open>\<open>round(log2(n) / 2)\<close>, halves to even: exact for every corpus below \<open>2^49\<close> rows, where \<open>log2\<close> of an integer
  that is no power of two does not round to one.\<close>

definition half_log2 :: "nat \<Rightarrow> nat" where
  "half_log2 n =
     (let e = floor_log2 n; k = e div 2 in
      if even e then k else if n = 2 ^ e \<and> even k then k else Suc k)"

definition natural_leaves :: "int \<Rightarrow> nat" where
  "natural_leaves n = 2 ^ half_log2 (nat (max 1 n))"

definition rev_int :: "pyval \<Rightarrow> int" where
  "rev_int rv = (case rv of PInt n \<Rightarrow> n | PBool b \<Rightarrow> of_bool b | _ \<Rightarrow> 0)"

definition merkle_row_hash :: "hashlib \<Rightarrow> string \<Rightarrow> pyval \<Rightarrow> int" where
  "merkle_row_hash H aid rv = uint (row_hash H aid (rev_int rv))"

definition xor_into :: "nat \<Rightarrow> int \<Rightarrow> int list \<Rightarrow> int list" where
  "xor_into i v acc = acc[i := acc ! i XOR v]"

definition merkle_build :: "hashlib \<Rightarrow> (string \<times> pyval) list \<Rightarrow> nat \<Rightarrow> int list" where
  "merkle_build H rows leaves =
     fold (\<lambda>(aid, rv) acc. if aid = [] then acc else xor_into (leaf_of H aid leaves) (merkle_row_hash H aid rv) acc)
       rows (replicate leaves 0)"

definition merkle_root :: "hashlib \<Rightarrow> int list \<Rightarrow> int option" where
  "merkle_root H ds =
     (if list_all (\<lambda>d. 0 \<le> d \<and> d < 2 ^ 64) ds
      then Some (uint (blake8 H (concat (map (\<lambda>d. word_bytes (word_of_int d)) ds)))) else None)"

definition fold_leaves :: "int list \<Rightarrow> nat \<Rightarrow> int list option" where
  "fold_leaves ds t =
     (if t = 0 \<or> length ds mod t \<noteq> 0 then None
      else Some (fold (\<lambda>(j, d). xor_into (j mod t) d) (enumerate 0 ds) (replicate t 0)))"

definition common_leaves :: "int list \<Rightarrow> int list \<Rightarrow> int list option \<times> int list option" where
  "common_leaves a b =
     (let t = min (length a) (length b) in
      (if length a = t then Some a else fold_leaves a t, if length b = t then Some b else fold_leaves b t))"

definition merkle_diff :: "int list \<Rightarrow> int list \<Rightarrow> nat list" where
  "merkle_diff mine theirs =
     (case common_leaves mine theirs of
        (Some a, Some b) \<Rightarrow> filter (\<lambda>i. a ! i \<noteq> b ! i) [0..<length a]
      | _ \<Rightarrow>
          (let n = min (length mine) (length theirs) in
           if n = 0 then [0..<max (length mine) (length theirs)] else [0..<n]))"

definition merkle_summary :: "hashlib \<Rightarrow> int list \<Rightarrow> doc option" where
  "merkle_summary H ds =
     map_option (\<lambda>root. [(''leaves'', PInt (int (length ds))), (''root'', PInt root), (''digests'', PList (map PInt ds))])
       (merkle_root H ds)"

definition int_list :: "pyval \<Rightarrow> int list option" where
  "int_list v =
     (case v of
        PList vs \<Rightarrow>
          if list_all (\<lambda>x. case py_int x of Inr _ \<Rightarrow> True | Inl _ \<Rightarrow> False) vs
          then Some (map (\<lambda>x. case py_int x of Inr n \<Rightarrow> n | Inl _ \<Rightarrow> 0) vs) else None
      | _ \<Rightarrow> None)"

text \<open>\<open>load\<close>: \<open>Inl\<close> when the declared leaf count is not a number, which \<open>load\<close> does not catch.\<close>

definition merkle_load :: "doc \<Rightarrow> int list option result" where
  "merkle_load d =
     (case int_list (dget d ''digests'') of
        None \<Rightarrow> Inr None
      | Some ds \<Rightarrow>
          if map_of d ''leaves'' = None then Inr (Some ds)
          else rbind (py_int (dget d ''leaves'')) (\<lambda>n. Inr (if int (length ds) = n then Some ds else None)))"

subsection \<open>The tree of the store\<close>

definition merkle_leaves :: "lattice \<Rightarrow> int list" where
  "merkle_leaves st = map (\<lambda>i. uint (leaf_digest st i)) [0..<st_leaves st]"

definition restamp_leaf :: "hashlib \<Rightarrow> nat \<Rightarrow> lattice \<Rightarrow> lattice" where
  "restamp_leaf H leaves st = st\<lparr>
     vertices := map (\<lambda>(aid, r). (aid, r\<lparr> v_leaf := leaf_of H aid leaves \<rparr>)) (vertices st),
     edges := map (\<lambda>(key, r). (key, r\<lparr> e_leaf := leaf_of H (hex_text key) leaves \<rparr>)) (edges st) \<rparr>"

definition rebuild_merkle :: "hashlib \<Rightarrow> lattice \<Rightarrow> lattice" where
  "rebuild_merkle H st =
     fold (\<lambda>(key, r). xor_leaf (e_leaf r) (edge_hash H key (edge_row_content r))) (edges st)
       (fold (\<lambda>(aid, r). xor_leaf (v_leaf r) (row_hash H aid (v_seq r))) (vertices st)
         (st\<lparr> leaf_digest := (\<lambda>_. 0) \<rparr>))"

definition corpus :: "lattice \<Rightarrow> int" where
  "corpus st = count_vertices st None + counter_of st c_edge_total"

definition reshard :: "hashlib \<Rightarrow> int option \<Rightarrow> lattice \<Rightarrow> bool \<times> lattice" where
  "reshard H target st =
     (let tgt = (case target of
                   None \<Rightarrow> natural_leaves (corpus st)
                 | Some t \<Rightarrow> if t = 0 then natural_leaves (corpus st) else nat (max 1 t)) in
      if tgt = st_leaves st then (False, st)
      else (True, rebuild_merkle H ((restamp_leaf H tgt st)\<lparr> st_leaves := tgt \<rparr>)))"

definition maybe_reshard :: "hashlib \<Rightarrow> lattice \<Rightarrow> bool \<times> lattice" where
  "maybe_reshard H st =
     (if natural_leaves (corpus st) = st_leaves st then (False, st) else reshard H None st)"

section \<open>XOR accumulators\<close>

definition xor_at :: "nat \<Rightarrow> (nat \<times> int) list \<Rightarrow> int" where
  "xor_at i ps = foldr (\<lambda>(k, v) a. if k = i then v XOR a else a) ps 0"

lemma xor_at_simps [simp]:
  "xor_at i [] = 0" "xor_at i ((k, v) # ps) = (if k = i then v else 0) XOR xor_at i ps"
  by (simp_all add: xor_at_def)

lemma xor_at_append [simp]: "xor_at i (ps @ qs) = xor_at i ps XOR xor_at i qs"
  by (induction ps) (auto simp: xor.assoc)

lemma length_xor_into [simp]: "length (xor_into i v acc) = length acc"
  by (simp add: xor_into_def)

lemma nth_xor_into: "i < length acc \<Longrightarrow> xor_into k v acc ! i = acc ! i XOR (if k = i then v else 0)"
  by (simp add: xor_into_def nth_list_update)

lemma accumulate:
  "length (fold (\<lambda>(k, v). xor_into k v) ps acc) = length acc"
  "i < length acc \<Longrightarrow> fold (\<lambda>(k, v). xor_into k v) ps acc ! i = acc ! i XOR xor_at i ps"
  by (induction ps arbitrary: acc) (auto simp: nth_xor_into xor.assoc)

definition leaf_pairs :: "hashlib \<Rightarrow> (string \<times> pyval) list \<Rightarrow> nat \<Rightarrow> (nat \<times> int) list" where
  "leaf_pairs H rows leaves =
     map (\<lambda>(aid, rv). (leaf_of H aid leaves, merkle_row_hash H aid rv)) (filter (\<lambda>(aid, _). aid \<noteq> []) rows)"

lemma merkle_build_pairs:
  "merkle_build H rows leaves = fold (\<lambda>(k, v). xor_into k v) (leaf_pairs H rows leaves) (replicate leaves 0)"
proof -
  have "fold (\<lambda>(aid, rv) acc. if aid = [] then acc else xor_into (leaf_of H aid leaves) (merkle_row_hash H aid rv) acc) rows acc
      = fold (\<lambda>(k, v). xor_into k v) (leaf_pairs H rows leaves) acc" for acc
    by (induction rows arbitrary: acc) (auto simp: leaf_pairs_def)
  then show ?thesis by (simp add: merkle_build_def)
qed

lemma length_merkle_build [simp]: "length (merkle_build H rows leaves) = leaves"
  by (simp add: merkle_build_pairs accumulate)

lemma nth_merkle_build: "i < leaves \<Longrightarrow> merkle_build H rows leaves ! i = xor_at i (leaf_pairs H rows leaves)"
  by (simp add: merkle_build_pairs accumulate)

text \<open>Folding commutes with accumulating: a row on leaf \<open>k\<close> lands on leaf \<open>k mod t\<close>.\<close>

lemma xor_at_enumerate:
  "n \<le> k \<Longrightarrow> k - n < length ds \<Longrightarrow>
   xor_at i (map (\<lambda>(j, d). (j mod t, d)) (enumerate n (xor_into (k - n) v ds)))
     = xor_at i (map (\<lambda>(j, d). (j mod t, d)) (enumerate n ds)) XOR (if k mod t = i then v else 0)"
proof (induction ds arbitrary: n)
  case (Cons d ds)
  show ?case
  proof (cases "k = n")
    case True
    then show ?thesis by (simp add: xor_into_def ac_simps)
  next
    case False
    with Cons.prems have k: "k - n = Suc (k - Suc n)" by simp
    have "xor_into (k - n) v (d # ds) = d # xor_into (k - Suc n) v ds" unfolding k by (simp add: xor_into_def)
    with Cons.IH [of "Suc n"] Cons.prems False show ?thesis by (simp add: ac_simps)
  qed
qed simp

lemma xor_at_fold:
  "list_all (\<lambda>(k, _). k < length ds) ps \<Longrightarrow>
   xor_at i (map (\<lambda>(j, d). (j mod t, d)) (enumerate 0 (fold (\<lambda>(k, v). xor_into k v) ps ds)))
     = xor_at i (map (\<lambda>(j, d). (j mod t, d)) (enumerate 0 ds)) XOR xor_at i (map (\<lambda>(k, v). (k mod t, v)) ps)"
proof (induction ps arbitrary: ds)
  case (Cons p ps)
  obtain k v where p: "p = (k, v)" by (cases p)
  with Cons.prems have k: "k < length ds" and r: "list_all (\<lambda>(k, _). k < length (xor_into k' v' ds)) ps" for k' v'
    by (auto simp: list_all_iff)
  from Cons.IH [OF r, of k v] xor_at_enumerate [of 0 k ds i t v] k show ?case by (simp add: p ac_simps)
qed simp

lemma xor_at_zeros: "xor_at i (map (\<lambda>(j, d). (j mod t, d)) (enumerate n (replicate m 0))) = 0"
  by (induction m arbitrary: n) auto

lemma leaf_of_mod: "t dvd leaves \<Longrightarrow> leaf_of H aid leaves mod t = leaf_of H aid t"
  by (simp add: leaf_of_def mod_mod_cancel)

lemma fold_build:
  assumes "t dvd leaves" "0 < t" "0 < leaves"
  shows "fold_leaves (merkle_build H rows leaves) t = Some (merkle_build H rows t)"
proof -
  let ?ps = "leaf_pairs H rows leaves"
  have lt: "list_all (\<lambda>(k, _). k < length (replicate leaves (0 :: int))) ?ps"
    using assms(3) by (auto simp: leaf_pairs_def list_all_iff leaf_of_def)
  have coarse: "map (\<lambda>(k, v). (k mod t, v)) ?ps = leaf_pairs H rows t"
    using assms(1) by (auto simp: leaf_pairs_def leaf_of_mod)
  have run: "fold (\<lambda>(j, d). xor_into (j mod t) d) xs acc = fold (\<lambda>(k, v). xor_into k v) (map (\<lambda>(j, d). (j mod t, d)) xs) acc"
    for xs :: "(nat \<times> int) list" and acc by (induction xs arbitrary: acc) auto
  have "fold (\<lambda>(j, d). xor_into (j mod t) d) (enumerate 0 (merkle_build H rows leaves)) (replicate t 0) = merkle_build H rows t"
    unfolding run
    by (rule nth_equalityI)
      (use xor_at_fold [OF lt, of _ t] in \<open>simp_all add: accumulate nth_merkle_build merkle_build_pairs [of _ _ leaves] xor_at_zeros coarse\<close>)
  with assms show ?thesis by (simp add: fold_leaves_def mod_0_imp_dvd dvd_imp_mod_0)
qed

lemma xor_leaf_fold:
  fixes lf :: "'r \<Rightarrow> nat" and h :: "string \<Rightarrow> 'r \<Rightarrow> 64 word"
  defines "s \<equiv> \<lambda>al st. fold (\<lambda>(k, r). xor_leaf (lf r) (h k r)) al st"
  shows "leaf_digest (s al st) m = leaf_digest st m XOR dig.total (\<lambda>k r. if lf r = m then h k r else 0) al"
    "vertices (s al st) = vertices st" "edges (s al st) = edges st" "counter (s al st) = counter st"
    "seq_counter (s al st) = seq_counter st" "st_origin (s al st) = st_origin st" "st_leaves (s al st) = st_leaves st"
  unfolding s_def by (induction al arbitrary: st) (auto simp: xor.assoc)

lemma total_map:
  "cnt.total f (map (\<lambda>(k, r). (k, g k r)) al) = cnt.total (\<lambda>k r. f k (g k r)) al"
  "dig.total f' (map (\<lambda>(k, r). (k, g k r)) al) = dig.total (\<lambda>k r. f' k (g k r)) al"
  by (induction al) auto

lemma map_of_rows: "map_of (map (\<lambda>(k, r). (k, g k r)) al) k = map_option (g k) (map_of al k)"
  by (induction al) auto

lemma reshard_core:
  assumes "store_inv H p st"
  shows "store_inv H p (rebuild_merkle H ((restamp_leaf H tgt st)\<lparr> st_leaves := tgt \<rparr>))"
proof -
  define s where "s = (restamp_leaf H tgt st)\<lparr> st_leaves := tgt \<rparr>"
  define t where "t = rebuild_merkle H s"
  have f: "vertices s = map (\<lambda>(aid, r). (aid, r\<lparr> v_leaf := leaf_of H aid tgt \<rparr>)) (vertices st)"
    "edges s = map (\<lambda>(key, r). (key, r\<lparr> e_leaf := leaf_of H (hex_text key) tgt \<rparr>)) (edges st)"
    "counter s = counter st" "seq_counter s = seq_counter st" "st_origin s = st_origin st" "st_leaves s = tgt"
    by (simp_all add: s_def restamp_leaf_def)
  have t: "vertices t = vertices s" "edges t = edges s" "counter t = counter st" "seq_counter t = seq_counter st"
    "st_origin t = st_origin st" "st_leaves t = tgt"
    by (simp_all add: t_def rebuild_merkle_def xor_leaf_fold f)
  have keys: "map fst (vertices t) = map fst (vertices st)" "map fst (edges t) = map fst (edges st)"
    by (simp_all add: t f comp_def case_prod_beta')
  have "seq_of t = seq_of st"
    by (rule ext) (auto simp: seq_of_def t f map_of_rows option.map_comp comp_def split: sum.splits)
  moreover have "hw t = hw st" "live_rows t = live_rows st"
    by (simp_all add: hw_def live_rows_def t f total_map fun_eq_iff)
  moreover have "keys_ok t = keys_ok st" unfolding keys_ok_def keys t(5) ..
  ultimately have "keys_ok t = keys_ok st" "counts_ok t = counts_ok st" "rows_ok t = rows_ok st" "balance_ok p t = balance_ok p st"
      "seqs_ok p t = seqs_ok p st"
    by (simp_all add: counts_ok_def rows_ok_def balance_ok_def seqs_ok_def t f total_map)
  moreover have "leaves_ok H t" by (auto simp: leaves_ok_def t f)
  moreover have "digest_ok H t"
    by (simp add: digest_ok_def t_def rebuild_merkle_def xor_leaf_fold)
  ultimately show ?thesis using assms unfolding s_def [symmetric] t_def [symmetric] by (simp add: store_inv_def)
qed

lemma reshard_inv: "store_inv H p st \<Longrightarrow> store_inv H p (snd (reshard H target st))"
  by (simp add: reshard_def Let_def reshard_core)

lemma maybe_reshard_inv: "store_inv H p st \<Longrightarrow> store_inv H p (snd (maybe_reshard H st))"
  by (simp add: maybe_reshard_def reshard_inv)

section \<open>Correctness\<close>

text \<open>(C37) Two nodes compare their trees exactly although their corpora gave them different leaf counts: the
  differing indices are those leaves at the coarser resolution whose digests, taken over the whole of
  each side's rows, differ. Folding loses nothing and invents nothing.\<close>

theorem merkle_diff_exact:
  assumes "0 < m" "0 < n" "m dvd n \<or> n dvd m"
  shows "merkle_diff (merkle_build H mine m) (merkle_build H theirs n)
    = filter (\<lambda>i. merkle_build H mine (min m n) ! i \<noteq> merkle_build H theirs (min m n) ! i) [0..<min m n]"
proof -
  have at: "fold_leaves (merkle_build H rows k) (min m n) = Some (merkle_build H rows (min m n))" if "k = m \<or> k = n" for rows k
    using fold_build [of "min m n" k H rows] that assms by (auto simp: min_def dest: dvd_imp_le)
  have "common_leaves (merkle_build H mine m) (merkle_build H theirs n)
      = (Some (merkle_build H mine (min m n)), Some (merkle_build H theirs (min m n)))"
    using at [of m mine] at [of n theirs] by (auto simp: common_leaves_def Let_def min_def)
  then show ?thesis by (simp add: merkle_diff_def)
qed

theorem merkle_diff_exact_witness:
  "merkle_diff (merkle_build sample_H [(''a'', PInt 1)] 4) (merkle_build sample_H [(''a'', PInt 22)] 2)
    = filter (\<lambda>i. merkle_build sample_H [(''a'', PInt 1)] (min 4 2) ! i \<noteq> merkle_build sample_H [(''a'', PInt 22)] (min 4 2) ! i) [0..<min 4 2]
   \<and> merkle_diff (merkle_build sample_H [(''a'', PInt 1)] 4) (merkle_build sample_H [(''a'', PInt 22)] 2) \<noteq> []"
proof (rule conjI)
  show "merkle_diff (merkle_build sample_H [(''a'', PInt 1)] 4) (merkle_build sample_H [(''a'', PInt 22)] 2) \<noteq> []" by code_simp
qed (rule merkle_diff_exact; simp)



text \<open>The sizes a natural resolution takes.\<close>

lemma natural_leaves_pos: "0 < natural_leaves n"
  by (simp add: natural_leaves_def)

lemma natural_leaves_nest: "natural_leaves m dvd natural_leaves n \<or> natural_leaves n dvd natural_leaves m"
  by (metis natural_leaves_def le_imp_power_dvd linear)

end
