(* ===== verification/Json_Codec.thy ===== *)
theory Json_Codec
  imports Json_Text
begin

text \<open>
  The wire form of a value: \<open>json.dumps(v, separators=(",", ":"))\<close> read back by \<open>json.loads\<close>, and newline
  delimited objects read back line by line. The law is proved for values without floats, whose text
  form the model keeps as it was written.
\<close>

section \<open>Definitions\<close>

fun json_plain :: "pyval \<Rightarrow> bool" where
  "json_plain (PFloat s) = False"
| "json_plain (PList vs) = list_all json_plain vs"
| "json_plain (PDict kvs) = (distinct (map fst kvs) \<and> list_all (\<lambda>(k, v). json_plain v) kvs)"
| "json_plain _ = True"

text \<open>\<open>json.loads\<close> builds a \<open>dict\<close>: of two members with one key the later value stays, in the place of the first.\<close>

definition dict_of :: "(string \<times> 'v) list \<Rightarrow> (string \<times> 'v) list" where
  "dict_of kvs = fold (\<lambda>(k, v). AList.update k v) kvs []"

fun py_value :: "pyval \<Rightarrow> pyval" where
  "py_value (PList vs) = PList (map py_value vs)"
| "py_value (PDict kvs) = PDict (dict_of (map (\<lambda>(k, v). (k, py_value v)) kvs))"
| "py_value v = v"

definition py_loads :: "string \<Rightarrow> pyval option" where
  "py_loads s = map_option py_value (json_loads s)"

abbreviation compact :: "pyval \<Rightarrow> string" where
  "compact \<equiv> dump_value '','' '':'' False"

text \<open>\<open>str.splitlines\<close> on the line boundaries below code point 128 and on \<open>U+0085\<close>.\<close>

definition is_line_break :: "char \<Rightarrow> bool" where
  "is_line_break c = ((of_char c :: nat) \<in> {10, 11, 12, 13, 28, 29, 30, 133})"

fun splitlines :: "string \<Rightarrow> string list" where
  "splitlines [] = []"
| "splitlines (c # cs) =
     (if is_line_break c then
        [] # splitlines (if c = CHR 0x0D \<and> starts_with [CHR 0x0A] cs then tl cs else cs)
      else (case splitlines cs of
              [] \<Rightarrow> [[c]]
            | l # ls \<Rightarrow> (c # l) # ls))"

section \<open>Numbers\<close>

lemma digits_value_snoc: "digits_value a (xs @ [c]) = 10 * digits_value a xs + ((of_char c :: nat) - 48)"
  by (induction xs arbitrary: a) simp_all

lemma digits_of_value: "digits_value 0 (digits_of n) = n"
proof (induction n rule: digits_of.induct)
  case (1 n)
  then show ?case by (subst digits_of.simps) (auto simp: digits_value_snoc)
qed

lemma is_digit_char: "(n :: nat) < 10 \<Longrightarrow> is_digit (char_of (48 + n))"
  by (simp add: is_digit_def)

lemma digits_of_digits: "list_all is_digit (digits_of n)"
proof (induction n rule: digits_of.induct)
  case (1 n)
  then show ?case by (subst digits_of.simps) (auto simp: is_digit_char)
qed

lemma digit_neq: "is_digit c \<Longrightarrow> \<not> is_digit x \<Longrightarrow> c \<noteq> x"
  by auto

lemma not_digits [simp]:
  "\<not> is_digit (CHR ''n'')" "\<not> is_digit (CHR ''t'')" "\<not> is_digit (CHR ''f'')" "\<not> is_digit (CHR ''N'')"
  "\<not> is_digit (CHR ''I'')" "\<not> is_digit (CHR ''-'')" "\<not> is_digit (CHR 0x22)" "\<not> is_digit (CHR ''['')"
  "\<not> is_digit (CHR 0x7B)" "\<not> is_digit (CHR '']'')" "\<not> is_digit (CHR 0x7D)" "\<not> is_digit (CHR '' '')"
  "\<not> is_digit (CHR 0x09)" "\<not> is_digit (CHR 0x0A)" "\<not> is_digit (CHR 0x0D)"
  by (simp_all add: is_digit_def)

lemma digit_not_ws: "is_digit c \<Longrightarrow> \<not> is_json_ws c"
  using digit_neq [of c "CHR '' ''"] digit_neq [of c "CHR 0x09"] digit_neq [of c "CHR 0x0A"] digit_neq [of c "CHR 0x0D"]
  by (simp add: is_json_ws_def)

lemma digits_of_ne [simp]: "digits_of n \<noteq> []"
  by (subst digits_of.simps) simp

lemma digits_of_zero: "digits_of 0 = ''0''"
  by code_simp

lemma digits_of_head: "0 < n \<Longrightarrow> hd (digits_of n) \<noteq> CHR ''0''"
proof (induction n rule: digits_of.induct)
  case (1 n)
  show ?case
  proof (cases "n < 10")
    case True
    with 1(2) have "(of_char (char_of (48 + n) :: char) :: nat) \<noteq> of_char (CHR ''0'')" by simp
    then have "char_of (48 + n) \<noteq> CHR ''0''" by metis
    moreover have "digits_of n = [char_of (48 + n)]" using True by (subst digits_of.simps) simp
    ultimately show ?thesis by simp
  next
    case False
    with 1 have "hd (digits_of (n div 10)) \<noteq> CHR ''0''" by simp
    with False show ?thesis by (subst digits_of.simps) simp
  qed
qed

definition delim :: "string \<Rightarrow> bool" where
  "delim r = (r = [] \<or> hd r \<in> {CHR '','', CHR '']'', CHR 0x7D})"

lemma delim_simps [simp]: "delim []" "delim (CHR '','' # r)" "delim (CHR '']'' # r)" "delim (CHR 0x7D # r)"
  by (simp_all add: delim_def)

lemma delim_number: "delim r \<Longrightarrow> takeWhile is_digit r = [] \<and> dropWhile is_digit r = r \<and> parse_frac r = ([], r) \<and> parse_exp r = ([], r)"
proof (cases r)
  case (Cons c cs)
  assume "delim r"
  with Cons have "c = CHR '','' \<or> c = CHR '']'' \<or> c = CHR 0x7D" by (simp add: delim_def)
  then have "\<not> is_digit c" "c \<noteq> CHR ''.''" "c \<noteq> CHR ''e''" "c \<noteq> CHR ''E''"
    by (elim disjE; simp add: is_digit_def)+
  then show ?thesis by (simp add: Cons parse_frac_def parse_exp_def case_prod_beta')
qed (simp add: parse_frac_def parse_exp_def)

lemma span_digits: "list_all is_digit ds \<Longrightarrow> delim r \<Longrightarrow> span is_digit (ds @ r) = (ds, r)"
  using delim_number [of r] by (induction ds) (simp_all add: span_def)

lemma parse_number_digits:
  assumes "delim r"
  shows "parse_number (digits_of n @ r) = Some (PInt (int n), r)"
    and "parse_number (CHR ''-'' # digits_of n @ r) = Some (PInt (- int n), r)"
proof -
  obtain d ds where ds: "digits_of n = d # ds" by (cases "digits_of n") auto
  have dig: "is_digit d" using digits_of_digits [of n] ds by simp
  then have nm: "d \<noteq> CHR ''-''" by (rule digit_neq) simp
  have ip: "(if d = CHR ''0'' then ([d], ds @ r) else span is_digit (d # ds @ r)) = (digits_of n, r)"
  proof (cases "n = 0")
    case True
    then show ?thesis using ds by (simp add: digits_of_zero)
  next
    case False
    with digits_of_head [of n] ds have "d \<noteq> CHR ''0''" by simp
    then show ?thesis using span_digits [OF digits_of_digits assms, of n] ds by simp
  qed
  show "parse_number (digits_of n @ r) = Some (PInt (int n), r)"
    using ip delim_number [OF assms] digits_of_value [of n] by (simp add: parse_number_def ds dig nm)
  show "parse_number (CHR ''-'' # digits_of n @ r) = Some (PInt (- int n), r)"
    using ip delim_number [OF assms] digits_of_value [of n] by (simp add: parse_number_def ds dig)
qed

lemma int_text_head:
  obtains c t where "int_text n = c # t" "is_digit c \<or> (c = CHR ''-'' \<and> t \<noteq> [] \<and> is_digit (hd t))"
proof -
  have h: "is_digit (hd (digits_of k))" for k using digits_of_digits [of k] by (cases "digits_of k") auto
  show thesis
  proof (cases "n < 0")
    case True
    with that show thesis using h by (simp add: int_text_def)
  next
    case False
    with that show thesis using h [of "nat n"] by (cases "digits_of (nat n)") (simp_all add: int_text_def)
  qed
qed

lemma literal_digit: "is_digit c \<Longrightarrow> parse_literal (c # t) = parse_number (c # t)"
  using digit_neq [of c "CHR ''n''"] digit_neq [of c "CHR ''t''"] digit_neq [of c "CHR ''f''"]
    digit_neq [of c "CHR ''N''"] digit_neq [of c "CHR ''I''"] digit_neq [of c "CHR ''-''"]
  by (simp add: parse_literal_def)

lemma literal_minus: "is_digit c \<Longrightarrow> parse_literal (CHR ''-'' # c # t) = parse_number (CHR ''-'' # c # t)"
  using digit_neq [of c "CHR ''I''"] by (simp add: parse_literal_def)

lemma parse_literal_int:
  assumes "delim r"
  shows "parse_literal (int_text n @ r) = Some (PInt n, r)"
proof -
  have d: "\<exists>c t. digits_of k = c # t \<and> is_digit c" for k using digits_of_digits [of k] by (cases "digits_of k") auto
  show ?thesis
  proof (cases "n < 0")
    case True
    obtain c t where c: "digits_of (nat (- n)) = c # t" "is_digit c" using d by blast
    with True parse_number_digits(2) [OF assms, of "nat (- n)"] show ?thesis by (simp add: int_text_def literal_minus)
  next
    case False
    obtain c t where c: "digits_of (nat n) = c # t" "is_digit c" using d by blast
    with False parse_number_digits(1) [OF assms, of "nat n"] show ?thesis by (simp add: int_text_def literal_digit)
  qed
qed

section \<open>The codec law\<close>

definition json_seps :: "string \<Rightarrow> string \<Rightarrow> bool" where
  "json_seps isep ksep = (isep \<in> {'','', '', ''} \<and> ksep \<in> {'':'', '': ''})"

definition opens :: "string \<Rightarrow> bool" where
  "opens s = (\<exists>c t. s = c # t \<and> \<not> is_json_ws c \<and> c \<noteq> CHR '']'' \<and> c \<noteq> CHR 0x7D)"

lemma opens_skip: "opens s \<Longrightarrow> skip_ws (s @ r) = s @ r"
  by (auto simp: opens_def skip_ws_def)

lemma opens_bracket: "opens s \<Longrightarrow> \<not> starts_with '']'' (s @ r)" "opens s \<Longrightarrow> \<not> starts_with [CHR 0x7D] (s @ r)"
  by (auto simp: opens_def)

lemma opens_length: "opens s \<Longrightarrow> 0 < length s"
  by (auto simp: opens_def)

lemma opens_string: "opens (dump_string s @ t)"
  by (simp add: opens_def dump_string_def is_json_ws_def)

lemma opens_dump: "json_plain v \<Longrightarrow> opens (dump_value isep ksep False v)"
proof (cases v)
  case (PInt n)
  obtain c t where c: "int_text n = c # t" "is_digit c \<or> (c = CHR ''-'' \<and> t \<noteq> [] \<and> is_digit (hd t))" by (rule int_text_head)
  have "\<not> is_json_ws c \<and> c \<noteq> CHR '']'' \<and> c \<noteq> CHR 0x7D"
  proof (cases "is_digit c")
    case True
    then show ?thesis by (auto simp: digit_not_ws)
  next
    case False
    with c(2) show ?thesis by (simp add: is_json_ws_def)
  qed
  with c(1) show ?thesis by (simp add: PInt opens_def)
next
  case (PStr s)
  then show ?thesis using opens_string [of s "[]"] by simp
qed (simp_all add: opens_def is_json_ws_def Let_def)

lemma skip_delim [simp]: "skip_ws (CHR 0x7D # r) = CHR 0x7D # r" "skip_ws (CHR '':'' # r) = CHR '':'' # r"
  by (simp_all add: skip_ws_def is_json_ws_def)

lemma opens_join: "list_all opens ts \<Longrightarrow> ts \<noteq> [] \<Longrightarrow> opens (py_join sep ts)"
  by (induction sep ts rule: py_join.induct) (auto simp: opens_def)

text \<open>Reading the elements and members of a text whose parts are read; a length bounds the fuel.\<close>

definition reads :: "string \<Rightarrow> pyval \<Rightarrow> bool" where
  "reads t v = (opens t \<and> (\<forall>n r. length t < n \<longrightarrow> delim r \<longrightarrow> parse_value n (t @ r) = Some (v, r)))"

lemma readsD: "reads t v \<Longrightarrow> length t < n \<Longrightarrow> delim r \<Longrightarrow> parse_value n (t @ r) = Some (v, r)"
  by (simp add: reads_def)

lemma reads_opens: "reads t v \<Longrightarrow> opens t"
  by (simp add: reads_def)

lemma sep_cases:
  assumes "isep \<in> {'','', '', ''}" "opens s"
  shows "delim (isep @ s @ r)" "\<exists>cs. skip_ws (isep @ s @ r) = CHR '','' # cs \<and> skip_ws cs = s @ r" "0 < length isep"
  using assms opens_skip [OF assms(2), of r] by auto

lemma parse_elems_reads:
  "isep \<in> {'','', '', ''} \<Longrightarrow> list_all2 reads ts vs \<Longrightarrow> ts \<noteq> [] \<Longrightarrow> Suc (length (py_join isep ts)) < n \<Longrightarrow>
    parse_elems n (py_join isep ts @ '']'' @ r) = Some (vs, r)"
proof (induction isep ts arbitrary: n vs rule: py_join.induct)
  case (2 sep t)
  then obtain v m where v: "vs = [v]" "reads t v" and n: "n = Suc m" "length t < m"
    by (cases n) (auto simp: list_all2_Cons1)
  show ?case using readsD [OF v(2) n(2), of "CHR '']'' # r"] by (simp add: v n parse_elems.simps(2))
next
  case (3 sep t u us)
  from 3(3) 3(5) obtain v vs' m where v: "vs = v # vs'" "reads t v" "list_all2 reads (u # us) vs'" and n: "n = Suc m"
    by (cases n) (auto simp: list_all2_Cons1)
  let ?rest = "py_join sep (u # us)"
  have "list_all opens (u # us)" using v(3) by (auto simp: list_all2_conv_all_nth list_all_length dest: reads_opens)
  then have op: "opens ?rest" by (rule opens_join) simp
  note sc = sep_cases [OF 3(2) op]
  from sc(2) [of "'']'' @ r"] obtain cs where cs: "skip_ws (sep @ ?rest @ '']'' @ r) = CHR '','' # cs" "skip_ws cs = ?rest @ '']'' @ r" by blast
  have len: "length t < m" "Suc (length ?rest) < m" using 3(5) sc(3) opens_length [OF reads_opens [OF v(2)]] n by (simp_all del: length_greater_0_conv)
  have "parse_value m (t @ sep @ ?rest @ '']'' @ r) = Some (v, sep @ ?rest @ '']'' @ r)" by (rule readsD [OF v(2) len(1) sc(1)])
  moreover have "parse_elems m (?rest @ '']'' @ r) = Some (vs', r)" using 3(1) [OF 3(2) v(3) _ len(2)] by simp
  ultimately show ?case using cs by (simp add: v n parse_elems.simps(2))
qed simp


lemma parse_member_head:
  assumes "ksep \<in> {'':'', '': ''}" "reads u v" "length u < m" "delim r"
  shows "parse_members (Suc m) (dump_string k @ ksep @ u @ r) =
     (case skip_ws r of
        [] \<Rightarrow> None
      | c # cs \<Rightarrow>
          if c = CHR 0x7D then Some ([(k, v)], cs)
          else if c = CHR '','' then map_option (\<lambda>(kvs, r'). ((k, v) # kvs, r')) (parse_members m (skip_ws cs)) else None)"
proof -
  have "skip_ws (tl (skip_ws (ksep @ u @ r))) = u @ r" "starts_with '':'' (skip_ws (ksep @ u @ r))"
    using assms(1) opens_skip [OF reads_opens [OF assms(2)], of r] by auto
  then show ?thesis using readsD [OF assms(2-4)] by (simp add: parse_members.simps(2) dump_string_def parse_string_dump)
qed

lemma parse_members_reads:
  "isep \<in> {'','', '', ''} \<Longrightarrow> ksep \<in> {'':'', '': ''} \<Longrightarrow> list_all2 (\<lambda>t (k, v). \<exists>u. t = dump_string k @ ksep @ u \<and> reads u v) ts kvs \<Longrightarrow>
   ts \<noteq> [] \<Longrightarrow> Suc (length (py_join isep ts)) < n \<Longrightarrow> parse_members n (py_join isep ts @ [CHR 0x7D] @ r) = Some (kvs, r)"
proof (induction isep ts arbitrary: n kvs rule: py_join.induct)
  case (2 sep t)
  then obtain k v u m where v: "kvs = [(k, v)]" "t = dump_string k @ ksep @ u" "reads u v" and n: "n = Suc m" "length u < m"
    by (cases n) (auto simp: list_all2_Cons1)
  show ?case using parse_member_head [OF 2(2) v(3) n(2), of "CHR 0x7D # r" k] by (simp add: v n)
next
  case (3 sep t t' ts)
  then obtain k v u kvs' m where v: "kvs = (k, v) # kvs'" "t = dump_string k @ ksep @ u" "reads u v" and
      rest: "list_all2 (\<lambda>t (k, v). \<exists>u. t = dump_string k @ ksep @ u \<and> reads u v) (t' # ts) kvs'" and n: "n = Suc m"
    by (cases n) (auto simp: list_all2_Cons1)
  let ?rest = "py_join sep (t' # ts)"
  have "list_all opens (t' # ts)" using rest by (auto simp: list_all2_conv_all_nth list_all_length opens_string split_beta)
  then have op: "opens ?rest" by (rule opens_join) simp
  note sc = sep_cases [OF 3(2) op]
  from sc(2) [of "[CHR 0x7D] @ r"] obtain cs where cs: "skip_ws (sep @ ?rest @ [CHR 0x7D] @ r) = CHR '','' # cs" "skip_ws cs = ?rest @ [CHR 0x7D] @ r" by blast
  have len: "length u < m" "Suc (length ?rest) < m"
    using 3(6) sc(3) v(2) n by (simp_all add: dump_string_def del: length_greater_0_conv)
  have "parse_members m (?rest @ [CHR 0x7D] @ r) = Some (kvs', r)" using 3(1) [OF 3(2,3) rest _ len(2)] by simp
  then show ?case using cs parse_member_head [OF 3(3) v(3) len(1) sc(1), of k "[CHR 0x7D] @ r"] by (simp add: v n)
qed simp


lemma readsI:
  "opens t \<Longrightarrow> (\<And>m r. length t \<le> m \<Longrightarrow> delim r \<Longrightarrow> parse_value (Suc m) (t @ r) = Some (v, r)) \<Longrightarrow> reads t v"
  unfolding reads_def by (metis Suc_le_D Suc_le_mono less_eq_Suc_le)

lemma parse_value_int:
  assumes "delim r"
  shows "parse_value (Suc m) (int_text n @ r) = Some (PInt n, r)"
proof -
  obtain c t where c: "int_text n = c # t" "is_digit c \<or> (c = CHR ''-'' \<and> t \<noteq> [] \<and> is_digit (hd t))" by (rule int_text_head)
  have "c \<noteq> CHR 0x22 \<and> c \<noteq> CHR ''['' \<and> c \<noteq> CHR 0x7B"
    using c(2) digit_neq [of c "CHR 0x22"] digit_neq [of c "CHR ''[''"] digit_neq [of c "CHR 0x7B"] by auto
  then show ?thesis using parse_literal_int [OF assms, of n] by (simp add: parse_value.simps(2) c(1))
qed

lemma reads_list:
  assumes "isep \<in> {'','', '', ''}" "list_all2 reads ts vs"
  shows "reads (''['' @ py_join isep ts @ '']'') (PList vs)"
proof (rule readsI)
  fix m r assume m: "length (''['' @ py_join isep ts @ '']'') \<le> m"
  show "parse_value (Suc m) ((''['' @ py_join isep ts @ '']'') @ r) = Some (PList vs, r)"
  proof (cases "ts = []")
    case True
    with assms(2) show ?thesis by (simp add: parse_value.simps(2))
  next
    case False
    have "list_all opens ts" using assms(2) by (auto simp: list_all2_conv_all_nth list_all_length dest: reads_opens)
    with False have "opens (py_join isep ts)" by (simp add: opens_join)
    with opens_skip [OF this, of "'']'' @ r"] opens_bracket(1) [OF this, of "'']'' @ r"] False m
      parse_elems_reads [OF assms False, of m r] show ?thesis by (simp add: parse_value.simps(2))
  qed
qed (simp add: opens_def is_json_ws_def)

lemma reads_dict:
  assumes "isep \<in> {'','', '', ''}" "ksep \<in> {'':'', '': ''}"
    "list_all2 (\<lambda>t (k, v). \<exists>u. t = dump_string k @ ksep @ u \<and> reads u v) ts kvs"
  shows "reads ([CHR 0x7B] @ py_join isep ts @ [CHR 0x7D]) (PDict kvs)"
proof (rule readsI)
  fix m r assume m: "length ([CHR 0x7B] @ py_join isep ts @ [CHR 0x7D]) \<le> m"
  show "parse_value (Suc m) (([CHR 0x7B] @ py_join isep ts @ [CHR 0x7D]) @ r) = Some (PDict kvs, r)"
  proof (cases "ts = []")
    case True
    with assms(3) show ?thesis by (simp add: parse_value.simps(2))
  next
    case False
    have "list_all opens ts" using assms(3) by (auto simp: list_all2_conv_all_nth list_all_length opens_string split_beta)
    with False have "opens (py_join isep ts)" by (simp add: opens_join)
    with opens_skip [OF this, of "[CHR 0x7D] @ r"] opens_bracket(2) [OF this, of "[CHR 0x7D] @ r"] False m
      parse_members_reads [OF assms False, of m r] show ?thesis by (simp add: parse_value.simps(2))
  qed
qed (simp add: opens_def is_json_ws_def)

lemma reads_dump:
  assumes seps: "isep \<in> {'','', '', ''}" "ksep \<in> {'':'', '': ''}"
  shows "json_plain v \<Longrightarrow> reads (dump_value isep ksep False v) v"
proof (induction v)
  case PNone
  show ?case by (rule readsI) (simp_all add: parse_value.simps(2) parse_literal_def opens_def is_json_ws_def)
next
  case (PBool b)
  show ?case by (rule readsI) (simp_all add: parse_value.simps(2) parse_literal_def opens_def is_json_ws_def)
next
  case (PInt n)
  show ?case by (rule readsI) (use opens_dump [of "PInt n" isep ksep] in \<open>simp_all add: parse_value_int\<close>)
next
  case (PStr s)
  show ?case by (rule readsI) (use opens_string [of s "[]"] in \<open>simp_all add: parse_value_string\<close>)
next
  case (PList vs)
  then have "list_all2 reads (map (dump_value isep ksep False) vs) vs" by (auto simp: list_all2_conv_all_nth list_all_length)
  from reads_list [OF seps(1) this] show ?case by simp
next
  case (PDict kvs)
  have "reads (dump_value isep ksep False v) v" if "(k, v) \<in> set kvs" for k v
    using PDict(1) [OF that, of v] PDict(2) that by (auto simp: list_all_iff)
  then have "list_all2 (\<lambda>t (k, v). \<exists>u. t = dump_string k @ ksep @ u \<and> reads u v)
      (map (\<lambda>(k, v). dump_string k @ ksep @ dump_value isep ksep False v) kvs) kvs"
    by (auto simp: list_all2_conv_all_nth split: prod.splits) (metis nth_mem)
  from reads_dict [OF seps this] show ?case by (simp add: Let_def comp_def case_prod_beta')
qed simp

lemma json_text_roundtrip:
  assumes "isep \<in> {'','', '', ''}" "ksep \<in> {'':'', '': ''}" "json_plain v"
  shows "json_loads (dump_value isep ksep False v) = Some v"
proof -
  let ?t = "dump_value isep ksep False v"
  have r: "reads ?t v" by (rule reads_dump) (fact assms)+
  have "skip_ws ?t = ?t" using opens_skip [OF reads_opens [OF r], of "[]"] by simp
  moreover have "parse_value (json_fuel ?t) ?t = Some (v, [])" using readsD [OF r, of "json_fuel ?t" "[]"] by (simp add: json_fuel_def)
  ultimately show ?thesis by (simp add: json_loads_def skip_ws_def)
qed


lemma update_fresh: "k \<notin> fst ` set al \<Longrightarrow> AList.update k v al = al @ [(k, v)]"
  by (induction al) auto

lemma dict_of_fold:
  "distinct (map fst (acc @ kvs)) \<Longrightarrow> fold (\<lambda>(k, v). AList.update k v) kvs acc = acc @ kvs"
proof (induction kvs arbitrary: acc)
  case (Cons p kvs)
  then show ?case using Cons.IH [of "acc @ [p]"] by (cases p) (simp add: update_fresh)
qed simp

lemma dict_of_distinct: "distinct (map fst kvs) \<Longrightarrow> dict_of kvs = kvs"
  using dict_of_fold [of "[]" kvs] by (simp add: dict_of_def)

lemma py_value_plain: "json_plain v \<Longrightarrow> py_value v = v"
proof (induction v)
  case (PList vs)
  then show ?case by (auto simp: list_all_iff intro: map_idI)
next
  case (PDict kvs)
  then have "map (\<lambda>(k, v). (k, py_value v)) kvs = kvs" by (intro map_idI) (auto simp: list_all_iff)
  then show ?case using PDict.prems by (simp add: dict_of_distinct)
qed simp_all

lemma py_loads_dump:
  assumes "isep \<in> {'','', '', ''}" "ksep \<in> {'':'', '': ''}" "json_plain v"
  shows "py_loads (dump_value isep ksep False v) = Some v"
  using json_text_roundtrip [OF assms] assms(3) by (simp add: py_loads_def py_value_plain)

section \<open>Lines\<close>

definition printable :: "char \<Rightarrow> bool" where
  "printable c = (32 \<le> (of_char c :: nat) \<and> (of_char c :: nat) \<le> 126)"

lemma printable_no_break: "printable c \<Longrightarrow> \<not> is_line_break c"
  by (auto simp: printable_def is_line_break_def)

lemma hex_printable: "n < 16 \<Longrightarrow> printable (hex_char n)"
  by (auto simp: hex_char_def printable_def of_char_of)

lemma printable_lits [simp]:
  "printable (CHR 0x22)" "printable (CHR 0x5C)" "printable (CHR ''n'')" "printable (CHR ''r'')" "printable (CHR ''t'')"
  "printable (CHR ''f'')" "printable (CHR ''b'')" "printable (CHR ''u'')" "printable (CHR ''0'')" "printable (CHR ''l'')"
  "printable (CHR ''e'')" "printable (CHR ''a'')" "printable (CHR ''s'')" "printable (CHR ''['')" "printable (CHR '']'')"
  "printable (CHR 0x7B)" "printable (CHR 0x7D)" "printable (CHR '','')" "printable (CHR '':'')" "printable (CHR '' '')" "printable (CHR ''-'')"
  by (simp_all add: printable_def)

lemma escape_printable: "list_all printable (escape_char c)"
proof -
  define n :: nat where "n = of_char c"
  have "n < 256" by (simp add: n_def)
  then have "n div 16 < 16" by simp
  then have "(of_char c :: nat) div 16 < 16" "(of_char c :: nat) mod 16 < 16" by (simp_all add: n_def)
  then show ?thesis
    using hex_printable by (simp add: escape_char_def Let_def) (simp add: printable_def)
qed

lemma dump_string_printable: "list_all printable (dump_string s)"
  using escape_printable by (induction s) (auto simp: dump_string_def list_all_iff)

lemma int_text_printable: "list_all printable (int_text n)"
proof -
  have "list_all printable (digits_of k)" for k
    using digits_of_digits [of k] by (auto simp: list_all_iff is_digit_def printable_def)
  then show ?thesis by (simp add: int_text_def)
qed

lemma join_printable: "list_all printable sep \<Longrightarrow> list_all (list_all printable) ts \<Longrightarrow> list_all printable (py_join sep ts)"
  by (induction sep ts rule: py_join.induct) auto

lemma dump_printable:
  "list_all printable isep \<Longrightarrow> list_all printable ksep \<Longrightarrow> json_plain v \<Longrightarrow> list_all printable (dump_value isep ksep False v)"
proof (induction v)
  case (PList vs)
  then have "list_all (list_all printable) (map (dump_value isep ksep False) vs)" by (auto simp: list_all_iff)
  then show ?case using PList by (simp add: join_printable)
next
  case (PDict kvs)
  have "list_all printable (dump_value isep ksep False v)" if "(k, v) \<in> set kvs" for k v
    using PDict(1) [OF that, of v] PDict(2-) that by (auto simp: list_all_iff)
  then have "list_all (list_all printable) (map (\<lambda>(k, v). dump_string k @ ksep @ dump_value isep ksep False v) kvs)"
    using PDict.prems(2) dump_string_printable by (auto simp: list_all_iff)
  from join_printable [OF PDict.prems(1) this] show ?case by (simp add: Let_def comp_def case_prod_beta')
qed (simp_all add: dump_string_printable int_text_printable)

lemma splitlines_line: "list_all printable l \<Longrightarrow> l \<noteq> [] \<Longrightarrow> splitlines l = [l]"
proof (induction l)
  case (Cons c l)
  then show ?case by (cases "l = []") (simp_all add: printable_no_break)
qed simp

lemma splitlines_cons: "list_all printable l \<Longrightarrow> splitlines (l @ CHR 0x0A # r) = l # splitlines r"
  by (induction l) (simp_all add: printable_no_break is_line_break_def [of "CHR 0x0A"])

lemma splitlines_join:
  "list_all (\<lambda>l. l \<noteq> [] \<and> list_all printable l) ls \<Longrightarrow> splitlines (py_join [CHR 0x0A] ls) = ls"
  by (induction "[CHR 0x0A]" ls rule: py_join.induct) (simp_all add: splitlines_line splitlines_cons)

text \<open>Reading a newline-delimited text: blank lines are skipped, one bad line fails the whole.\<close>

fun loads_all :: "string list \<Rightarrow> pyval list option" where
  "loads_all [] = Some []"
| "loads_all (l # ls) =
     (if py_strip l = [] then loads_all ls
      else (case py_loads l of None \<Rightarrow> None | Some v \<Rightarrow> map_option (Cons v) (loads_all ls)))"

definition ndjson_loads :: "string \<Rightarrow> pyval list option" where
  "ndjson_loads t = loads_all (splitlines t)"

definition ndjson_dumps :: "pyval list \<Rightarrow> string" where
  "ndjson_dumps vs = py_join [CHR 0x0A] (map compact vs)"

lemma dump_not_blank: "json_plain v \<Longrightarrow> py_strip (compact v) \<noteq> []"
proof -
  assume v: "json_plain v"
  then have "list_all printable (compact v)" by (simp add: dump_printable)
  moreover obtain c t where c: "compact v = c # t" "\<not> is_json_ws c" using opens_dump [OF v, of "'',''" "'':''"] by (auto simp: opens_def)
  ultimately have "printable c" by simp
  moreover have "(of_char c :: nat) \<noteq> 32"
  proof
    assume "(of_char c :: nat) = 32"
    then have "c = char_of (32 :: nat)" by (metis char_of_char)
    also have "char_of (32 :: nat) = CHR '' ''" by code_simp
    finally show False using c(2) by (simp add: is_json_ws_def)
  qed
  ultimately have "\<not> is_space c" by (auto simp: is_space_def printable_def)
  with c(1) show ?thesis by (simp add: py_strip_def)
qed

lemma loads_all_compact: "list_all json_plain vs \<Longrightarrow> loads_all (map compact vs) = Some vs"
  by (induction vs) (simp_all add: dump_not_blank py_loads_dump)

lemma ndjson_roundtrip:
  assumes "list_all json_plain vs"
  shows "ndjson_loads (ndjson_dumps vs) = Some vs"
proof -
  have "compact v \<noteq> [] \<and> list_all printable (compact v)" if "json_plain v" for v
    using dump_not_blank [OF that] dump_printable [OF _ _ that, of "'',''" "'':''"] by (auto simp: py_strip_def)
  then have "list_all (\<lambda>l. l \<noteq> [] \<and> list_all printable l) (map compact vs)" using assms by (auto simp: list_all_iff)
  then show ?thesis using assms by (simp add: ndjson_loads_def ndjson_dumps_def splitlines_join loads_all_compact)
qed

end
