(* ===== verification/Mint_Context.thy ===== *)
theory Mint_Context
  imports Json_Codec Authn
begin

text \<open>
  \<open>services/mint_context.py\<close>: the context an artifact is minted with and every write of it. A context is a
  dictionary with two authors: the store writes the server-owned keys, a client the others. The theory
  shows that no door lets a client write a server-owned key, and that the rewriting of the \<open>caller\<close> form
  neither loses nor invents a key.

  The clock, the digest, the rung authority (\<open>prism.mass\<close>) and the enrichment seam (\<open>prism.runner\<close>) are
  arguments. Contents are text; the bytes form of a content argument is not modelled.
\<close>

section \<open>Definitions\<close>

definition MINT_KEYS :: "string list" where
  "MINT_KEYS = [''minted_by'', ''minted'', ''placement'', ''addressing'', ''screen'', ''enriched'', ''caller'',
     ''provenance'', ''provenance_history'', ''provenance_evidence'']"

definition BOOKKEEPING_KEYS :: "string list" where
  "BOOKKEEPING_KEYS = [''content_key'', ''content_cas_ref'', ''content_sha256'', ''content_bytes'', ''upload'', ''processing'',
     ''storage'', ''access'', ''content_source'', ''uri'']"

definition SERVER_OWNED_KEYS :: "string list" where
  "SERVER_OWNED_KEYS = MINT_KEYS @ BOOKKEEPING_KEYS"

abbreviation server_key :: "string \<Rightarrow> bool" where
  "server_key k \<equiv> k \<in> set SERVER_OWNED_KEYS"

definition parse_context :: "pyval \<Rightarrow> doc" where
  "parse_context v =
     (case v of
        PNone \<Rightarrow> []
      | PStr s \<Rightarrow> if s = [] then [] else (case py_loads s of Some (PDict kvs) \<Rightarrow> kvs | _ \<Rightarrow> [(''_opaque'', v)])
      | PDict kvs \<Rightarrow> kvs
      | _ \<Rightarrow> [(''_opaque'', v)])"

definition client_part :: "pyval \<Rightarrow> string list \<Rightarrow> doc" where
  "client_part v allow = filter (\<lambda>(k, _). \<not> server_key k \<or> k \<in> set allow) (parse_context v)"

definition nested_part :: "doc \<Rightarrow> doc" where
  "nested_part ctx = (case dget ctx ''caller'' of PDict c \<Rightarrow> client_part (PDict c) [] | _ \<Rightarrow> [])"

definition client_view :: "pyval \<Rightarrow> doc" where
  "client_view v = (let ctx = parse_context v in dmerge (nested_part ctx) (client_part (PDict ctx) []))"

definition facets_of :: "pyval \<Rightarrow> doc" where
  "facets_of stored = filter (\<lambda>(k, _). server_key k \<and> k \<noteq> ''caller'') (parse_context stored)"

definition context_text :: "doc \<Rightarrow> string" where
  "context_text d = dump_value '', '' '': '' False (PDict d)"

definition with_client_keys :: "pyval \<Rightarrow> doc \<Rightarrow> string" where
  "with_client_keys stored ks =
     context_text (dmerge (facets_of stored) (client_part (PDict ks) []))"

text \<open>\<open>==\<close> of the two dictionaries in \<open>normalised\<close>: the values of one come from the text of the other.\<close>

fun has_nan :: "pyval \<Rightarrow> bool" where
  "has_nan (PFloat s) = (s = ''nan'')"
| "has_nan (PList vs) = list_ex has_nan vs"
| "has_nan (PDict kvs) = list_ex (\<lambda>(k, v). has_nan v) kvs"
| "has_nan _ = False"

definition dict_same :: "doc \<Rightarrow> doc \<Rightarrow> bool" where
  "dict_same a b = (length a = length b \<and> list_all (\<lambda>(k, v). map_of b k = Some v \<and> \<not> has_nan v) a)"

definition normalised :: "pyval \<Rightarrow> pyval" where
  "normalised v =
     (let ctx = parse_context v in
      if map fst ctx = [''_opaque''] then v
      else
        (let out = with_client_keys (PDict ctx) (client_view (PDict ctx)) in
         if (case v of PStr _ \<Rightarrow> True | _ \<Rightarrow> False) \<and> (case py_loads out of Some (PDict kvs) \<Rightarrow> dict_same kvs ctx | _ \<Rightarrow> False)
         then v else PStr out))"

definition update_keys :: "pyval \<Rightarrow> pyval \<Rightarrow> doc" where
  "update_keys update stored =
     (let upd = parse_context update; tops = client_part (PDict upd) []; nested = nested_part upd in
      if tops = [] then nested
      else (let stored_keys = client_part stored [] in
            dmerge (filter (\<lambda>(k, _). k \<notin> set (map fst stored_keys)) nested) tops))"

definition merge_caller_update :: "pyval \<Rightarrow> pyval \<Rightarrow> string" where
  "merge_caller_update stored update = with_client_keys stored (update_keys update stored)"

definition with_content_type :: "pyval \<Rightarrow> string \<Rightarrow> pyval" where
  "with_content_type stored content_type =
     (let ctx = parse_context stored; ks = client_view (PDict ctx) in
      if ''content_type'' \<notin> set (map fst ks) \<or> dget ks ''content_type'' = PStr content_type then stored
      else PStr (with_client_keys (PDict ctx) (dset ''content_type'' (PStr content_type) ks)))"

definition set_or_pop :: "string \<Rightarrow> pyval option \<Rightarrow> doc \<Rightarrow> doc" where
  "set_or_pop k v d = (case v of None \<Rightarrow> AList.delete k d | Some x \<Rightarrow> dset k x d)"

definition readdressed :: "(string \<Rightarrow> string) \<Rightarrow> pyval \<Rightarrow> string option \<Rightarrow> string option \<Rightarrow> int option \<Rightarrow> string" where
  "readdressed sha256 stored content sha nbytes =
     (let ctx = AList.delete ''enriched'' (parse_context stored);
          (sha, nbytes) = (case content of None \<Rightarrow> (sha, nbytes) | Some t \<Rightarrow> (Some (sha256 (utf8 t)), Some (int (length (utf8 t)))));
          ctx = (case dget ctx ''addressing'' of
                   PDict a \<Rightarrow>
                     dset ''addressing'' (PDict (set_or_pop ''bytes'' (map_option PInt nbytes) (set_or_pop ''sha256'' (map_option PStr sha) a))) ctx
                 | _ \<Rightarrow> ctx) in
      with_client_keys (PDict ctx) (client_view (PDict ctx)))"

subsection \<open>The mint\<close>

record mint_env =
  me_now :: string
  me_acting :: "acting_principal option"
  me_scope :: "string option"
  me_sha256 :: "string \<Rightarrow> string"
  me_rung :: "doc \<Rightarrow> string \<Rightarrow> bool \<Rightarrow> doc option"
  me_enrich :: "doc \<Rightarrow> doc option"

definition acting_facets :: "mint_env \<Rightarrow> doc" where
  "acting_facets E =
     (case me_acting E of
        None \<Rightarrow> []
      | Some p \<Rightarrow>
          concat (map (\<lambda>(k, v). case v of None \<Rightarrow> [] | Some s \<Rightarrow> if s = [] then [] else [(k, PStr s)])
            [(''principal_id'', Some (ap_principal_id p)), (''principal_type'', Some (ap_principal_type p)), (''actor'', ap_actor p),
             (''scope'', me_scope E), (''authority'', ap_authority p), (''source'', Some (ap_source p))]))"

definition mint_origin_root :: "lattice \<Rightarrow> string \<Rightarrow> string option" where
  "mint_origin_root st collection_id =
     (if collection_id = [] then None
      else (case get_origin_root st collection_id of Inl _ \<Rightarrow> None | Inr r \<Rightarrow> if r = [] then None else Some r))"

definition siblings :: "lattice \<Rightarrow> string \<Rightarrow> nat \<Rightarrow> string list option" where
  "siblings st collection_id limit =
     (if collection_id = [] then None
      else (case edges_of_full st collection_id None Out (max 1 (int limit)) True of
              Inl _ \<Rightarrow> None
            | Inr es \<Rightarrow> Some (filter (\<lambda>d. d \<noteq> []) (map e_dst es))))"

definition opt_facet :: "string \<Rightarrow> doc \<Rightarrow> doc" where
  "opt_facet k d = (if d = [] then [] else [(k, PDict d)])"

definition mint_placement :: "lattice \<Rightarrow> string \<Rightarrow> doc" where
  "mint_placement st collection_id =
     (if collection_id = [] then []
      else (''collection_id'', PStr collection_id)
        # (case mint_origin_root st collection_id of None \<Rightarrow> [] | Some r \<Rightarrow> [(''origin_root'', PStr r)]))"

definition mint_addressing :: "mint_env \<Rightarrow> string \<Rightarrow> string option \<Rightarrow> doc" where
  "mint_addressing E content_type content =
     (if content_type = [] then [] else [(''content_type'', PStr content_type)])
     @ (case content of
          None \<Rightarrow> []
        | Some t \<Rightarrow> [(''sha256'', PStr (me_sha256 E (utf8 t))), (''bytes'', PInt (int (length (utf8 t))))])"

definition mint_screen :: "lattice \<Rightarrow> string \<Rightarrow> string \<Rightarrow> string list \<Rightarrow> nat \<Rightarrow> doc" where
  "mint_screen st artifact_id collection_id co_written sibling_limit =
     (let co = filter (\<lambda>x. x \<noteq> [] \<and> x \<noteq> artifact_id) co_written in
      (if co = [] then [] else [(''co_written'', PList (map PStr co))])
      @ (case siblings st collection_id sibling_limit of
           None \<Rightarrow> []
         | Some sibs \<Rightarrow>
             (let ks = filter (\<lambda>s. s \<noteq> artifact_id) (take sibling_limit sibs) in
              (if ks = [] then [] else [(''siblings'', PList (map PStr ks))])
              @ (if sibling_limit < length sibs then [(''siblings_capped'', PInt (int sibling_limit))] else []))))"

definition stamp_rung :: "mint_env \<Rightarrow> pyval \<Rightarrow> doc \<Rightarrow> doc" where
  "stamp_rung E claim ctx =
     (let minted = (case dget ctx ''minted'' of PDict d \<Rightarrow> d | _ \<Rightarrow> []);
          ptype = (if dtext minted ''principal_type'' = [] then ''unknown'' else dtext minted ''principal_type'');
          actor = dtext minted ''actor''; pid = dtext minted ''principal_id'' in
      case me_rung E (if truthy claim then [(''provenance'', claim)] else []) ptype (actor \<noteq> [] \<and> pid \<noteq> [] \<and> actor \<noteq> pid) of
        None \<Rightarrow> ctx
      | Some stamped \<Rightarrow>
          fold (\<lambda>k c. case map_of stamped k of None \<Rightarrow> c | Some v \<Rightarrow> dset k v c) [''provenance'', ''provenance_history''] ctx)"

definition mint_base :: "mint_env \<Rightarrow> lattice \<Rightarrow> string \<Rightarrow> string \<Rightarrow> string option \<Rightarrow> string \<Rightarrow> string list \<Rightarrow> nat \<Rightarrow> doc" where
  "mint_base E st artifact_id content_type content collection_id co_written sibling_limit =
     [(''minted_by'', PStr ''mantle.mint_context''), (''minted'', PDict ((''at'', PStr (me_now E)) # acting_facets E))]
     @ opt_facet ''placement'' (mint_placement st collection_id)
     @ opt_facet ''addressing'' (mint_addressing E content_type content)
     @ opt_facet ''screen'' (mint_screen st artifact_id collection_id co_written sibling_limit)"

definition mint_context ::
  "mint_env \<Rightarrow> lattice \<Rightarrow> string \<Rightarrow> string \<Rightarrow> string option \<Rightarrow> string \<Rightarrow> string list \<Rightarrow> doc \<Rightarrow> nat \<Rightarrow> doc" where
  "mint_context E st artifact_id content_type content collection_id co_written caller sibling_limit =
     (let claim = dget (client_part (PDict caller) [''provenance'']) ''provenance'';
          ctx = mint_base E st artifact_id content_type content collection_id co_written sibling_limit;
          ctx = dmerge ctx (client_part (PDict caller) []);
          ctx = stamp_rung E claim ctx in
      case me_enrich E ctx of
        None \<Rightarrow> ctx
      | Some e \<Rightarrow> if e = [] then ctx else dset ''enriched'' (PDict e) ctx)"

definition context_facets :: "doc \<Rightarrow> (string \<times> bool) list" where
  "context_facets c =
     (let inner = (\<lambda>k. case dget c k of PDict d \<Rightarrow> d | _ \<Rightarrow> []) in
      [(''minted'', truthy (dget (inner ''minted'') ''at'')), (''placement'', truthy (dget c ''placement'')),
       (''addressing'', truthy (dget (inner ''addressing'') ''sha256'')),
       (''screen'', truthy (dget (inner ''screen'') ''co_written'') \<or> truthy (dget (inner ''screen'') ''siblings'')),
       (''enriched'', truthy (dget c ''enriched''))])"

section \<open>Dictionaries\<close>

lemma dmerge_Cons [simp]: "dmerge a [] = a" "dmerge a ((k, v) # b) = dmerge (dset k v a) b"
  by (simp_all add: dmerge_def)

lemma map_of_dset: "map_of (dset k v d) x = (if x = k then Some v else map_of d x)"
  by (simp add: dset_def update_conv')

lemma map_of_merge: "distinct (map fst b) \<Longrightarrow> map_of (dmerge a b) k = (case map_of b k of Some v \<Rightarrow> Some v | None \<Rightarrow> map_of a k)"
proof (induction b arbitrary: a)
  case (Cons p b)
  obtain k' v where p: "p = (k', v)" by (cases p)
  with Cons.prems have "map_of b k' = None" by (simp add: map_of_eq_None_iff)
  with Cons p show ?case by (auto simp: map_of_dset split: option.splits)
qed simp

lemma keys_merge: "fst ` set (dmerge a b) = fst ` set a \<union> fst ` set b"
proof (induction b arbitrary: a)
  case (Cons p b)
  then show ?case by (cases p) (simp add: fst_dset)
qed simp

lemma map_of_filter_key: "map_of (filter (\<lambda>(k, _). P k) d) k = (if P k then map_of d k else None)"
  by (induction d) auto

lemma merge_fresh: "distinct (map fst (a @ b)) \<Longrightarrow> dmerge a b = a @ b"
  using dict_of_fold [of a b] unfolding dmerge_def dset_def by blast

lemma plain_filter: "json_plain (PDict d) \<Longrightarrow> json_plain (PDict (filter P d))"
  by (auto simp: list_all_iff distinct_map_filter)

lemma plain_append: "json_plain (PDict a) \<Longrightarrow> json_plain (PDict b) \<Longrightarrow> fst ` set a \<inter> fst ` set b = {} \<Longrightarrow> json_plain (PDict (a @ b))"
  by simp

lemma plain_value: "json_plain (PDict d) \<Longrightarrow> map_of d k = Some v \<Longrightarrow> json_plain v"
  by (auto simp: list_all_iff dest!: map_of_SomeD)

lemma plain_dset: "json_plain (PDict d) \<Longrightarrow> json_plain v \<Longrightarrow> json_plain (PDict (dset k v d))"
  by (induction d) (auto simp: dset_def dom_update)

lemma plain_merge: "json_plain (PDict a) \<Longrightarrow> json_plain (PDict b) \<Longrightarrow> json_plain (PDict (dmerge a b))"
proof (induction b arbitrary: a)
  case (Cons p b)
  obtain k v where p: "p = (k, v)" by (cases p)
  with Cons.prems(2) have "json_plain v" "json_plain (PDict b)" by simp_all
  with Cons.IH [OF plain_dset [OF Cons.prems(1)]] p show ?case by (simp del: json_plain.simps(3))
qed simp

lemma dict_same_map_of:
  assumes "dict_same a b" "distinct (map fst a)" "distinct (map fst b)"
  shows "map_of a = map_of b"
proof (rule map_of_eqI)
  have sub: "fst ` set a \<subseteq> fst ` set b" using assms(1) by (force simp: dict_same_def list_all_iff dest: map_of_SomeD)
  have "card (fst ` set a) = card (fst ` set b)"
    using assms distinct_card [of "map fst a"] distinct_card [of "map fst b"] by (simp add: dict_same_def)
  with sub show "set (map fst a) = set (map fst b)" by (simp add: card_subset_eq)
  show "\<forall>x\<in>set (map fst a). map_of a x = map_of b x"
  proof
    fix x assume "x \<in> set (map fst a)"
    then obtain v where v: "(x, v) \<in> set a" by auto
    then have "map_of a x = Some v" using assms(2) by simp
    moreover have "map_of b x = Some v" using v assms(1) by (auto simp: dict_same_def list_all_iff)
    ultimately show "map_of a x = map_of b x" by simp
  qed
qed

lemma dict_same_refl: "json_plain (PDict a) \<Longrightarrow> dict_same a a"
proof -
  assume a: "json_plain (PDict a)"
  have "\<not> has_nan v" if "json_plain v" for v
    using that by (induction v) (auto simp: list_all_iff list_ex_iff)
  with a show ?thesis by (auto simp: dict_same_def list_all_iff)
qed

section \<open>The two authors of a context\<close>

lemma parse_dict [simp]: "parse_context (PDict d) = d"
  by (simp add: parse_context_def)

lemma py_loads_context: "json_plain (PDict d) \<Longrightarrow> py_loads (context_text d) = Some (PDict d)"
  unfolding context_text_def by (rule py_loads_dump) simp_all

lemma parse_dumped: "json_plain (PDict d) \<Longrightarrow> parse_context (PStr (context_text d)) = d"
proof -
  assume d: "json_plain (PDict d)"
  have "context_text d \<noteq> []" by (simp add: context_text_def Let_def)
  then show ?thesis using py_loads_context [OF d] by (simp add: parse_context_def)
qed

lemma parse_with_client_keys:
  assumes "json_plain (PDict (parse_context stored))" "json_plain (PDict ks)"
  shows "parse_context (PStr (with_client_keys stored ks)) = facets_of stored @ client_part (PDict ks) []"
proof -
  have f: "json_plain (PDict (facets_of stored))" using plain_filter [OF assms(1)] by (simp only: facets_of_def)
  have c: "json_plain (PDict (client_part (PDict ks) []))" using plain_filter [OF assms(2)] by (simp only: client_part_def parse_dict)
  have disj: "fst ` set (facets_of stored) \<inter> fst ` set (client_part (PDict ks) []) = {}"
    by (auto simp: facets_of_def client_part_def)
  have "dmerge (facets_of stored) (client_part (PDict ks) []) = facets_of stored @ client_part (PDict ks) []"
    by (rule merge_fresh) (use f c disj in simp)
  with parse_dumped [OF plain_append [OF f c disj]] show ?thesis by (simp add: with_client_keys_def)
qed

lemma client_part_map: "map_of (client_part v allow) k = (if \<not> server_key k \<or> k \<in> set allow then map_of (parse_context v) k else None)"
  by (simp add: client_part_def map_of_filter_key)

lemma facets_map: "map_of (facets_of v) k = (if server_key k \<and> k \<noteq> ''caller'' then map_of (parse_context v) k else None)"
  by (simp add: facets_of_def map_of_filter_key)

lemma caller_is_server [simp]: "server_key ''caller''"
  by (simp add: SERVER_OWNED_KEYS_def MINT_KEYS_def)

definition caller_dict :: "doc \<Rightarrow> doc" where
  "caller_dict ctx = (case dget ctx ''caller'' of PDict c \<Rightarrow> c | _ \<Rightarrow> [])"

lemma caller_plain: "json_plain (PDict ctx) \<Longrightarrow> json_plain (PDict (caller_dict ctx))"
  using plain_value [of ctx "''caller''"]
  by (auto simp: caller_dict_def dget_def split: option.splits pyval.splits simp del: json_plain.simps(3)) (simp_all)

lemma nested_part_eq: "nested_part ctx = client_part (PDict (caller_dict ctx)) []"
  by (simp add: nested_part_def caller_dict_def client_part_def split: pyval.splits)

lemma plain_client_part: "json_plain (PDict (parse_context v)) \<Longrightarrow> json_plain (PDict (client_part v allow))"
  unfolding client_part_def by (rule plain_filter)

lemma client_view_map:
  assumes "json_plain (PDict (parse_context v))"
  shows "map_of (client_view v) k =
    (if server_key k then None
     else (case map_of (parse_context v) k of Some x \<Rightarrow> Some x | None \<Rightarrow> map_of (caller_dict (parse_context v)) k))"
proof -
  have "distinct (map fst (client_part (PDict (parse_context v)) []))"
    using plain_client_part [of "PDict (parse_context v)"] assms by simp
  then show ?thesis
    by (simp add: client_view_def Let_def map_of_merge client_part_map nested_part_eq split: option.splits)
qed

lemma client_view_plain: "json_plain (PDict (parse_context v)) \<Longrightarrow> json_plain (PDict (client_view v))"
  unfolding client_view_def Let_def nested_part_eq
  by (rule plain_merge; rule plain_client_part) (simp_all only: parse_dict caller_plain)

lemma client_keys: "(k, x) \<in> set (client_view v) \<Longrightarrow> \<not> server_key k"
proof -
  assume "(k, x) \<in> set (client_view v)"
  then have "k \<in> fst ` set (client_view v)" by (rule image_eqI [rotated]) simp
  then show ?thesis by (auto simp: client_view_def Let_def keys_merge nested_part_eq client_part_def)
qed

lemma author_filters:
  "filter (\<lambda>(k, _). server_key k \<and> k \<noteq> ''caller'') (client_view v) = []" "filter (\<lambda>(k, _). \<not> server_key k) (client_view v) = client_view v"
  "filter (\<lambda>(k, _). \<not> server_key k) (facets_of v) = []" "filter (\<lambda>(k, _). server_key k \<and> k \<noteq> ''caller'') (facets_of v) = facets_of v"
  using client_keys [of _ _ v] by (auto simp: filter_empty_conv filter_id_conv facets_of_def)

text \<open>What an update states, key by key: its own top level decides, its \<open>caller\<close> supplies a key only where
  nothing at a top level does.\<close>

definition stated :: "pyval \<Rightarrow> pyval \<Rightarrow> string \<Rightarrow> pyval option" where
  "stated update stored k =
     (let upd = parse_context update; tops = list_ex (\<lambda>(x, _). \<not> server_key x) upd in
      if server_key k then None
      else (case (if tops then map_of upd k else None) of
              Some v \<Rightarrow> Some v
            | None \<Rightarrow> if tops \<and> map_of (parse_context stored) k \<noteq> None then None else map_of (caller_dict upd) k))"

lemma filter_not_in_keys: "map_of (filter (\<lambda>(k, _). k \<notin> set (map fst d)) e) k = (if map_of d k = None then map_of e k else None)"
  by (simp add: map_of_filter_key map_of_eq_None_iff)

lemma tops_iff: "client_part (PDict upd) [] = [] \<longleftrightarrow> \<not> list_ex (\<lambda>(x, _). \<not> server_key x) upd"
  by (auto simp: client_part_def filter_empty_conv list_ex_iff)

lemma update_keys_map:
  assumes "json_plain (PDict (parse_context update))"
  shows "map_of (update_keys update stored) k = stated update stored k"
proof (cases "client_part (PDict (parse_context update)) [] = []")
  case True
  then show ?thesis using tops_iff [of "parse_context update"]
    by (simp add: update_keys_def stated_def Let_def nested_part_eq client_part_map)
next
  case False
  have d: "distinct (map fst (client_part (PDict (parse_context update)) []))"
    using plain_client_part [of "PDict (parse_context update)"] assms by simp
  from False tops_iff [of "parse_context update"] show ?thesis
    unfolding update_keys_def stated_def Let_def if_not_P [OF False] map_of_merge [OF d] filter_not_in_keys
    by (auto simp: nested_part_eq client_part_map split: option.splits)
qed

lemma update_keys_plain: "json_plain (PDict (parse_context update)) \<Longrightarrow> json_plain (PDict (update_keys update stored))"
proof -
  assume u: "json_plain (PDict (parse_context update))"
  have n: "json_plain (PDict (nested_part (parse_context update)))"
    unfolding nested_part_eq by (rule plain_client_part) (simp only: parse_dict caller_plain [OF u])
  moreover have "json_plain (PDict (client_part (PDict (parse_context update)) []))"
    by (rule plain_client_part) (simp only: parse_dict u)
  ultimately show ?thesis unfolding update_keys_def Let_def by (simp only: plain_merge plain_filter split: if_split) simp
qed

section \<open>Correctness\<close>

text \<open>(C39) A client's update of a stored context: every server-owned key of the result is what was stored, the
  client's keys are exactly what the update states, whatever server-owned keys it carries, and nothing
  is left under \<open>caller\<close>.\<close>

theorem client_update_exact:
  assumes "json_plain (PDict (parse_context stored))" "json_plain (PDict (parse_context update))"
  shows "map_of (parse_context (PStr (merge_caller_update stored update))) k
    = (if k = ''caller'' then None else if server_key k then map_of (parse_context stored) k else stated update stored k)"
  unfolding merge_caller_update_def parse_with_client_keys [OF assms(1) update_keys_plain [OF assms(2)]]
  by (auto simp: map_add_def facets_map client_part_map update_keys_map [OF assms(2)] split: option.splits)

theorem client_update_exact_witness:
  "map_of (parse_context (PStr (merge_caller_update
       (PDict [(''minted_by'', PStr ''mantle''), (''title'', PStr ''old'')])
       (PDict [(''minted_by'', PStr ''me''), (''title'', PStr ''new''), (''caller'', PDict [(''tag'', PStr ''t'')])])))) ''minted_by''
   = Some (PStr ''mantle'')"
  by (subst client_update_exact) (simp_all add: SERVER_OWNED_KEYS_def MINT_KEYS_def BOOKKEEPING_KEYS_def)

lemma normal_form:
  assumes "json_plain (PDict (parse_context v))"
  defines "out \<equiv> facets_of v @ client_view v"
  shows "with_client_keys (PDict (parse_context v)) (client_view (PDict (parse_context v))) = context_text out"
    "json_plain (PDict out)" "parse_context (PStr (context_text out)) = out"
proof -
  have f: "facets_of (PDict (parse_context v)) = facets_of v" and c: "client_view (PDict (parse_context v)) = client_view v"
    by (simp_all add: facets_of_def client_view_def)
  have k: "client_part (PDict (client_view v)) [] = client_view v"
    by (simp add: client_part_def author_filters)
  have disj: "fst ` set (facets_of v) \<inter> fst ` set (client_view v) = {}"
    using client_keys [of _ _ v] by (auto simp: facets_of_def)
  have pf: "json_plain (PDict (facets_of v))" unfolding facets_of_def by (rule plain_filter [OF assms(1)])
  show p: "json_plain (PDict out)" unfolding out_def by (rule plain_append [OF pf client_view_plain [OF assms(1)] disj])
  have "dmerge (facets_of v) (client_view v) = out"
    unfolding out_def by (rule merge_fresh) (use p in \<open>simp add: out_def\<close>)
  then show "with_client_keys (PDict (parse_context v)) (client_view (PDict (parse_context v))) = context_text out"
    by (simp only: with_client_keys_def f c k)
  show "parse_context (PStr (context_text out)) = out" by (rule parse_dumped [OF p])
qed

lemma normalised_cases:
  assumes "json_plain (PDict (parse_context v))" "map fst (parse_context v) \<noteq> [''_opaque'']"
  shows "normalised v = v \<and> map_of (parse_context v) = map_of (facets_of v @ client_view v)
    \<or> parse_context (normalised v) = facets_of v @ client_view v
      \<and> normalised v = PStr (context_text (facets_of v @ client_view v))"
proof -
  let ?out = "facets_of v @ client_view v"
  note nf = normal_form [OF assms(1)]
  have ld: "py_loads (context_text ?out) = Some (PDict ?out)"
    by (rule py_loads_context [OF nf(2)])
  have "normalised v = (if (case v of PStr _ \<Rightarrow> True | _ \<Rightarrow> False) \<and> dict_same ?out (parse_context v) then v
      else PStr (context_text ?out))"
    by (simp only: normalised_def Let_def nf(1) ld assms(2) if_False option.case pyval.case)
  moreover have "map_of (parse_context v) = map_of ?out" if "dict_same ?out (parse_context v)"
    using dict_same_map_of [OF that] nf(2) assms(1) by simp
  ultimately show ?thesis using nf(3) by (auto split: if_splits)
qed

text \<open>Rewriting a stored context to the form every local write stores keeps every facet and every client key
  as \<open>client_view\<close> read it, leaves no \<open>caller\<close>, and rewriting again changes nothing.\<close>

theorem normalised_exact:
  assumes "json_plain (PDict (parse_context v))" "map fst (parse_context v) \<noteq> [''_opaque'']"
  shows "map_of (parse_context (normalised v)) k
      = (if k = ''caller'' then None else if server_key k then map_of (parse_context v) k else map_of (client_view v) k)
    \<and> normalised (normalised v) = normalised v"
proof (rule conjI)
  show "map_of (parse_context (normalised v)) k
      = (if k = ''caller'' then None else if server_key k then map_of (parse_context v) k else map_of (client_view v) k)"
  proof -
    have "map_of (parse_context (normalised v)) = map_of (facets_of v @ client_view v)"
      using normalised_cases [OF assms] by metis
    then show ?thesis by (auto simp: map_add_def facets_map client_view_map [OF assms(1)] split: option.splits)
  qed
next
  let ?out = "facets_of v @ client_view v"
  show "normalised (normalised v) = normalised v"
    using normalised_cases [OF assms]
  proof (elim disjE conjE)
    assume w: "parse_context (normalised v) = ?out" "normalised v = PStr (context_text ?out)"
    from w(1) have f: "facets_of (normalised v) = facets_of v" and c: "client_part (normalised v) [] = client_view v"
      by (simp_all add: facets_of_def [of "normalised v"] client_part_def author_filters)
    have "map_of ?out ''caller'' = None" by (simp add: map_add_def facets_map client_view_map [OF assms(1)])
    then have "nested_part (parse_context (normalised v)) = []" by (simp add: nested_part_def w(1) dget_def map_add_def)
    then have "client_view (normalised v) = client_view v"
      using c client_view_plain [OF assms(1)] by (simp add: client_view_def [of "normalised v"] client_part_def merge_fresh)
    with f have same: "facets_of (normalised v) @ client_view (normalised v) = ?out" by simp
    have "json_plain (PDict (parse_context (normalised v)))" using normal_form(2) [OF assms(1)] w(1) by simp
    then show ?thesis
    proof (cases "map fst (parse_context (normalised v)) = [''_opaque'']")
      case False
      with normalised_cases [OF \<open>json_plain (PDict (parse_context (normalised v)))\<close> False] same w(2) show ?thesis by metis
    qed (simp add: normalised_def Let_def)
  qed simp
qed

theorem normalised_exact_witness:
  "let v = PDict [(''minted_by'', PStr ''mantle''), (''caller'', PDict [(''tag'', PStr ''t'')])] in
   map_of (parse_context (normalised v)) ''tag'' = Some (PStr ''t'') \<and> normalised (normalised v) = normalised v"
  unfolding Let_def
  using normalised_exact [of "PDict [(''minted_by'', PStr ''mantle''), (''caller'', PDict [(''tag'', PStr ''t'')])]" "''tag''"]
  by (simp add: client_view_map caller_dict_def dget_def SERVER_OWNED_KEYS_def MINT_KEYS_def BOOKKEEPING_KEYS_def)

lemma map_of_take_keys:
  "x \<notin> set ks \<Longrightarrow> map_of (fold (\<lambda>k c. case map_of s k of None \<Rightarrow> c | Some v \<Rightarrow> dset k v c) ks ctx) x = map_of ctx x"
  by (induction ks arbitrary: ctx) (auto simp: map_of_dset split: option.splits)

lemma map_of_rung:
  assumes "k \<notin> set [''provenance'', ''provenance_history'']"
  shows "map_of (stamp_rung E claim ctx) k = map_of ctx k"
  unfolding stamp_rung_def Let_def by (split option.split) (intro conjI allI impI refl map_of_take_keys [OF assms])

lemma facet_keys: "server_key ''minted_by''" "server_key ''minted''" "server_key ''placement''" "server_key ''addressing''" "server_key ''screen''"
  by (simp_all add: SERVER_OWNED_KEYS_def MINT_KEYS_def)

lemma mint_base_server: "\<not> server_key k \<Longrightarrow> map_of (mint_base E st aid ct content cid co lim) k = None"
proof -
  have "list_all (\<lambda>(k, _). server_key k) (mint_base E st aid ct content cid co lim)"
    by (simp add: mint_base_def opt_facet_def facet_keys)
  moreover assume "\<not> server_key k"
  ultimately show ?thesis unfolding list_all_iff map_of_eq_None_iff by force
qed

text \<open>(C40) A mint: every server-owned key but the rung and the enrichment is the store's own observation, whatever the
  caller sent; every other key is the caller's. No caller writes a facet, and none of its keys is lost.\<close>

theorem mint_owns_facets:
  assumes "json_plain (PDict caller)" "k \<notin> set [''provenance'', ''provenance_history'']" "k \<noteq> ''enriched''"
  shows "map_of (mint_context E st aid ct content cid co caller lim) k =
    (if server_key k then map_of (mint_base E st aid ct content cid co lim) k else map_of caller k)"
proof -
  let ?base = "mint_base E st aid ct content cid co lim" and ?c = "client_part (PDict caller) []"
  have d: "distinct (map fst ?c)" using plain_client_part [of "PDict caller" "[]"] assms(1) by simp
  have "map_of (mint_context E st aid ct content cid co caller lim) k = map_of (dmerge ?base ?c) k"
    unfolding mint_context_def Let_def using map_of_rung [OF assms(2)] assms(3) by (auto simp: map_of_dset split: option.splits)
  then show ?thesis using mint_base_server [of k E st aid ct content cid co lim]
    by (simp add: map_of_merge [OF d] client_part_map split: option.splits)
qed

definition sample_mint_env :: mint_env where
  "sample_mint_env = \<lparr> me_now = ''now'', me_acting = None, me_scope = None, me_sha256 = (\<lambda>s. s),
     me_rung = (\<lambda>d t b. Some [(''provenance'', PStr ''unknown'')]), me_enrich = (\<lambda>d. None) \<rparr>"

theorem mint_owns_facets_witness:
  "map_of (mint_context sample_mint_env (empty_lattice ''o'' 4) ''a'' ''text/plain'' (Some ''hi'') [] []
     [(''minted_by'', PStr ''me''), (''title'', PStr ''t'')] 64) ''minted_by'' = Some (PStr ''mantle.mint_context'')"
  by (subst mint_owns_facets) (simp_all add: mint_base_def SERVER_OWNED_KEYS_def MINT_KEYS_def)

text \<open>The cap of the screen is never reported: the siblings are asked for with the very bound they are
  then compared with.\<close>

theorem capped_screen_unreported:
  assumes "0 < lim"
  shows "''siblings_capped'' \<notin> set (map fst (mint_screen st aid cid co lim))"
proof -
  have "length sibs \<le> lim" if "siblings st cid lim = Some sibs" for sibs
  proof -
    from that obtain es where "edges_of_full st cid None Out (max 1 (int lim)) True = Inr es"
      "sibs = filter (\<lambda>d. d \<noteq> []) (map e_dst es)"
      by (auto simp: siblings_def split: if_splits sum.splits)
    moreover from this(1) assms have "length es \<le> lim"
      by (auto simp: edges_of_full_def Let_def max_def split: if_splits)
    ultimately show ?thesis using length_filter_le [of "\<lambda>d. d \<noteq> []" "map e_dst es"] length_map [of e_dst es] by (metis order_trans)
  qed
  then show ?thesis by (auto simp: mint_screen_def Let_def split: option.splits) (metis not_less)+
qed

end
