(* ===== verification/Mesh_Apply.thy ===== *)
theory Mesh_Apply
  imports Merkle Mint_Context
begin

text \<open>
  The consuming half of \<open>mesh/sync.py\<close>: which rows cross the mesh, the operational rows of a node, what an
  inbound batch of documents and edges does to the store, and the local record of concurrent
  authorship that was declined.

  An item of a leaf is a parsed JSON object. An operation that can raise after a committed write returns
  the raised error beside the state it left. The delivery of new documents to a host's sink, which cannot
  change the outcome, is not modelled, nor is a store that is not a lattice.
\<close>

section \<open>Definitions\<close>

definition OP_EXCLUDE :: "string list" where
  "OP_EXCLUDE = [''application/vnd.agience.task+json'', ''application/vnd.agience.mirror-task+json'',
     ''application/vnd.agience.mesh-cursor+json'', ''application/vnd.agience.content-cursor+json'',
     ''application/vnd.agience.shard-done+json'', ''application/vnd.agience.s3sync-cursor+json'',
     ''application/vnd.agience.materialized-marker+json'', ''application/vnd.agience.sensor+json'',
     ''application/x-ember-state'']"

text \<open>\<open>str(v or "")\<close>. The text of a container is only searched for plain markers, for which its JSON text serves.\<close>

definition py_text :: "pyval \<Rightarrow> string" where
  "py_text v =
     (if \<not> truthy v then []
      else (case v of
              PStr s \<Rightarrow> s
            | PInt n \<Rightarrow> int_text n
            | PBool _ \<Rightarrow> ''True''
            | PFloat s \<Rightarrow> s
            | _ \<Rightarrow> dump_value '', '' '': '' False v))"

definition is_replicated :: "pyval \<Rightarrow> bool" where
  "is_replicated content_type =
     (let ct = py_text content_type in
      if ct \<in> set OP_EXCLUDE then False
      else \<not> (starts_with ''application/x-probe'' ct \<or> starts_with ''application/vnd.agience.probe'' ct \<or> substring ''throwaway'' ct))"

definition LOCAL_ORIGIN :: string where "LOCAL_ORIGIN = ''_local''"

definition op_origin :: "string \<Rightarrow> string" where
  "op_origin artifact_id = LOCAL_ORIGIN @ '':'' @ artifact_id"

definition CONSUMED_EDGE_NS :: string where "CONSUMED_EDGE_NS = LOCAL_ORIGIN @ '':edge:''"

definition consumed_edge_origin :: "hashlib \<Rightarrow> string \<Rightarrow> string \<Rightarrow> string \<Rightarrow> string" where
  "consumed_edge_origin H src dst label =
     CONSUMED_EDGE_NS @ hex_text (blake16 H (utf8 (src @ [NUL] @ dst @ [NUL] @ label)))"

definition put_op :: "hashlib \<Rightarrow> doc \<Rightarrow> lattice \<Rightarrow> lattice result" where
  "put_op H doc st =
     (if is_replicated (dget doc ''content_type'') then Inl ValueError
      else rbind (put_artifact H (dset ''_seq'' (PInt 1) (dset ''_origin'' (PStr (op_origin (dtext doc ''id''))) doc)) False False st)
             (\<lambda>(_, st'). Inr st'))"

definition S3SYNC_CT :: string where "S3SYNC_CT = ''application/vnd.agience.s3sync-cursor+json''"

subsection \<open>What an inbound row may be\<close>

definition AUTHORITY_TYPES :: "string list" where
  "AUTHORITY_TYPES = [''+grant+json'', ''grant+json'', ''.grant'', ''vnd.agience.grant'']"

definition confers_authority :: "pyval \<Rightarrow> bool" where
  "confers_authority content_type = list_ex (\<lambda>m. substring m (py_lower (py_text content_type))) AUTHORITY_TYPES"

definition withhold_unverified_authority :: "doc list \<Rightarrow> doc list \<times> nat" where
  "withhold_unverified_authority batch =
     (filter (\<lambda>d. \<not> confers_authority (dget d ''content_type'')) batch,
      length (filter (\<lambda>d. confers_authority (dget d ''content_type'')) batch))"

definition normalise_legacy_state :: "doc \<Rightarrow> doc" where
  "normalise_legacy_state d =
     (if list_ex (\<lambda>s. dget d ''state'' = PStr s) LEGACY_LIVE_STATES then dset ''state'' (PStr STATE_LIVE) d else d)"

definition normalise_context :: "doc \<Rightarrow> doc" where
  "normalise_context d =
     (let ctx = dget d ''context''; parsed = parse_context ctx in
      if ''caller'' \<notin> set (map fst parsed) then d
      else
        (let stored = with_client_keys (PDict parsed) (client_view (PDict parsed)) in
         dset ''context'' (case ctx of PDict _ \<Rightarrow> (case py_loads stored of Some v \<Rightarrow> v | None \<Rightarrow> PNone) | _ \<Rightarrow> PStr stored) d))"

definition new_docs :: "lattice \<Rightarrow> doc list \<Rightarrow> doc list" where
  "new_docs st batch = filter (\<lambda>d. version_of st (dtext d ''id'') = None) batch"

subsection \<open>Consumed rows that carry content\<close>

definition CONSUMED_ID :: string where "CONSUMED_ID = ''mesh.consumed.pending''"
definition CONSUMED_CAP :: nat where "CONSUMED_CAP = 50000"

definition op_row :: "string \<Rightarrow> doc \<Rightarrow> doc" where
  "op_row aid fs = [(''id'', PStr aid), (''content_type'', PStr S3SYNC_CT), (''state'', PStr ''live'')] @ fs"

definition got_doc :: "lattice \<Rightarrow> string \<Rightarrow> doc result" where
  "got_doc st aid = rbind (get_artifact st aid) (\<lambda>d. Inr (case d of None \<Rightarrow> [] | Some d \<Rightarrow> d))"

definition py_list :: "pyval \<Rightarrow> pyval list" where
  "py_list v = (case v of PList vs \<Rightarrow> vs | _ \<Rightarrow> [])"

definition enqueue_consumed :: "hashlib \<Rightarrow> doc list \<Rightarrow> lattice \<Rightarrow> lattice result" where
  "enqueue_consumed H batch st =
     (let ids = map (\<lambda>d. dtext d ''id'')
                  (filter (\<lambda>d. dtext d ''id'' \<noteq> [] \<and> truthy (dget d ''content_ref'') \<and> py_text (dget d ''_origin'') \<notin> {[], st_origin st}) batch) in
      if ids = [] then Inr st
      else rbind (got_doc st CONSUMED_ID) (\<lambda>cur.
        let merged = dedup (py_list (dget cur ''pending'') @ map PStr ids);
            overflow = (truthy (dget cur ''overflow'') \<or> CONSUMED_CAP < length merged);
            merged = (if overflow then take CONSUMED_CAP merged else merged) in
        put_op H (op_row CONSUMED_ID [(''pending'', PList merged), (''n'', PInt (int (length merged))), (''overflow'', PBool overflow)]) st))"

definition consumed_pending :: "lattice \<Rightarrow> (pyval list \<times> bool) result" where
  "consumed_pending st =
     rbind (got_doc st CONSUMED_ID) (\<lambda>d. Inr (py_list (dget d ''pending''), truthy (dget d ''overflow'')))"

definition drain_consumed :: "hashlib \<Rightarrow> string list \<Rightarrow> lattice \<Rightarrow> (nat \<times> lattice) result" where
  "drain_consumed H ids st =
     rbind (got_doc st CONSUMED_ID) (\<lambda>d.
       let p = filter (\<lambda>x. py_text x \<notin> set ids) (py_list (dget d ''pending'')) in
       rbind (put_op H (op_row CONSUMED_ID [(''pending'', PList p), (''n'', PInt (int (length p))),
                (''overflow'', PBool (truthy (dget d ''overflow'') \<and> p \<noteq> []))]) st) (\<lambda>st'.
         Inr (length (remdups ids), st')))"

subsection \<open>Concurrent authorship\<close>

definition DECLINED_ID :: string where "DECLINED_ID = ''mesh.unordered.declined''"
definition DECLINED_CAP :: nat where "DECLINED_CAP = 10000"

definition py_dict :: "pyval \<Rightarrow> doc" where
  "py_dict v = (case v of PDict d \<Rightarrow> d | _ \<Rightarrow> [])"

definition load_declined :: "lattice \<Rightarrow> doc result" where
  "load_declined st = rbind (got_doc st DECLINED_ID) (\<lambda>d. Inr (py_dict (dget d ''seen'')))"

text \<open>\<open>isinstance(v, int)\<close> for a sequence number; a boolean, which Python counts as an integer, is none.\<close>

definition py_is_int :: "pyval \<Rightarrow> bool" where
  "py_is_int v = (case v of PInt _ \<Rightarrow> True | _ \<Rightarrow> False)"

definition is_unordered :: "lattice \<Rightarrow> doc \<Rightarrow> bool" where
  "is_unordered st d =
     (case dget d ''_origin'' of
        PStr origin \<Rightarrow>
          py_is_int (dget d ''_seq'')
          \<and> (case version_of st (dtext d ''id'') of
               None \<Rightarrow> False
             | Some (o', n') \<Rightarrow> compare_version (PStr origin) (dget d ''_seq'') (PStr o') (PInt n') = UNORDERED)
      | _ \<Rightarrow> False)"

definition declined_row :: "doc \<Rightarrow> doc \<Rightarrow> doc" where
  "declined_row seen newly =
     (let merged = dmerge seen newly;
          overflow = DECLINED_CAP < length merged;
          merged = (if overflow then map (\<lambda>k. (k, dget merged k)) (take DECLINED_CAP (sort (map fst merged))) else merged) in
      op_row DECLINED_ID [(''seen'', PDict merged), (''n'', PInt (int (length merged))), (''truncated'', PBool overflow),
        (''note'', PStr ''unordered concurrent authorship; no order was synthesized'')])"

definition split_unordered :: "hashlib \<Rightarrow> doc list \<Rightarrow> lattice \<Rightarrow> (doc list \<times> nat \<times> lattice) result" where
  "split_unordered H batch st =
     rbind (load_declined st) (\<lambda>seen.
       let keep = filter (\<lambda>d. \<not> is_unordered st d) batch;
           newly = dict_of (map (\<lambda>d. (dtext d ''id'', PList [dget d ''_origin'', dget d ''_seq''])) (filter (is_unordered st) batch)) in
       if newly = [] then Inr (keep, 0, st)
       else rbind (put_op H (declined_row seen newly) st) (\<lambda>st'. Inr (keep, length newly, st')))"

definition unordered_report :: "lattice \<Rightarrow> (nat \<times> bool \<times> string list) result" where
  "unordered_report st =
     rbind (got_doc st DECLINED_ID) (\<lambda>d.
       let seen = py_dict (dget d ''seen'') in Inr (length seen, truthy (dget d ''truncated''), take 20 (sort (map fst seen))))"

subsection \<open>Applying a batch\<close>

record apply_stats =
  as_new :: nat
  as_reapplied :: nat
  as_refused :: nat

definition incoming :: "doc list \<Rightarrow> doc list" where
  "incoming items = filter (\<lambda>d. dtext d ''id'' \<noteq> [] \<and> is_replicated (dget d ''content_type'')) items"

definition applied_stats :: "doc list \<Rightarrow> lattice \<Rightarrow> apply_stats" where
  "applied_stats items st =
     (case withhold_unverified_authority (incoming items) of
        (batch, refused) \<Rightarrow>
          \<lparr> as_new = length (new_docs st batch), as_reapplied = length batch - length (new_docs st batch), as_refused = refused \<rparr>)"

definition apply_artifacts :: "hashlib \<Rightarrow> doc list \<Rightarrow> lattice \<Rightarrow> (py_error + nat) \<times> lattice" where
  "apply_artifacts H items st =
     (case withhold_unverified_authority (incoming items) of
        (batch, refused) \<Rightarrow>
          if batch = [] then (Inr refused, st)
          else
            (case split_unordered H batch st of
               Inl e \<Rightarrow> (Inl e, st)
             | Inr (batch, declined, st) \<Rightarrow>
                 if batch = [] then (Inr declined, st)
                 else
                   (let batch = map (\<lambda>d. normalise_context (normalise_legacy_state d)) batch in
                    case put_many H batch 500 False KeepLocal st of
                      (Inl e, st) \<Rightarrow> (Inl e, st)
                    | (Inr written, st) \<Rightarrow>
                        if written < length batch then (Inl RuntimeError, st)
                        else
                          (case enqueue_consumed H batch st of
                             Inl e \<Rightarrow> (Inl e, st)
                           | Inr st \<Rightarrow> (Inr (written + refused + declined), st)))))"

definition edge_item :: "doc \<Rightarrow> edge_in result" where
  "edge_item e =
     (let label = (if truthy (dget e ''label'') then py_text (dget e ''label'') else ''link'') in
      case dget e ''props'' of
        PDict p \<Rightarrow> Inr (dtext e ''f'', dtext e ''t'', label, p)
      | v \<Rightarrow> if truthy v then Inl TypeError else Inr (dtext e ''f'', dtext e ''t'', label, []))"

definition stamp_edge :: "hashlib \<Rightarrow> string \<Rightarrow> edge_in \<Rightarrow> edge_in" where
  "stamp_edge H me e =
     (case e of (src, dst, label, p) \<Rightarrow>
        (case dget p ''_origin'' of
           PStr o' \<Rightarrow>
             if o' \<noteq> [] \<and> o' \<noteq> me \<and> py_is_int (dget p ''_seq'') then e
             else (src, dst, label, dset ''_seq'' (PInt 1) (dset ''_origin'' (PStr (consumed_edge_origin H src dst label)) p))
         | _ \<Rightarrow> (src, dst, label, dset ''_seq'' (PInt 1) (dset ''_origin'' (PStr (consumed_edge_origin H src dst label)) p))))"

fun edge_items :: "doc list \<Rightarrow> edge_in list result" where
  "edge_items [] = Inr []"
| "edge_items (e # es) =
     (if dtext e ''f'' = [] \<or> dtext e ''t'' = [] then edge_items es
      else rbind (edge_item e) (\<lambda>x. rbind (edge_items es) (\<lambda>xs. Inr (x # xs))))"

definition apply_edges :: "hashlib \<Rightarrow> doc list \<Rightarrow> lattice \<Rightarrow> (py_error + nat) \<times> lattice" where
  "apply_edges H items st =
     (case edge_items items of
        Inl e \<Rightarrow> (Inl e, st)
      | Inr es \<Rightarrow>
          if es = [] then (Inr 0, st)
          else
            (let stamped = map (stamp_edge H (st_origin st)) es in
             case add_edges H 500 False stamped st of
               (Inl e, st) \<Rightarrow> (Inl e, st)
             | (Inr handled, st) \<Rightarrow> if handled < length stamped then (Inl RuntimeError, st) else (Inr (length stamped), st)))"

section \<open>What one write leaves alone\<close>

definition same_env :: "lattice \<Rightarrow> lattice \<Rightarrow> bool" where
  "same_env s t = (doc_fault t = doc_fault s \<and> st_origin t = st_origin s)"

lemma same_env_refl [simp]: "same_env s s"
  by (simp add: same_env_def)

lemma same_env_trans: "same_env s t \<Longrightarrow> same_env t u \<Longrightarrow> same_env s u"
  by (simp add: same_env_def)

lemma env_basic [simp]:
  "doc_fault (bump n x st) = doc_fault st" "st_origin (bump n x st) = st_origin st"
  "doc_fault (xor_leaf l v st) = doc_fault st" "st_origin (xor_leaf l v st) = st_origin st"
  "doc_fault (vacate og st) = doc_fault st" "st_origin (vacate og st) = st_origin st"
  "doc_fault (st_observe og k st) = doc_fault st" "st_origin (st_observe og k st) = st_origin st"
  by (simp_all add: bump_def xor_leaf_def vacate_def st_observe_def)

lemma env_bump_all: "same_env st (bump_all ds st)"
proof (unfold bump_all_def, induction ds arbitrary: st)
  case (Cons d ds)
  then show ?case by (cases d) (use same_env_trans in \<open>fastforce simp: same_env_def\<close>)
qed simp

lemma env_write_edge: "write_edge H a b l ps og n st = Inr st' \<Longrightarrow> same_env st st'"
  by (auto simp: write_edge_def Let_def rbind_eq_Inr same_env_def split: option.splits)

lemma env_add_one: "add_one H e stamp st = Inr st' \<Longrightarrow> same_env st st'"
proof -
  assume a: "add_one H e stamp st = Inr st'"
  obtain src dst label props where e: "e = (src, dst, label, props)" by (cases e)
  have "same_env st (snd (st_allocate st))" by (simp add: st_allocate_def same_env_def Let_def)
  moreover have "same_env st (st_observe og n st)" for og n by (simp add: same_env_def)
  ultimately show ?thesis using a env_write_edge same_env_trans
    by (auto simp: add_one_def e same_env_def Let_def split: if_splits sum.splits prod.splits pyval.splits option.splits version_order.splits)
qed

lemma env_sync_task: "sync_task aid old new ct st = Inr st' \<Longrightarrow> same_env st st'"
  by (auto simp: sync_task_def Let_def same_env_def rbind_eq_Inr split: option.splits if_splits)

lemma env_place: "place H d st = Inr st' \<Longrightarrow> same_env st st'"
  by (auto simp: place_def Let_def same_env_def dest: env_add_one split: if_splits sum.splits)

lemma env_write_row: "write_row H doc og n st = Inr (d, st') \<Longrightarrow> same_env st st'"
proof -
  assume "write_row H doc og n st = Inr (d, st')"
  then obtain pdoc oct row s1 where s1: "sync_task (dtext doc ''id'') pdoc (Some d) (v_ct row)
        (recount pdoc d oct (v_ct row) (upsert_vertex H (dtext doc ''id'') row st)) = Inr s1"
      and pl: "place H d (index_lists (dtext doc ''id'') (Some d) (v_ct row) (map_of (vertices st) (dtext doc ''id'') \<noteq> None) s1) = Inr st'"
    by (auto simp: write_row_def Let_def rbind_eq_Inr)
  have "same_env st (upsert_vertex H (dtext doc ''id'') row st)"
    by (auto simp: upsert_vertex_def Let_def same_env_def split: option.splits)
  moreover have "same_env s (recount a b c e s)" for a b c e s
    using env_bump_all [of s] env_bump_all [of "bump c_vertex_total 1 s"] by (simp add: recount_def same_env_def)
  moreover have "same_env s (index_lists a b c e s)" for a b c e s by (simp add: index_lists_def same_env_def Let_def)
  ultimately show ?thesis using env_sync_task [OF s1] env_place [OF pl] by (metis same_env_trans)
qed

section \<open>Consuming one document\<close>

lemma consumed_one:
  assumes "put_one H d False KeepLocal st = Inr st'"
  obtains og n where "dget d ''_origin'' = PStr og" "dget d ''_seq'' = PInt n"
    "vertices st' = vertices st \<and> (\<exists>r. map_of (vertices st) (dtext d ''id'') = Some r \<and> (v_origin r = og \<longrightarrow> n \<le> v_seq r))
     \<or> (\<exists>row. vertices st' = AList.update (dtext d ''id'') row (vertices st) \<and> v_origin row = og \<and> v_seq row = n
          \<and> v_doc row = stored_doc (doc_of st (dtext d ''id'')) d og n
          \<and> (\<forall>r. map_of (vertices st) (dtext d ''id'') = Some r \<longrightarrow> v_origin r = og \<and> v_seq r < n))"
proof (rule put_one_foreign_cases [OF assms])
  fix og n
  assume v: "dget d ''_origin'' = PStr og" "dget d ''_seq'' = PInt n"
    and c: "(lww st (dtext d ''id'') og n \<in> {OLDER, SAME} \<and> st' = st_observe og n st)
     \<or> (lww st (dtext d ''id'') og n = UNORDERED \<and> KeepLocal = KeepLocal \<and> st' = bump ''conflict:unordered'' 1 (st_observe og n st))
     \<or> ((lww st (dtext d ''id'') og n = NEWER \<or> lww st (dtext d ''id'') og n = UNORDERED \<and> KeepLocal = TakeRemote)
         \<and> (\<exists>x. write_row H d og n (st_observe og n st) = Inr (x, st')))"
  show thesis
  proof (rule that [OF v])
    show "vertices st' = vertices st \<and> (\<exists>r. map_of (vertices st) (dtext d ''id'') = Some r \<and> (v_origin r = og \<longrightarrow> n \<le> v_seq r))
     \<or> (\<exists>row. vertices st' = AList.update (dtext d ''id'') row (vertices st) \<and> v_origin row = og \<and> v_seq row = n
          \<and> v_doc row = stored_doc (doc_of st (dtext d ''id'')) d og n
          \<and> (\<forall>r. map_of (vertices st) (dtext d ''id'') = Some r \<longrightarrow> v_origin r = og \<and> v_seq r < n))"
    proof (cases "lww st (dtext d ''id'') og n = NEWER")
      case True
      with c obtain x where w: "write_row H d og n (st_observe og n st) = Inr (x, st')" by auto
      have "v_origin r = og \<and> v_seq r < n" if "map_of (vertices st) (dtext d ''id'') = Some r" for r
        using True that by (auto simp: lww_def compare_version_def split: if_splits)
      moreover obtain row where "vertices st' = AList.update (dtext d ''id'') row (vertices st)" "v_origin row = og" "v_seq row = n"
          "v_doc row = stored_doc (doc_of st (dtext d ''id'')) d og n"
        by (rule write_row_vertices [OF w]) (simp add: doc_of_def)
      ultimately show ?thesis by blast
    next
      case False
      with c have "vertices st' = vertices st" by auto
      moreover from False have "\<exists>r. map_of (vertices st) (dtext d ''id'') = Some r \<and> (v_origin r = og \<longrightarrow> n \<le> v_seq r)"
        by (auto simp: lww_def compare_version_def split: option.splits if_splits)
      ultimately show ?thesis by blast
    qed
  qed
qed

lemma env_put_one: "put_one H d False pol st = Inr st' \<Longrightarrow> same_env st st'"
  by (rule put_one_foreign_cases, assumption) (auto dest!: env_write_row simp: same_env_def)

text \<open>How the rows of a state relate to those of a later one: nothing appears that \<open>P\<close> does not allow, and no
  row outside \<open>X\<close> moves backwards or changes its author.\<close>

definition came_from :: "(string \<Rightarrow> vrow \<Rightarrow> bool) \<Rightarrow> lattice \<Rightarrow> lattice \<Rightarrow> bool" where
  "came_from P s t = (\<forall>aid r. map_of (vertices t) aid = Some r \<longrightarrow> map_of (vertices s) aid = Some r \<or> P aid r)"

definition advances :: "string set \<Rightarrow> lattice \<Rightarrow> lattice \<Rightarrow> bool" where
  "advances X s t = (\<forall>aid r. aid \<notin> X \<longrightarrow> map_of (vertices s) aid = Some r \<longrightarrow>
     (\<exists>r'. map_of (vertices t) aid = Some r' \<and> v_origin r' = v_origin r \<and> v_seq r \<le> v_seq r'))"

lemma came_from_refl [simp]: "came_from P s s"
  by (simp add: came_from_def)

lemma came_from_trans: "came_from P s t \<Longrightarrow> came_from P t u \<Longrightarrow> came_from P s u"
  unfolding came_from_def by blast

lemma advances_refl [simp]: "advances X s s"
  by (auto simp: advances_def)

lemma advances_trans: "advances X s t \<Longrightarrow> advances X t u \<Longrightarrow> advances X s u"
  unfolding advances_def by (metis order_trans)

lemma came_from_vertices: "vertices s = vertices t \<Longrightarrow> came_from P s t"
  by (simp add: came_from_def)

definition version_held :: "doc \<Rightarrow> lattice \<Rightarrow> bool" where
  "version_held d st = (\<exists>r. map_of (vertices st) (dtext d ''id'') = Some r
     \<and> (dget d ''_origin'' = PStr (v_origin r) \<longrightarrow> (\<exists>n. dget d ''_seq'' = PInt n \<and> n \<le> v_seq r)))"

lemma version_held_advances:
  assumes "version_held d s" "advances X s t" "dtext d ''id'' \<notin> X"
  shows "version_held d t"
proof -
  from assms(1) obtain r where r: "map_of (vertices s) (dtext d ''id'') = Some r"
    "dget d ''_origin'' = PStr (v_origin r) \<longrightarrow> (\<exists>n. dget d ''_seq'' = PInt n \<and> n \<le> v_seq r)" by (auto simp: version_held_def)
  with assms(2,3) obtain r' where "map_of (vertices t) (dtext d ''id'') = Some r'" "v_origin r' = v_origin r" "v_seq r \<le> v_seq r'"
    unfolding advances_def by blast
  with r(2) show ?thesis by (force simp: version_held_def)
qed

lemma consumed_one_advances: "put_one H d False KeepLocal st = Inr st' \<Longrightarrow> advances X st st'"
  by (rule consumed_one, assumption) (auto simp: advances_def)

lemma consumed_one_held: "put_one H d False KeepLocal st = Inr st' \<Longrightarrow> version_held d st'"
  by (rule consumed_one, assumption) (auto simp: version_held_def)

lemma consumed_one_from:
  "put_one H d False KeepLocal st = Inr st' \<Longrightarrow>
   came_from (\<lambda>aid r. aid = dtext d ''id'' \<and> dget d ''_origin'' = PStr (v_origin r) \<and> dget (v_doc r) ''content_type'' = dget d ''content_type'') st st'"
  by (rule consumed_one, assumption)
    (auto simp: came_from_def dget_stored_doc TIME_CLAIM_KEY_def split: if_splits)

section \<open>Consuming a batch\<close>

text \<open>The contract of a bulk writer: each document is a step, a step delivers its document, and no later step
  takes a delivery back.\<close>

locale delivery =
  fixes step :: "'d \<Rightarrow> 's \<Rightarrow> 's \<Rightarrow> bool"
    and R :: "'s \<Rightarrow> 's \<Rightarrow> bool"
    and D :: "'d \<Rightarrow> 's \<Rightarrow> bool"
  assumes R_refl: "R s s"
    and R_trans: "R s t \<Longrightarrow> R t u \<Longrightarrow> R s u"
    and step_R: "step d s s' \<Longrightarrow> R s s'"
    and step_D: "step d s s' \<Longrightarrow> D d s'"
    and D_R: "D d s \<Longrightarrow> R s t \<Longrightarrow> D d t"
begin

primrec run :: "'d list \<Rightarrow> 's \<Rightarrow> 's \<Rightarrow> bool" where
  "run [] s t = (t = s)"
| "run (d # ds) s t = (\<exists>u. step d s u \<and> run ds u t)"

lemma run_R: "run ds s t \<Longrightarrow> R s t"
  by (induction ds arbitrary: s) (auto intro: R_refl R_trans step_R)

lemma run_D: "run ds s t \<Longrightarrow> d \<in> set ds \<Longrightarrow> D d t"
  by (induction ds arbitrary: s) (auto intro: D_R step_D run_R)

lemma run_append: "run (xs @ ys) s t \<longleftrightarrow> (\<exists>u. run xs s u \<and> run ys u t)"
  by (induction xs arbitrary: s) auto

end

abbreviation consume_step :: "hashlib \<Rightarrow> doc \<Rightarrow> lattice \<Rightarrow> lattice \<Rightarrow> bool" where
  "consume_step H d s s' \<equiv> put_one H d False KeepLocal s = Inr s'"

interpretation cons: delivery "consume_step H" "advances {}" version_held for H
  by unfold_locales
    (auto intro: advances_trans consumed_one_advances consumed_one_held version_held_advances [where X = "{}"])

lemma put_chunk_loop_run:
  "put_chunk_loop H False KeepLocal ds h k l st = (h', k', l', st') \<Longrightarrow>
   h \<le> h' \<and> h' \<le> h + length ds \<and> (h' = h + length ds \<longrightarrow> cons.run H ds st st')"
proof (induction ds arbitrary: h k l st)
  case (Cons d ds)
  show ?case
  proof (cases "put_one H d False KeepLocal st")
    case (Inl e)
    with Cons.prems have "put_chunk_loop H False KeepLocal ds h k (l \<or> snd e) st = (h', k', l', st')" by (cases e) simp
    from Cons.IH [OF this] show ?thesis by simp
  next
    case (Inr s1)
    with Cons.prems have "put_chunk_loop H False KeepLocal ds (Suc h) k l s1 = (h', k', l', st')" by simp
    from Cons.IH [OF this] Inr show ?thesis by auto
  qed
qed simp

lemma put_chunks_run:
  "put_chunks H False KeepLocal cs st = (Inr h, st') \<Longrightarrow>
   h \<le> length (concat cs) \<and> (h = length (concat cs) \<longrightarrow> cons.run H (concat cs) st st')"
proof (induction cs arbitrary: st h)
  case (Cons c cs)
  from Cons.prems obtain h1 s1 h2 where c: "put_chunk H False KeepLocal c st = Inr (h1, s1)"
      and cs: "put_chunks H False KeepLocal cs s1 = (Inr h2, st')" and h: "h = h1 + h2"
    by (auto split: sum.splits prod.splits)
  from c have "h1 \<le> length c \<and> (h1 = length c \<longrightarrow> cons.run H c st s1)"
    by (auto simp: put_chunk_def dest!: put_chunk_loop_run split: prod.splits if_splits)
  moreover from Cons.IH [OF cs] have "h2 \<le> length (concat cs) \<and> (h2 = length (concat cs) \<longrightarrow> cons.run H (concat cs) s1 st')" .
  ultimately show ?case using h by (auto simp: cons.run_append)
qed simp

lemma put_many_run:
  "put_many H docs b False KeepLocal st = (Inr h, st') \<Longrightarrow> length docs \<le> h \<Longrightarrow> cons.run H docs st st' \<and> h = length docs"
  unfolding put_many_def using put_chunks_run [of H "chunks (b - 1) docs" st h st'] by auto

text \<open>Whether or not every document was handled, what the batch left behind is the work of its own steps.\<close>

lemma put_chunk_loop_rel:
  assumes "\<And>s. R s s" "\<And>s t u. R s t \<Longrightarrow> R t u \<Longrightarrow> R s u"
  shows "(\<And>d s s'. d \<in> set ds \<Longrightarrow> consume_step H d s s' \<Longrightarrow> R s s') \<Longrightarrow>
    put_chunk_loop H False KeepLocal ds h k l st = (h', k', l', st') \<Longrightarrow> R st st'"
proof (induction ds arbitrary: h k l st)
  case (Cons d ds)
  show ?case
  proof (cases "put_one H d False KeepLocal st")
    case (Inl e)
    with Cons.prems(2) have "put_chunk_loop H False KeepLocal ds h k (l \<or> snd e) st = (h', k', l', st')" by (cases e) simp
    then show ?thesis by (rule Cons.IH [rotated]) (use Cons.prems(1) in auto)
  next
    case (Inr s1)
    with Cons.prems(2) have "put_chunk_loop H False KeepLocal ds (Suc h) k l s1 = (h', k', l', st')" by simp
    then have "R s1 st'" by (rule Cons.IH [rotated]) (use Cons.prems(1) in auto)
    then show ?thesis using assms(2) Cons.prems(1) [of d st s1] Inr by auto
  qed
qed (simp add: assms)

lemma put_chunks_rel:
  assumes "\<And>s. R s s" "\<And>s t u. R s t \<Longrightarrow> R t u \<Longrightarrow> R s u"
  shows "(\<And>d s s'. d \<in> set (concat cs) \<Longrightarrow> consume_step H d s s' \<Longrightarrow> R s s') \<Longrightarrow>
    put_chunks H False KeepLocal cs st = (r, st') \<Longrightarrow> R st st'"
proof (induction cs arbitrary: st r)
  case (Cons c cs)
  show ?case
  proof (cases "put_chunk H False KeepLocal c st")
    case (Inl e)
    with Cons.prems(2) show ?thesis by (simp add: assms)
  next
    case (Inr p)
    obtain h1 s1 where p: "p = (h1, s1)" by (cases p)
    with Inr obtain k l where "put_chunk_loop H False KeepLocal c 0 False False st = (h1, k, l, s1)"
      by (auto simp: put_chunk_def split: prod.splits if_splits)
    then have "R st s1" by (rule put_chunk_loop_rel [OF assms, rotated -1]) (use Cons.prems(1) in auto)
    moreover obtain r' where "put_chunks H False KeepLocal cs s1 = (r', st')"
      using Cons.prems(2) Inr p by (auto split: prod.splits sum.splits)
    then have "R s1 st'" by (rule Cons.IH [rotated]) (use Cons.prems(1) in auto)
    ultimately show ?thesis using assms(2) by blast
  qed
qed (simp add: assms)

lemma put_many_rel:
  assumes "\<And>s. R s s" "\<And>s t u. R s t \<Longrightarrow> R t u \<Longrightarrow> R s u" "\<And>d s s'. d \<in> set docs \<Longrightarrow> consume_step H d s s' \<Longrightarrow> R s s'"
    "put_many H docs b False KeepLocal st = (r, st')"
  shows "R st st'"
  by (rule put_chunks_rel [of R, OF assms(1,2) _ assms(4) [unfolded put_many_def]]) (use assms(3) in auto)

section \<open>Operational rows\<close>

lemma put_op_effect:
  assumes "put_op H doc st = Inr st'"
  obtains row where "vertices st' = AList.update (dtext doc ''id'') row (vertices st)" "v_origin row = op_origin (dtext doc ''id'')"
    "v_seq row = 1" "dget (v_doc row) ''content_type'' = dget doc ''content_type''" "same_env st st'"
proof -
  let ?o = "op_origin (dtext doc ''id'')"
  let ?d = "dset ''_seq'' (PInt 1) (dset ''_origin'' (PStr ?o) doc)"
  have id: "dtext ?d ''id'' = dtext doc ''id''" and ct: "dget ?d ''content_type'' = dget doc ''content_type''"
    and v: "dget ?d ''_origin'' = PStr ?o" "dget ?d ''_seq'' = PInt 1" and o: "?o \<noteq> []"
    by (simp_all add: dtext_def op_origin_def LOCAL_ORIGIN_def)
  from assms obtain x where "write_row H ?d ?o 1 (st_observe ?o 1 st) = Inr (x, st')"
    by (auto simp: put_op_def put_artifact_def cut_version_def version_for_def rbind_eq_Inr v o split: if_splits)
  note w = this
  have env: "same_env st st'" using env_write_row [OF w] by (simp add: same_env_def)
  have ct': "dget (stored_doc q ?d ?o 1) ''content_type'' = dget doc ''content_type''" for q
    using ct dget_stored_doc [of "''content_type''" q ?d ?o 1] by (simp add: TIME_CLAIM_KEY_def)
  obtain row where "vertices st' = AList.update (dtext ?d ''id'') row (vertices (st_observe ?o 1 st))" "v_doc row = x"
      "v_origin row = ?o" "v_seq row = 1" "x = stored_doc (doc_of (st_observe ?o 1 st) (dtext ?d ''id'')) ?d ?o 1"
    by (rule write_row_vertices [OF w])
  then show thesis using env id ct' by (intro that [of row]) simp_all
qed

lemma put_op_ok:
  assumes "plain_doc doc" "\<not> is_replicated (dget doc ''content_type'')"
  shows "\<exists>st'. put_op H doc st = Inr st'"
proof -
  let ?o = "op_origin (dtext doc ''id'')"
  let ?d = "dset ''_seq'' (PInt 1) (dset ''_origin'' (PStr ?o) doc)"
  have "plain_doc ?d" using assms(1) by (simp add: plain_doc_def dtext_def)
  then obtain x st' where "write_row H ?d ?o 1 (st_observe ?o 1 st) = Inr (x, st')" using write_row_succeeds by blast
  moreover have "?o \<noteq> []" by (simp add: op_origin_def LOCAL_ORIGIN_def)
  moreover have "dtext ?d ''id'' \<noteq> []" using assms(1) by (simp add: plain_doc_def dtext_def)
  ultimately have "put_op H doc st = Inr st'"
    using assms(2) by (simp add: put_op_def put_artifact_def cut_version_def version_for_def dtext_def)
  then show ?thesis ..
qed

lemma s3sync_local: "\<not> is_replicated (PStr S3SYNC_CT)" "\<not> confers_authority (PStr S3SYNC_CT)"
  by code_simp+

definition op_doc :: "doc \<Rightarrow> bool" where
  "op_doc d = (plain_doc d \<and> dget d ''content_type'' = PStr S3SYNC_CT \<and> dtext d ''id'' \<in> {DECLINED_ID, CONSUMED_ID})"

lemma op_doc_rows:
  "op_doc (declined_row seen newly)" "op_doc (op_row CONSUMED_ID [(''pending'', a), (''n'', b), (''overflow'', c)])"
  by (simp_all add: op_doc_def declined_row_def op_row_def plain_doc_def dtext_def dget_def Let_def DECLINED_ID_def CONSUMED_ID_def)

lemma op_doc_put: "op_doc d \<Longrightarrow> \<exists>st'. put_op H d st = Inr st'"
  by (simp add: op_doc_def put_op_ok s3sync_local)

section \<open>Applying a batch\<close>

abbreviation admitted :: "doc list \<Rightarrow> doc list" where
  "admitted items \<equiv> fst (withhold_unverified_authority (incoming items))"

abbreviation norm_doc :: "doc \<Rightarrow> doc" where
  "norm_doc d \<equiv> normalise_context (normalise_legacy_state d)"

lemma norm_fields: "k \<noteq> ''state'' \<Longrightarrow> k \<noteq> ''context'' \<Longrightarrow> dget (norm_doc d) k = dget d k"
  by (simp add: normalise_context_def normalise_legacy_state_def Let_def)

lemma norm_doc_same [simp]:
  "dtext (norm_doc d) ''id'' = dtext d ''id''" "dget (norm_doc d) ''_origin'' = dget d ''_origin''" "dget (norm_doc d) ''_seq'' = dget d ''_seq''"
  "dget (norm_doc d) ''content_type'' = dget d ''content_type''"
  by (simp_all add: dtext_def norm_fields)

lemma norm_doc_plain: "plain_doc (norm_doc d) = plain_doc d"
  by (simp add: plain_doc_def dtext_def norm_fields)

lemma norm_doc_held [simp]: "version_held (norm_doc d) st = version_held d st"
  by (simp add: version_held_def)

lemma enqueue_cases:
  assumes "enqueue_consumed H batch st = Inr st'"
  shows "st' = st \<or> (\<exists>d. op_doc d \<and> put_op H d st = Inr st')"
  using assms op_doc_rows(2) by (auto simp: enqueue_consumed_def Let_def rbind_eq_Inr split: if_splits)

lemma split_cases:
  assumes "split_unordered H batch st = Inr (keep, n, st')"
  shows "keep = filter (\<lambda>d. \<not> is_unordered st d) batch \<and> (st' = st \<or> (\<exists>d. op_doc d \<and> put_op H d st = Inr st'))"
  using assms op_doc_rows(1) by (auto simp: split_unordered_def Let_def rbind_eq_Inr split: if_splits)

lemma apply_run:
  assumes "admitted items \<noteq> []" "split_unordered H (admitted items) st = Inr (keep, n, s1)" "keep \<noteq> []"
    "put_many H (map norm_doc keep) 500 False KeepLocal s1 = (r2, s2)"
  shows "apply_artifacts H items st = (case r2 of Inl e \<Rightarrow> (Inl e, s2) | Inr w \<Rightarrow>
      if w < length keep then (Inl RuntimeError, s2)
      else (case enqueue_consumed H (map norm_doc keep) s2 of Inl e \<Rightarrow> (Inl e, s2)
        | Inr s3 \<Rightarrow> (Inr (w + snd (withhold_unverified_authority (incoming items)) + n), s3)))"
  using assms by (simp add: apply_artifacts_def withhold_unverified_authority_def Let_def split: sum.split)

lemma apply_artifacts_rel:
  assumes "\<And>s. R s s" "\<And>s t u. R s t \<Longrightarrow> R t u \<Longrightarrow> R s u"
    "\<And>d s s'. op_doc d \<Longrightarrow> put_op H d s = Inr s' \<Longrightarrow> R s s'"
    "\<And>d s s'. d \<in> set (admitted items) \<Longrightarrow> consume_step H (norm_doc d) s s' \<Longrightarrow> R s s'"
    "apply_artifacts H items st = (r, st')"
  shows "R st st'"
proof (cases "admitted items = [] \<or> (\<exists>e. split_unordered H (admitted items) st = Inl e)")
  case True
  with assms(5) have "st' = st" by (auto simp: apply_artifacts_def withhold_unverified_authority_def split: if_splits)
  with assms(1) show ?thesis by simp
next
  case False
  then obtain keep n s1 where sp: "split_unordered H (admitted items) st = Inr (keep, n, s1)"
    by (cases "split_unordered H (admitted items) st") auto
  have R1: "R st s1" using split_cases [OF sp] assms(1,3) by blast
  show ?thesis
  proof (cases "keep = []")
    case True
    with assms(5) False sp have "st' = s1" by (auto simp: apply_artifacts_def withhold_unverified_authority_def)
    with R1 show ?thesis by simp
  next
    case nonempty: False
    obtain r2 s2 where pm: "put_many H (map norm_doc keep) 500 False KeepLocal s1 = (r2, s2)" by fastforce
    have "R s1 s2"
      by (rule put_many_rel [of R, OF assms(1,2) _ pm]) (use split_cases [OF sp] assms(4) in auto)
    moreover have "R s2 st'"
    proof -
      from apply_run [OF _ sp nonempty pm] False have "apply_artifacts H items st = (case r2 of Inl e \<Rightarrow> (Inl e, s2) | Inr w \<Rightarrow>
          if w < length keep then (Inl RuntimeError, s2)
          else (case enqueue_consumed H (map norm_doc keep) s2 of Inl e \<Rightarrow> (Inl e, s2)
            | Inr s3 \<Rightarrow> (Inr (w + snd (withhold_unverified_authority (incoming items)) + n), s3)))" by blast
      then have "st' = s2 \<or> enqueue_consumed H (map norm_doc keep) s2 = Inr st'"
        using assms(5) by (auto split: sum.splits if_splits)
      then show ?thesis using assms(1,3) enqueue_cases [of H "map norm_doc keep" s2 st'] by blast
    qed
    ultimately show ?thesis using R1 assms(2) by blast
  qed
qed


lemma admitted_doc: "d \<in> set (admitted items) \<longleftrightarrow>
   d \<in> set items \<and> dtext d ''id'' \<noteq> [] \<and> is_replicated (dget d ''content_type'') \<and> \<not> confers_authority (dget d ''content_type'')"
  by (auto simp: withhold_unverified_authority_def incoming_def)

lemma op_advances: "op_doc d \<Longrightarrow> put_op H d s = Inr s' \<Longrightarrow> advances {DECLINED_ID, CONSUMED_ID} s s'"
  by (rule put_op_effect, assumption) (auto simp: op_doc_def advances_def)

lemma apply_advances: "apply_artifacts H items st = (r, st') \<Longrightarrow> advances {DECLINED_ID, CONSUMED_ID} st st'"
  by (rule apply_artifacts_rel [where R = "advances {DECLINED_ID, CONSUMED_ID}"])
    (auto intro: advances_trans op_advances consumed_one_advances)

lemma put_many_advances: "put_many H docs b False KeepLocal st = (r, st') \<Longrightarrow> advances X st st'"
  by (rule put_many_rel [where R = "advances X"]) (auto intro: advances_trans consumed_one_advances)

lemma unordered_held: "is_unordered st d \<Longrightarrow> version_held d st"
  by (auto simp: is_unordered_def version_held_def version_of_def compare_version_def py_is_int_def
      split: pyval.splits if_splits option.splits)

lemma apply_delivers:
  assumes ok: "apply_artifacts H items st = (Inr n, st')"
    and d: "d \<in> set (admitted items)" "dtext d ''id'' \<notin> {DECLINED_ID, CONSUMED_ID}"
  shows "version_held d st'"
proof (cases "is_unordered st d")
  case True
  then show ?thesis using version_held_advances [OF unordered_held apply_advances [OF ok] d(2)] by simp
next
  case False
  from d(1) have ne: "admitted items \<noteq> []" by auto
  then obtain keep k s1 where sp: "split_unordered H (admitted items) st = Inr (keep, k, s1)"
    using ok by (cases "split_unordered H (admitted items) st")
      (auto simp: apply_artifacts_def withhold_unverified_authority_def split: if_splits)
  then have keep: "d \<in> set keep" using split_cases [OF sp] False d(1) by simp
  then have ne2: "keep \<noteq> []" by auto
  obtain r2 s2 where pm: "put_many H (map norm_doc keep) 500 False KeepLocal s1 = (r2, s2)" by fastforce
  from ok apply_run [OF ne sp ne2 pm] obtain w where w: "r2 = Inr w" "length keep \<le> w" "enqueue_consumed H (map norm_doc keep) s2 = Inr st'"
    by (auto split: sum.splits if_splits)
  then have "cons.run H (map norm_doc keep) s1 s2" using put_many_run [of H "map norm_doc keep" 500 s1 w s2] pm by simp
  then have "version_held (norm_doc d) s2" by (rule cons.run_D) (use keep in simp)
  moreover have "advances {DECLINED_ID, CONSUMED_ID} s2 st'"
    using enqueue_cases [OF w(3)] op_advances by auto
  ultimately show ?thesis using version_held_advances d(2) by force
qed


lemma op_from: "op_doc d \<Longrightarrow> put_op H d s = Inr s' \<Longrightarrow> came_from (\<lambda>aid r. aid \<in> {DECLINED_ID, CONSUMED_ID}) s s'"
  by (rule put_op_effect, assumption) (auto simp: op_doc_def came_from_def split: if_splits)

lemma op_no_authority: "op_doc d \<Longrightarrow> put_op H d s = Inr s' \<Longrightarrow> came_from (\<lambda>aid r. \<not> confers_authority (dget (v_doc r) ''content_type'')) s s'"
  by (rule put_op_effect, assumption) (auto simp: op_doc_def came_from_def s3sync_local split: if_splits)

lemma came_from_mono: "came_from P s t \<Longrightarrow> (\<And>aid r. P aid r \<Longrightarrow> Q aid r) \<Longrightarrow> came_from Q s t"
  unfolding came_from_def by blast

definition by_item :: "doc list \<Rightarrow> string \<Rightarrow> vrow \<Rightarrow> bool" where
  "by_item items aid r = (aid \<in> {DECLINED_ID, CONSUMED_ID}
     \<or> (\<exists>d\<in>set (admitted items). dtext d ''id'' = aid \<and> dget d ''_origin'' = PStr (v_origin r)))"

lemma apply_provenance:
  assumes "apply_artifacts H items st = (r, st')"
  shows "came_from (by_item items) st st'"
proof (rule apply_artifacts_rel [where R = "came_from (by_item items)", OF _ _ _ _ assms])
  show "came_from (by_item items) s s'" if "op_doc d" "put_op H d s = Inr s'" for d s s'
    by (rule came_from_mono [OF op_from [OF that]]) (simp add: by_item_def)
  show "came_from (by_item items) s s'" if "d \<in> set (admitted items)" "consume_step H (norm_doc d) s s'" for d s s'
    by (rule came_from_mono [OF consumed_one_from [OF that(2)]]) (use that(1) in \<open>auto simp: by_item_def\<close>)
qed (auto intro: came_from_trans)

text \<open>A document the mesh can place: a plain one with a version.\<close>

definition versioned :: "doc \<Rightarrow> bool" where
  "versioned d = (plain_doc d \<and> (\<exists>og n. dget d ''_origin'' = PStr og \<and> og \<noteq> [] \<and> dget d ''_seq'' = PInt n))"

lemma put_one_versioned: "versioned d \<Longrightarrow> \<exists>st'. put_one H d False KeepLocal st = Inr st'"
proof -
  assume "versioned d"
  then obtain og n where d: "plain_doc d" "dget d ''_origin'' = PStr og" "og \<noteq> []" "dget d ''_seq'' = PInt n" by (auto simp: versioned_def)
  obtain x st' where "write_row H d og n (st_observe og n st) = Inr (x, st')" using write_row_succeeds [OF d(1)] by blast
  with d show ?thesis by (cases "lww st (dtext d ''id'') og n") (simp_all add: put_one_def version_for_def Let_def plain_doc_def)
qed

lemma put_chunk_loop_all:
  "list_all versioned ds \<Longrightarrow> \<exists>st'. put_chunk_loop H False KeepLocal ds h k l st = (h + length ds, k, l, st')"
proof (induction ds arbitrary: h st)
  case (Cons d ds)
  then obtain s1 where "put_one H d False KeepLocal st = Inr s1" using put_one_versioned [of d H st] by auto
  with Cons.IH [of "Suc h" s1] Cons.prems show ?case by simp
qed simp

lemma put_chunks_all: "list_all versioned (concat cs) \<Longrightarrow> \<exists>st'. put_chunks H False KeepLocal cs st = (Inr (length (concat cs)), st')"
proof (induction cs arbitrary: st)
  case (Cons c cs)
  then obtain s1 where "put_chunk_loop H False KeepLocal c 0 False False st = (length c, False, False, s1)"
    using put_chunk_loop_all [of c H 0 False False st] by auto
  moreover from Cons obtain s2 where "put_chunks H False KeepLocal cs s1 = (Inr (length (concat cs)), s2)" by auto
  ultimately show ?case by (simp add: put_chunk_def)
qed simp

lemma put_many_all: "list_all versioned docs \<Longrightarrow> \<exists>st'. put_many H docs b False KeepLocal st = (Inr (length docs), st')"
  unfolding put_many_def using put_chunks_all [of "chunks (b - 1) docs" H st] by simp

lemma env_put_many: "put_many H docs b False KeepLocal st = (r, st') \<Longrightarrow> same_env st st'"
  by (rule put_many_rel [where R = same_env]) (auto intro: same_env_trans env_put_one)

lemma got_doc_ok: "\<not> doc_fault st aid \<Longrightarrow> \<exists>d. got_doc st aid = Inr d"
  by (simp add: got_doc_def get_artifact_def)

lemma enqueue_ok: "\<not> doc_fault st CONSUMED_ID \<Longrightarrow> \<exists>st'. enqueue_consumed H batch st = Inr st'"
  using got_doc_ok [of st CONSUMED_ID] op_doc_put [OF op_doc_rows(2)] by (auto simp: enqueue_consumed_def Let_def)

lemma split_ok:
  assumes "\<not> doc_fault st DECLINED_ID"
  obtains keep n s1 where "split_unordered H batch st = Inr (keep, n, s1)" "same_env st s1"
proof -
  obtain seen where seen: "load_declined st = Inr seen" using got_doc_ok [OF assms] by (auto simp: load_declined_def)
  define newly where "newly = dict_of (map (\<lambda>d. (dtext d ''id'', PList [dget d ''_origin'', dget d ''_seq''])) (filter (is_unordered st) batch))"
  obtain s1 where s1: "put_op H (declined_row seen newly) st = Inr s1" using op_doc_put [OF op_doc_rows(1)] by blast
  then have "same_env st s1" by (rule put_op_effect)
  with seen s1 show thesis
    by (cases "newly = []") (auto intro!: that simp: split_unordered_def Let_def newly_def [symmetric])
qed


lemma apply_returns:
  assumes "list_all versioned (admitted items)" "\<not> doc_fault st DECLINED_ID" "\<not> doc_fault st CONSUMED_ID"
  obtains n st' where "apply_artifacts H items st = (Inr n, st')"
proof (cases "admitted items = []")
  case True
  then show thesis by (intro that) (simp add: apply_artifacts_def withhold_unverified_authority_def)
next
  case False
  obtain keep k s1 where sp: "split_unordered H (admitted items) st = Inr (keep, k, s1)" "same_env st s1"
    by (rule split_ok [OF assms(2)])
  show thesis
  proof (cases "keep = []")
    case True
    with False sp(1) show thesis by (intro that) (simp add: apply_artifacts_def withhold_unverified_authority_def)
  next
    case ne: False
    have "list_all versioned (map norm_doc keep)"
      using split_cases [OF sp(1)] assms(1) by (auto simp: list_all_iff versioned_def norm_doc_plain)
    then obtain s2 where pm: "put_many H (map norm_doc keep) 500 False KeepLocal s1 = (Inr (length keep), s2)"
      using put_many_all [of "map norm_doc keep" H 500 s1] by auto
    have "\<not> doc_fault s2 CONSUMED_ID" using assms(3) sp(2) env_put_many [OF pm] by (simp add: same_env_def)
    then obtain s3 where "enqueue_consumed H (map norm_doc keep) s2 = Inr s3" using enqueue_ok by blast
    with apply_run [OF False sp(1) ne pm] show thesis by (intro that) simp
  qed
qed

section \<open>Correctness\<close>

text \<open>(C35) Write access to the mesh plane is not authority: whatever a batch holds and however it ends, a row that
  confers authority is in the store afterwards only if that very row was there before.\<close>

theorem authority_never_applied:
  assumes "apply_artifacts H items st = (res, st')" "map_of (vertices st') aid = Some row"
    "confers_authority (dget (v_doc row) ''content_type'')"
  shows "map_of (vertices st) aid = Some row"
proof -
  have "came_from (\<lambda>aid r. \<not> confers_authority (dget (v_doc r) ''content_type'')) st st'" (is "?R st st'")
  proof (rule apply_artifacts_rel [where R = ?R, OF _ _ _ _ assms(1)])
    show "?R s s'" if "d \<in> set (admitted items)" "consume_step H (norm_doc d) s s'" for d s s'
      by (rule came_from_mono [OF consumed_one_from [OF that(2)]])
        (use that(1) in \<open>auto simp: withhold_unverified_authority_def\<close>)
  qed (auto intro: came_from_trans op_no_authority)
  with assms(2,3) show ?thesis unfolding came_from_def by blast
qed

definition sample_grant_item :: doc where
  "sample_grant_item = [(''id'', PStr ''g''), (''content_type'', PStr ''application/vnd.agience.grant+json''), (''_origin'', PStr ''p''), (''_seq'', PInt 9)]"

theorem authority_never_applied_witness:
  "\<exists>st st' row. apply_artifacts sample_H [sample_grant_item, sample_foreign] st = (Inr 2, st')
     \<and> map_of (vertices st') ''g'' = Some row \<and> confers_authority (dget (v_doc row) ''content_type'')
     \<and> map_of (vertices st) ''g'' = Some row"
proof -
  define row where "row = (sample_row ''g'' 1)\<lparr> v_doc := sample_grant_item \<rparr>"
  define st where "st = empty_lattice ''o'' 4\<lparr> vertices := [(''g'', row)] \<rparr>"
  have g: "confers_authority (dget sample_grant_item ''content_type'')" by code_simp
  have adm: "withhold_unverified_authority (incoming [sample_grant_item, sample_foreign]) = ([sample_foreign], 1)" by code_simp
  have sp: "split_unordered sample_H [sample_foreign] st = Inr ([sample_foreign], 0, st)"
    by (simp add: split_unordered_def load_declined_def got_doc_def get_artifact_def st_def empty_lattice_def is_unordered_def
        sample_foreign_def version_of_def dtext_def dget_def dict_of_def)
  have nd: "norm_doc sample_foreign = sample_foreign" by code_simp
  obtain s2 where pm: "put_many sample_H [sample_foreign] 500 False KeepLocal st = (Inr 1, s2)"
    using put_many_all [of "[sample_foreign]" sample_H 500 st] sample_foreign_plain
    by (auto simp: versioned_def sample_foreign_def dget_def)
  have en: "enqueue_consumed sample_H [sample_foreign] s2 = Inr s2"
    by (simp add: enqueue_consumed_def sample_foreign_def dget_def)
  have a: "apply_artifacts sample_H [sample_grant_item, sample_foreign] st = (Inr 2, s2)"
    by (simp add: apply_artifacts_def adm sp nd pm en)
  have r: "map_of (vertices s2) ''g'' = Some row"
    using put_many_run [OF pm] by (auto simp: st_def sample_foreign_id elim!: consumed_one)
  have c: "confers_authority (dget (v_doc row) ''content_type'')" using g by (simp add: row_def)
  show ?thesis using a r c authority_never_applied [OF a r c] by blast
qed



section \<open>Where the code does otherwise than it says\<close>

text \<open>The check reads the type of the incoming row only. A row of any other type that carries the id and a later
  version of a stored row replaces it, a grant included: a grant, or a deny, is removed by whoever can
  write to the plane.\<close>

definition overwrite_item :: "string \<Rightarrow> vrow \<Rightarrow> doc" where
  "overwrite_item aid r = [(''id'', PStr aid), (''content_type'', PStr ''text/plain''), (''_origin'', PStr (v_origin r)), (''_seq'', PInt (v_seq r + 1))]"

lemma overwrite_admitted: "aid \<noteq> [] \<Longrightarrow> withhold_unverified_authority (incoming [overwrite_item aid r]) = ([overwrite_item aid r], 0)"
proof -
  have "is_replicated (PStr ''text/plain'') \<and> \<not> confers_authority (PStr ''text/plain'')" by code_simp
  moreover assume "aid \<noteq> []"
  ultimately show ?thesis by (simp add: withhold_unverified_authority_def incoming_def overwrite_item_def dtext_def dget_def)
qed

theorem stored_grant_replaced:
  assumes "map_of (vertices st) aid = Some r" "aid \<noteq> []" "v_origin r \<noteq> []" "\<not> doc_fault st DECLINED_ID"
  shows "\<exists>st' row. apply_artifacts H [overwrite_item aid r] st = (Inr 1, st')
    \<and> map_of (vertices st') aid = Some row \<and> dget (v_doc row) ''content_type'' = PStr ''text/plain''"
proof -
  let ?d = "overwrite_item aid r"
  have d: "dtext ?d ''id'' = aid" "dget ?d ''_origin'' = PStr (v_origin r)" "dget ?d ''_seq'' = PInt (v_seq r + 1)"
    "dget ?d ''content_type'' = PStr ''text/plain''" "versioned ?d"
    using assms(2,3) by (simp_all add: overwrite_item_def dtext_def dget_def versioned_def plain_doc_def)
  have "\<not> is_unordered st ?d" using assms(1) d by (simp add: is_unordered_def version_of_def compare_version_def)
  then have sp: "split_unordered H [?d] st = Inr ([?d], 0, st)"
    using assms(4) by (simp add: split_unordered_def load_declined_def got_doc_def get_artifact_def dict_of_def)
  have nd: "norm_doc ?d = ?d" by (simp add: normalise_context_def normalise_legacy_state_def overwrite_item_def dget_def parse_context_def LEGACY_LIVE_STATES_def)
  obtain s1 where p: "put_one H ?d False KeepLocal st = Inr s1" using put_one_versioned [OF d(5)] by blast
  then have pm: "put_many H [?d] 500 False KeepLocal st = (Inr 1, s1)"
    by (simp add: put_many_def chunks.simps put_chunk_def)
  have en: "enqueue_consumed H [?d] s1 = Inr s1" by (simp add: enqueue_consumed_def overwrite_item_def dget_def)
  have a: "apply_artifacts H [?d] st = (Inr 1, s1)"
    by (simp add: apply_artifacts_def overwrite_admitted assms(2) sp nd pm en)
  from p obtain row where "map_of (vertices s1) aid = Some row" "v_doc row = stored_doc (doc_of st aid) ?d (v_origin r) (v_seq r + 1)"
    by (rule consumed_one) (use assms(1) d in auto)
  with a d(4) dget_stored_doc [of "''content_type''" "doc_of st aid" ?d] show ?thesis by (auto simp: TIME_CLAIM_KEY_def)
qed

theorem stored_grant_replaced_witness:
  "\<exists>st st' row. confers_authority (dget (the (doc_of st ''g'')) ''content_type'')
     \<and> apply_artifacts sample_H [overwrite_item ''g'' ((sample_row ''g'' 1)\<lparr> v_doc := sample_grant_item, v_origin := ''o'' \<rparr>)] st = (Inr 1, st')
     \<and> map_of (vertices st') ''g'' = Some row \<and> dget (v_doc row) ''content_type'' = PStr ''text/plain''"
proof -
  define r where "r = (sample_row ''g'' 1)\<lparr> v_doc := sample_grant_item, v_origin := ''o'' \<rparr>"
  define st where "st = empty_lattice ''o'' 4\<lparr> vertices := [(''g'', r)] \<rparr>"
  have "confers_authority (dget sample_grant_item ''content_type'')" by code_simp
  then have "confers_authority (dget (the (doc_of st ''g'')) ''content_type'')" by (simp add: st_def doc_of_def r_def)
  moreover have "\<exists>st' row. apply_artifacts sample_H [overwrite_item ''g'' r] st = (Inr 1, st')
      \<and> map_of (vertices st') ''g'' = Some row \<and> dget (v_doc row) ''content_type'' = PStr ''text/plain''"
    by (rule stored_grant_replaced) (simp_all add: st_def empty_lattice_def r_def)
  ultimately show ?thesis unfolding r_def [symmetric] by blast
qed

text \<open>Consuming a document of a collection the node holds writes the containment edge itself, under the node's own
  origin and with no mask; the author's edge, which comes with the same leaf, is then concurrent and is
  not adopted. An attenuated membership arrives unattenuated.\<close>

theorem consumed_mask_dropped:
  assumes "put_one H d False KeepLocal st = Inr st1" "doc_of st (dtext d ''id'') = None"
    and "dtext d ''collection_id'' = cid" "cid \<noteq> []" "doc_of st cid \<noteq> None" "doc_root d \<noteq> []" "doc_root d \<noteq> cid"
    and "\<not> starts_with LOCAL_ORIGIN (st_origin st)" "dget ps ''_origin'' = PNone"
  shows "\<exists>st2 e. add_one H (stamp_edge H (st_origin st1) (cid, doc_root d, ''contains'', ps)) False st1 = Inr st2
    \<and> map_of (edges st2) (edge_key H cid (doc_root d) ''contains'') = Some e \<and> e_origin e = st_origin st \<and> e_propagate e = PNone"
proof -
  let ?props = "[(''root_id'', PStr (doc_root d)), (''is_origin'', PInt 1)]"
  obtain og n x where w: "write_row H d og n (st_observe og n st) = Inr (x, st1)"
    by (rule put_one_foreign_cases [OF assms(1)]) (use assms(2) in \<open>auto simp: lww_def doc_of_def split: option.splits\<close>)
  from write_row_effect [OF w] obtain row s2 where
    sc: "same_core (row_core H (dtext d ''id'') row (st_observe og n st)) s2" and pl: "place H x s2 = Inr st1"
    and x: "x = stored_doc (doc_of (st_observe og n st) (dtext d ''id'')) d og n" by metis
  have cid: "map_of (vertices s2) cid \<noteq> None"
    using sc assms(5) by (auto simp: same_core_def row_core_vertices doc_of_def)
  have "dtext x ''collection_id'' = cid" "doc_root x = doc_root d" using assms(3) by (simp_all add: x doc_root_stored)
  with pl cid assms(4,6,7) have a: "add_one H (cid, doc_root d, ''contains'', ?props) True s2 = Inr st1"
    by (auto simp: place_def Let_def split: sum.splits)
  obtain m s3 where "st_allocate s2 = (m, s3)" by fastforce
  with a assms(4,6) have we: "write_edge H cid (doc_root d) ''contains'' ?props (st_origin s2) m s3 = Inr st1"
    by (auto simp: add_one_def split: sum.splits)
  have o: "st_origin s2 = st_origin st" "st_origin st1 = st_origin st"
    using sc env_write_row [OF w] by (auto simp: same_core_def row_core_def upsert_vertex_def Let_def same_env_def split: option.splits if_splits)
  from we o obtain e where e: "map_of (edges st1) (edge_key H cid (doc_root d) ''contains'') = Some e" "e_origin e = st_origin st" "e_propagate e = PNone"
    by (auto simp: write_edge_def Let_def dget_def split: option.splits)
  let ?o = "consumed_edge_origin H cid (doc_root d) ''contains''"
  have "starts_with LOCAL_ORIGIN ?o" by (simp add: consumed_edge_origin_def CONSUMED_EDGE_NS_def LOCAL_ORIGIN_def)
  then have "?o \<noteq> st_origin st" "?o \<noteq> []" using assms(8) by (auto simp: LOCAL_ORIGIN_def)
  with assms(4,6,9) e have "add_one H (stamp_edge H (st_origin st1) (cid, doc_root d, ''contains'', ps)) False st1
      = Inr (bump ''conflict:unordered_edge'' 1 (st_observe ?o 1 st1))"
    by (simp add: stamp_edge_def add_one_def compare_version_def Let_def)
  with e show ?thesis by (simp add: bump_def)
qed

definition sample_member :: doc where
  "sample_member = [(''id'', PStr ''f''), (''collection_id'', PStr ''c''), (''_origin'', PStr ''p''), (''_seq'', PInt 3)]"

theorem consumed_mask_dropped_witness:
  "\<exists>st1 st2 e. add_one sample_H (stamp_edge sample_H (st_origin st1) (''c'', ''f'', ''contains'', [(''propagate'', PStr ''read'')])) False st1 = Inr st2
     \<and> map_of (edges st2) (edge_key sample_H ''c'' ''f'' ''contains'') = Some e \<and> e_propagate e = PNone"
proof -
  define st where "st = empty_lattice ''o'' 4\<lparr> vertices := [(''c'', sample_row ''c'' 1)] \<rparr>"
  have f: "dtext sample_member ''id'' = ''f''" "dtext sample_member ''collection_id'' = ''c''" "doc_root sample_member = ''f''"
    by (simp_all add: sample_member_def dtext_def dget_def doc_root_def py_or_def)
  have "versioned sample_member" by (simp add: versioned_def plain_doc_def sample_member_def dtext_def dget_def)
  then obtain st1 where p: "put_one sample_H sample_member False KeepLocal st = Inr st1" using put_one_versioned by blast
  from consumed_mask_dropped [OF p, of "''c''" "[(''propagate'', PStr ''read'')]"] f show ?thesis
    by (auto simp: st_def doc_of_def LOCAL_ORIGIN_def empty_lattice_def dget_def)
qed

end
