(* ===== verification/Spec2Isabelle.thy ===== *)
theory Spec2Isabelle
  imports Store Grants Origin_Walk Node_Seal Ledger Membership Access Grant_Service Grant_Keys
    Oidc Authn Check_Access Context_Walk Light_Cone Work_Pool Merkle Mint_Context Mesh_Apply
begin

text \<open>
  A verification library for Mantle, the standalone lattice store of the Agience platform: one SQLite
  file of vertices and edges with content-addressed content beside it, a grant ledger kept in the
  same store, and the authorization, mesh, search and HTTP layers over it. Paths below are relative to
  \<open>src/src/mantle/\<close>.

  \<^bold>\<open>The program and its parts.\<close> Every artifact, collection, grant and person is a vertex: a JSON document
  with a version \<open>(_origin, _seq)\<close> from a per-origin allocator (\<open>db/seq.py\<close>, \<open>db/vertex.py\<close>). Containment and
  links are edges with a label, a \<open>propagate\<close> mask, an origin mark and an order key (\<open>db/edge.py\<close>). Every
  write keeps counters, an allocation account and an incremental merkle tree exact, so that a node can
  tell a lost tail from a balanced store and a peer can compare replicas. Authorization is attenuation:
  a grant carries nine CRUDEASIO bits and an effect (\<open>attenuation.py\<close>, \<open>entities/grant.py\<close>), reaches what it
  contains through origin edges whose mask carries the action (\<open>db/lattice_api.py\<close>), and composes by meet.
  Over that stand the ledger of grants (\<open>db/lattice_api.py\<close>), the field sealing of private grant fields
  and link names (\<open>db/node_seal.py\<close>), the read and invoke decisions (\<open>db/access.py\<close>), the issuer clamp and
  invites (\<open>services/grant_service.py\<close>) and bearer keys and bundles (\<open>services/grant_key_service.py\<close>).
  A request enters through token verification (\<open>services/oidc.py\<close>, \<open>services/auth_service.py\<close>), becomes a
  caller (\<open>services/dependencies.py\<close>) and is decided by \<open>check_access\<close>, which walks the origin chain of the
  artifact up and lets the nearest level that speaks decide. Search asks the same question downwards:
  it enumerates the light cone of the caller or walks up per hit (\<open>search/mantle/lightcone.py\<close>,
  \<open>search/mantle/principal.py\<close>), and follows the context lattice inside it (\<open>services/context_service.py\<close>).
  What is known at the moment of a write is recorded in the document's minted context, which has two
  authors, the store and the client (\<open>services/mint_context.py\<close>). Nodes replicate by comparing merkle trees
  (\<open>mesh/merkle.py\<close>) and applying the leaves that differ (\<open>mesh/sync.py\<close>).

  \<^bold>\<open>Theories.\<close>
  \<^item> \<open>Prelude\<close>: Python values and dictionaries, truthiness, the error type and \<open>rbind\<close>, the string operations
    the sources use. \<open>Json_Text\<close>: \<open>json.dumps\<close>/\<open>json.loads\<close> on the values that are stored.
  \<^item> \<open>Attenuation\<close>: \<open>attenuation.py\<close>. A mask is a 10-bit word; meet, order, composition, the flag and
    propagate codecs. The laws of composition are proved in a locale of authorities and interpreted on
    the masks.
  \<^item> \<open>Grants\<close>: \<open>entities/grant.py\<close>. The record, its constructor and document codec, role presets, and the
    bundle ceiling \<open>masked_by\<close>, which refines the mask meet.
  \<^item> \<open>Seq\<close>: the allocator of \<open>db/seq.py\<close> inside one write transaction, with savepoints.
  \<^item> \<open>Store_State\<close>: the row types of \<open>db/schema.py\<close>, the constants of \<open>db/constants.py\<close>, and the reads of
    \<open>db/vertex.py\<close> and \<open>db/edge.py\<close>. The state is one record: the two tables, the allocator marks, the
    counters, the merkle leaves, the index tables, the task rows and two fault oracles for reads that
    raise.
  \<^item> \<open>Store_Write\<close>: every write of those two files, branch by branch. \<open>Store_Inv\<close>: the invariant (accounting,
    counters, digests, versions) and that every write keeps it. \<open>Store\<close>: the step relation \<open>store_reach\<close>
    over all public writes and the properties of reachable states; the locale \<open>keyed_store\<close> is the
    contract of a table that clients use and is interpreted on \<open>put_artifact\<close>.
  \<^item> \<open>Json_Codec\<close>: values survive \<open>json.dumps\<close> and \<open>json.loads\<close>, alone and as newline-delimited text.
  \<^item> \<open>Mint_Context\<close>: \<open>services/mint_context.py\<close>. The server-owned and the client keys of a context, updates, the
    rewriting of the \<open>caller\<close> form, the mint.
  \<^item> \<open>Merkle\<close>: \<open>mesh/merkle.py\<close> and the resolution of the tree: folding, comparison, reshard.
  \<^item> \<open>Mesh_Apply\<close>: the consuming half of \<open>mesh/sync.py\<close>. The locale \<open>delivery\<close> is the contract of a bulk writer whose
    deliveries last; it is interpreted on \<open>put_many\<close> of foreign documents.
  \<^item> \<open>Work_Pool\<close>: the task sidecar of \<open>db/vertex.py\<close> as a state machine: claims, leases, releases, settlements.
  \<^item> \<open>Origin_Walk\<close>: \<open>get_origin_root\<close>, \<open>origin_chain\<close>, \<open>list_origin_descendants\<close> against the relation
    \<open>conduct_rel\<close>.
  \<^item> \<open>Node_Seal\<close>: field sealing over a Fernet parameter with the hypothesis \<open>fernet_law\<close>.
  \<^item> \<open>Ledger\<close>: grants as documents; lookups, the user upsert, the archive gate. \<open>ledger\<close> is the abstraction
    to a finite map.
  \<^item> \<open>Membership\<close>: order keys, link labels, lineage readers, membership edges, reorder and listing.
  \<^item> \<open>Access\<close>: \<open>db/access.py\<close>.
  \<^item> \<open>Grant_Service\<close>: \<open>services/grant_service.py\<close>.
  \<^item> \<open>Grant_Keys\<close>: \<open>services/grant_key_service.py\<close>.
  \<^item> \<open>Oidc\<close>: trusted issuers, tenants, the key cache with its refetch spacing, token verification.
  \<^item> \<open>Authn\<close>: the caller record, the resolution of a bearer token, platform scopes, inbound nonces, the acting
    principal and the dependency \<open>get_auth\<close>.
  \<^item> \<open>Check_Access\<close>: \<open>check_access\<close> with its memo and audit record, and the platform administrator. The locale
    \<open>grant_source\<close> is what the gate needs of the ledger; it is interpreted on the ledger lookups.
  \<^item> \<open>Context_Walk\<close>: context edges, the confined walk and the event fan-out.
  \<^item> \<open>Light_Cone\<close>: the grants of a principal, the light cone, the plain and the memoised walk up of search.

  \<^bold>\<open>What is shown.\<close> For the store: accounting, counters and merkle digests are exact and versions identify
  rows in every reachable state, a put is read back and moves nothing else, deletes take their edges,
  replays are idempotent and consuming never regresses a row. For the work pool: the task rows are exactly
  what the documents project, and a claim is exclusive while it lasts. For replication: trees of different
  sizes are compared exactly, a reshard keeps the tree, no inbound batch brings in a row that confers
  authority, and a well-formed leaf always lands in full. For contexts: no update and no mint lets a client
  write a server-owned key, and none of its own keys is lost. For authority: composition is the
  greatest lower bound, the light cone is exactly reachability over conducting edges and agrees with
  the upward walk, lookups are complete at any size, decisions are deny-first, minting is clamped to
  the issuer, keys stay below their ceiling and their issuer, one-time invites are spent by one claim
  and revocation is final. For a request: a token is accepted only under a configured issuer and a bound
  audience, tenants never share a user, an issuer is contacted no more often than the spacing allows,
  a caller is held to its platform scope and its nonce, the gate is exactly the nearest level that
  speaks and its memo is invisible, and what a bearer key is granted is within its root grant and its
  issuer, from the token on. For search: the cone is inside the gate, the walk up is the gate, the
  memoised walk agrees with the plain one, and the context walk is confined to the universe it is
  given and exact in it. Where the code does otherwise than its documentation says, the theorem states
  what the code does.

  \<^bold>\<open>Parameters.\<close> Hash functions, Fernet, the clock, fresh ids and drawn tokens are arguments; so are the
  signature check and the claims of a token, the fetch of an issuer's keys, \<open>uuid5\<close> and the MAC of a nonce, the
  rung authority and the enrichment seam of a mint. Where a property
  needs a law of them it is a named hypothesis (\<open>fernet_law\<close>) with a concrete instance as its witness.

  \<^bold>\<open>Bounds.\<close> \<open>edges_of\<close> keeps its cap of a million edges, grant seeks their ceiling of 20000, bundles the depth
  16 and \<open>origin_chain\<close> its ceiling of 10000, the
  context walk its depth 64 and its 10000 nodes: they are the code's own bounds and the theorems hold for them
  as they are. No fuel is added; loops that end because a visited set grows are \<open>function\<close>s with a
  termination proof.

  \<^bold>\<open>Not modelled.\<close> SQL text, connection handling and migrations; content encryption and object storage
  (\<open>db/doc_boundary.py\<close>, \<open>db/content_tier.py\<close>), which appear as a decoding argument of the readers; change
  events; the HTTP routers, the mesh plane (publishing and pulling leaf objects), the search index with its encrypted postings and its ranking, which call the components above
  through their public operations.
\<close>

end
